(* ===== verification/Rust_Std.thy ===== *)
theory Rust_Std
  imports Prelude
begin

text \<open>
  The parts of the Rust standard library that the crate uses: saturating integer operations,
  ASCII classification of bytes, UTF-8 validation, and the string operations \<open>trim\<close>,
  \<open>split_once\<close>, \<open>split\<close>, \<open>contains\<close> and \<open>parse\<close>.
\<close>

section \<open>Saturating integers\<close>

definition sat_sub :: "u64 \<Rightarrow> u64 \<Rightarrow> u64" where
  "sat_sub a b = (if a < b then 0 else a - b)"

definition sat_mul :: "u64 \<Rightarrow> u64 \<Rightarrow> u64" where
  "sat_mul a b = (if unat a * unat b < 2 ^ 64 then a * b else - 1)"

definition sat_add_u32 :: "u32 \<Rightarrow> u32 \<Rightarrow> u32" where
  "sat_add_u32 a b = (if unat a + unat b < 2 ^ 32 then a + b else - 1)"

lemma unat_sat_sub: "unat (sat_sub a b) = unat a - unat b"
  by (auto simp: sat_sub_def u64_less_iff unat_sub_if')

lemma unat_sat_mul: "unat (sat_mul a b) = min (2 ^ 64 - 1) (unat a * unat b)"
  by (auto simp: sat_mul_def unat_word_ariths min_def)

lemma unat_sat_add_u32: "unat (sat_add_u32 a b) = min (2 ^ 32 - 1) (unat a + unat b)"
  by (auto simp: sat_add_u32_def unat_word_ariths min_def)

definition clamp :: "u64 \<Rightarrow> u64 \<Rightarrow> u64 \<Rightarrow> u64" where
  "clamp lo hi x = (if x < lo then lo else if hi < x then hi else x)"

lemma clamp_bounds: "lo \<le> hi \<Longrightarrow> lo \<le> clamp lo hi x \<and> clamp lo hi x \<le> hi"
  by (auto simp: clamp_def)

lemma clamp_id: "lo \<le> x \<Longrightarrow> x \<le> hi \<Longrightarrow> clamp lo hi x = x"
  by (auto simp: clamp_def)

section \<open>Characters as bytes\<close>

definition chr_byte :: "char \<Rightarrow> u8" where
  "chr_byte c = of_nat (of_char c)"

definition byte_chr :: "u8 \<Rightarrow> char" where
  "byte_chr b = char_of (unat b)"

definition as_bytes :: "string \<Rightarrow> bytes" where
  "as_bytes s = map chr_byte s"

lemma unat_chr_byte [simp]: "unat (chr_byte c) = of_char c"
  by (simp add: chr_byte_def unat_of_nat)

lemma byte_chr_chr_byte [simp]: "byte_chr (chr_byte c) = c"
  by (simp add: byte_chr_def)

lemma chr_byte_byte_chr [simp]: "chr_byte (byte_chr b) = b"
  using unat_u8_bound [of b] by (simp add: byte_chr_def chr_byte_def)

lemma chr_byte_inject [simp]: "chr_byte c = chr_byte d \<longleftrightarrow> c = d"
  by (metis byte_chr_chr_byte)

lemma as_bytes_inject [simp]: "as_bytes s = as_bytes t \<longleftrightarrow> s = t"
  unfolding as_bytes_def by (simp add: inj_map_eq_map inj_on_def)

lemma as_bytes_simps [simp]:
  "as_bytes [] = []"
  "as_bytes (c # s) = chr_byte c # as_bytes s"
  "as_bytes (s @ t) = as_bytes s @ as_bytes t"
  "length (as_bytes s) = length s"
  "as_bytes s = [] \<longleftrightarrow> s = []"
  "as_bytes (map byte_chr b) = b"
  "map byte_chr (as_bytes s) = s"
  by (simp_all add: as_bytes_def o_def)

definition is_ascii_digit :: "u8 \<Rightarrow> bool" where
  [std_defs]: "is_ascii_digit b \<longleftrightarrow> 48 \<le> b \<and> b \<le> 57"

definition is_ascii_hexdigit :: "u8 \<Rightarrow> bool" where
  [std_defs]: "is_ascii_hexdigit b \<longleftrightarrow>
     48 \<le> b \<and> b \<le> 57 \<or> 65 \<le> b \<and> b \<le> 70 \<or> 97 \<le> b \<and> b \<le> 102"

definition is_ascii_alphanumeric :: "u8 \<Rightarrow> bool" where
  [std_defs]: "is_ascii_alphanumeric b \<longleftrightarrow>
     48 \<le> b \<and> b \<le> 57 \<or> 65 \<le> b \<and> b \<le> 90 \<or> 97 \<le> b \<and> b \<le> 122"

definition ascii_lower :: "u8 \<Rightarrow> u8" where
  [std_defs]: "ascii_lower b = (if 65 \<le> b \<and> b \<le> 90 then b + 32 else b)"

definition eq_ignore_ascii_case :: "string \<Rightarrow> string \<Rightarrow> bool" where
  [std_defs]: "eq_ignore_ascii_case s t \<longleftrightarrow>
     map ascii_lower (as_bytes s) = map ascii_lower (as_bytes t)"

text \<open>\<open>char::to_digit(16)\<close> on the character with the given code.\<close>

definition to_digit_16 :: "u8 \<Rightarrow> u32 option" where
  [std_defs]: "to_digit_16 b =
     (if 48 \<le> b \<and> b \<le> 57 then Some (ucast b - 48)
      else if 97 \<le> b \<and> b \<le> 102 then Some (ucast b - 87)
      else if 65 \<le> b \<and> b \<le> 70 then Some (ucast b - 55)
      else None)"

section \<open>UTF-8\<close>

definition utf8_cont :: "u8 \<Rightarrow> bool" where
  [std_defs]: "utf8_cont b \<longleftrightarrow> 0x80 \<le> b \<and> b \<le> 0xBF"

definition utf8_lead3 :: "u8 \<Rightarrow> u8 \<Rightarrow> bool" where
  [std_defs]: "utf8_lead3 a b \<longleftrightarrow>
     a = 0xE0 \<and> 0xA0 \<le> b \<and> b \<le> 0xBF \<or>
     0xE1 \<le> a \<and> a \<le> 0xEC \<and> utf8_cont b \<or>
     a = 0xED \<and> 0x80 \<le> b \<and> b \<le> 0x9F \<or>
     0xEE \<le> a \<and> a \<le> 0xEF \<and> utf8_cont b"

definition utf8_lead4 :: "u8 \<Rightarrow> u8 \<Rightarrow> bool" where
  [std_defs]: "utf8_lead4 a b \<longleftrightarrow>
     a = 0xF0 \<and> 0x90 \<le> b \<and> b \<le> 0xBF \<or>
     0xF1 \<le> a \<and> a \<le> 0xF3 \<and> utf8_cont b \<or>
     a = 0xF4 \<and> 0x80 \<le> b \<and> b \<le> 0x8F"

fun utf8_valid :: "bytes \<Rightarrow> bool" where
  "utf8_valid [] = True"
| "utf8_valid (a # s) =
     (if a < 0x80 then utf8_valid s
      else (case s of [] \<Rightarrow> False | b # t \<Rightarrow>
        if 0xC2 \<le> a \<and> a \<le> 0xDF then utf8_cont b \<and> utf8_valid t
        else (case t of [] \<Rightarrow> False | c # u \<Rightarrow>
          if utf8_lead3 a b then utf8_cont c \<and> utf8_valid u
          else (case u of [] \<Rightarrow> False | d # v \<Rightarrow>
            utf8_lead4 a b \<and> utf8_cont c \<and> utf8_cont d \<and> utf8_valid v))))"

definition str_from_utf8 :: "bytes \<Rightarrow> string option" where
  [std_defs]: "str_from_utf8 b = (if utf8_valid b then Some (map byte_chr b) else None)"

lemma utf8_valid_ascii: "(\<And>b. b \<in> set bs \<Longrightarrow> b < 0x80) \<Longrightarrow> utf8_valid bs"
  by (induction bs) auto

lemma str_from_utf8_ascii:
  "(\<And>b. b \<in> set bs \<Longrightarrow> b < 0x80) \<Longrightarrow> str_from_utf8 bs = Some (map byte_chr bs)"
  by (simp add: str_from_utf8_def utf8_valid_ascii)

lemma str_from_utf8_Some: "str_from_utf8 b = Some s \<Longrightarrow> as_bytes s = b"
  by (auto simp: str_from_utf8_def split: if_splits)

section \<open>Trimming\<close>

text \<open>
  \<open>str::trim\<close> removes the characters of the Unicode property \<open>White_Space\<close> at both ends. They are
  one, two or three bytes long in UTF-8; a byte sequence of one of these shapes at the end of a
  valid string is that character, since its first byte is never a continuation byte.
\<close>

definition ws1 :: "char \<Rightarrow> bool" where
  [std_defs]: "ws1 a \<longleftrightarrow> (let x = chr_byte a in 9 \<le> x \<and> x \<le> 13 \<or> x = 32)"

definition ws2 :: "char \<Rightarrow> char \<Rightarrow> bool" where
  [std_defs]: "ws2 a b \<longleftrightarrow> chr_byte a = 0xC2 \<and> (chr_byte b = 0x85 \<or> chr_byte b = 0xA0)"

definition ws3 :: "char \<Rightarrow> char \<Rightarrow> char \<Rightarrow> bool" where
  [std_defs]: "ws3 a b c \<longleftrightarrow> (let x = chr_byte a; y = chr_byte b; z = chr_byte c in
     x = 0xE1 \<and> y = 0x9A \<and> z = 0x80 \<or>
     x = 0xE2 \<and> y = 0x80 \<and> (0x80 \<le> z \<and> z \<le> 0x8A \<or> z = 0xA8 \<or> z = 0xA9 \<or> z = 0xAF) \<or>
     x = 0xE2 \<and> y = 0x81 \<and> z = 0x9F \<or>
     x = 0xE3 \<and> y = 0x80 \<and> z = 0x80)"

fun strip_ws :: "(char \<Rightarrow> char \<Rightarrow> bool) \<Rightarrow> (char \<Rightarrow> char \<Rightarrow> char \<Rightarrow> bool) \<Rightarrow> string \<Rightarrow> string" where
  "strip_ws p q [] = []"
| "strip_ws p q (a # s) =
     (if ws1 a then strip_ws p q s
      else (case s of [] \<Rightarrow> a # s | b # t \<Rightarrow>
        if p a b then strip_ws p q t
        else (case t of [] \<Rightarrow> a # s | c # u \<Rightarrow>
          if q a b c then strip_ws p q u else a # s)))"

definition trim_start :: "string \<Rightarrow> string" where
  [std_defs]: "trim_start s = strip_ws ws2 ws3 s"

definition trim_end :: "string \<Rightarrow> string" where
  [std_defs]: "trim_end s = rev (strip_ws (\<lambda>b a. ws2 a b) (\<lambda>c b a. ws3 a b c) (rev s))"

definition trim :: "string \<Rightarrow> string" where
  [std_defs]: "trim s = trim_end (trim_start s)"

lemma strip_ws_idem [simp]: "strip_ws p q (strip_ws p q s) = strip_ws p q s"
proof (induction p q s rule: strip_ws.induct)
  case (1 p q)
  then show ?case by simp
next
  case (2 p q a s)
  then show ?case by (auto split: list.splits)
qed

text \<open>Either the string starts with one white-space character, which is dropped, or it is left alone.\<close>

lemma strip_ws_cases:
  obtains (drop) w t where "s = w @ t" "w \<noteq> []" "strip_ws p q s = strip_ws p q t"
  | (stop) "strip_ws p q s = s"
proof (cases "strip_ws p q s = s")
  case True
  then show ?thesis by (rule stop)
next
  case False
  then obtain a r where s: "s = a # r" by (cases s) auto
  show ?thesis
  proof (cases "ws1 a")
    case True
    then show ?thesis using s drop [of "[a]" r] by simp
  next
    case na: False
    with False s obtain b t where r: "r = b # t" by (cases r) auto
    show ?thesis
    proof (cases "p a b")
      case True
      then show ?thesis using s r na drop [of "[a, b]" t] by simp
    next
      case nb: False
      with False s r na obtain c u where "t = c # u" "q a b c"
        by (cases t) (auto split: if_splits)
      then show ?thesis using s r na nb drop [of "[a, b, c]" u] by simp
    qed
  qed
qed

lemma strip_ws_suffix: "\<exists>pre. s = pre @ strip_ws p q s"
proof (induction s rule: length_induct)
  case (1 s)
  show ?case
  proof (cases s p q rule: strip_ws_cases)
    case (drop w t)
    then obtain pre where "t = pre @ strip_ws p q t" using 1 by (metis length_append length_greater_0_conv less_add_same_cancel2)
    then show ?thesis using drop by (metis append_assoc)
  next
    case stop
    then show ?thesis by (metis append_Nil)
  qed
qed

lemma strip_ws_length: "length (strip_ws p q s) \<le> length s"
  using strip_ws_suffix [of s p q] by (metis length_append le_add2)

lemma strip_ws_fixed:
  "strip_ws p q (a # s) = a # s \<longleftrightarrow>
     \<not> ws1 a \<and> (\<forall>b t. s = b # t \<longrightarrow> \<not> p a b \<and> (\<forall>c u. t = c # u \<longrightarrow> \<not> q a b c))"
proof -
  have len: "strip_ws p q t \<noteq> a # s" if "length t \<le> length s" for t
    using strip_ws_length [of p q t] that by (auto dest: arg_cong [of _ _ length])
  show ?thesis
    using len [of s] len [of "tl s"] len [of "tl (tl s)"]
    by (cases s; cases "tl s") auto
qed

lemma strip_ws_take:
  assumes "strip_ws p q s = s"
  shows "strip_ws p q (take n s) = take n s"
proof (cases s; cases n)
  fix a t m
  assume s: "s = a # t" and n: "n = Suc m"
  have "strip_ws p q (a # take m t) = a # take m t"
    using assms unfolding s strip_ws_fixed
    by (cases t; cases "tl t"; cases m; cases "m - 1") auto
  then show ?thesis by (simp add: s n del: strip_ws.simps)
qed simp_all

lemma trim_end_take: "\<exists>n. trim_end s = take n s"
proof -
  obtain pre where "rev s = pre @ strip_ws (\<lambda>b a. ws2 a b) (\<lambda>c b a. ws3 a b c) (rev s)"
    using strip_ws_suffix by blast
  then have "s = trim_end s @ rev pre"
    by (metis rev_append rev_rev_ident trim_end_def)
  then show ?thesis by (metis append_eq_conv_conj)
qed

lemma trim_start_trim [simp]: "trim_start (trim s) = trim s"
proof -
  obtain n where "trim s = take n (trim_start s)"
    using trim_end_take by (auto simp: trim_def)
  then show ?thesis by (simp add: trim_start_def strip_ws_take)
qed

lemma trim_trim [simp]: "trim (trim s) = trim s"
proof -
  have "trim_end (trim_end t) = trim_end t" for t
    by (simp add: trim_end_def)
  then show ?thesis
    by (metis trim_def trim_start_trim)
qed

section \<open>Splitting and searching\<close>

definition split_once :: "char \<Rightarrow> string \<Rightarrow> (string \<times> string) option" where
  [std_defs]: "split_once c s =
     (if c \<in> set s then Some (takeWhile (\<lambda>x. x \<noteq> c) s, tl (dropWhile (\<lambda>x. x \<noteq> c) s)) else None)"

fun split_on :: "char \<Rightarrow> string \<Rightarrow> string list" where
  "split_on c [] = [[]]"
| "split_on c (x # xs) =
     (if x = c then [] # split_on c xs
      else (case split_on c xs of [] \<Rightarrow> [[x]] | p # ps \<Rightarrow> (x # p) # ps))"

fun starts_with :: "string \<Rightarrow> string \<Rightarrow> bool" where
  "starts_with s [] = True"
| "starts_with [] (p # ps) = False"
| "starts_with (c # s) (p # ps) = (c = p \<and> starts_with s ps)"

fun str_contains :: "string \<Rightarrow> string \<Rightarrow> bool" where
  "str_contains [] p = (p = [])"
| "str_contains (c # s) p = (starts_with (c # s) p \<or> str_contains s p)"

lemma starts_with_append [simp]: "starts_with (p @ s) p"
  by (induction p) auto

lemma str_contains_prefix: "starts_with s p \<Longrightarrow> str_contains s p"
  by (cases s; cases p) auto

lemma split_once_append:
  "c \<notin> set s \<Longrightarrow> split_once c (s @ c # t) = Some (s, t)"
proof -
  assume "c \<notin> set s"
  then have "takeWhile (\<lambda>x. x \<noteq> c) (s @ c # t) = s" "dropWhile (\<lambda>x. x \<noteq> c) (s @ c # t) = c # t"
    by (induction s) auto
  then show ?thesis by (simp add: split_once_def)
qed

section \<open>Parsing unsigned integers\<close>

text \<open>
  \<open>parse::<uN>()\<close>: one optional leading plus sign, then at least one digit, every step of the
  accumulation checked against the maximum of the type.
\<close>

fun parse_digits :: "nat \<Rightarrow> nat \<Rightarrow> bytes \<Rightarrow> nat option" where
  "parse_digits mx acc [] = Some acc"
| "parse_digits mx acc (b # bs) =
     (if is_ascii_digit b then
        (let acc' = 10 * acc + (unat b - 48)
         in if acc' \<le> mx then parse_digits mx acc' bs else None)
      else None)"

definition parse_uint :: "nat \<Rightarrow> string \<Rightarrow> nat option" where
  [std_defs]: "parse_uint mx s =
     (let b = as_bytes s; d = (case b of [] \<Rightarrow> [] | x # xs \<Rightarrow> if x = 43 then xs else b)
      in if d = [] then None else parse_digits mx 0 d)"

definition parse_u16 :: "string \<Rightarrow> u16 option" where
  [std_defs]: "parse_u16 s = map_option of_nat (parse_uint (2 ^ 16 - 1) s)"

definition parse_u64 :: "string \<Rightarrow> u64 option" where
  [std_defs]: "parse_u64 s = map_option of_nat (parse_uint (2 ^ 64 - 1) s)"

text \<open>The value a digit string denotes, and the checked parser computes exactly that value.\<close>

definition dec_value :: "nat \<Rightarrow> bytes \<Rightarrow> nat" where
  "dec_value acc bs = foldl (\<lambda>a b. 10 * a + (unat b - 48)) acc bs"

lemma dec_value_simps [simp]:
  "dec_value acc [] = acc"
  "dec_value acc (b # bs) = dec_value (10 * acc + (unat b - 48)) bs"
  "dec_value acc (as @ bs) = dec_value (dec_value acc as) bs"
  by (simp_all add: dec_value_def)

lemma dec_value_ge: "acc \<le> dec_value acc bs"
proof (induction bs arbitrary: acc)
  case Nil
  then show ?case by simp
next
  case (Cons b bs)
  have "10 * acc + (unat b - 48) \<le> dec_value acc (b # bs)"
    using Cons.IH by simp
  then show ?case by linarith
qed

lemma parse_digits_eq:
  assumes "acc \<le> mx"
  shows "parse_digits mx acc bs =
    (if list_all is_ascii_digit bs \<and> dec_value acc bs \<le> mx then Some (dec_value acc bs) else None)"
  using assms
proof (induction bs arbitrary: acc)
  case Nil
  then show ?case by simp
next
  case (Cons b bs)
  have "10 * acc + (unat b - 48) \<le> dec_value acc (b # bs)"
    using dec_value_ge by simp
  then show ?case
    using Cons.IH by (auto simp: Let_def simp del: dec_value_simps(3))
qed

lemma parse_u64_digits:
  assumes "list_all is_ascii_digit (as_bytes s)" "s \<noteq> []" "dec_value 0 (as_bytes s) < 2 ^ 64"
  shows "parse_u64 s = Some (of_nat (dec_value 0 (as_bytes s)))"
proof -
  obtain x xs where x: "as_bytes s = x # xs"
    using assms(2) by (cases s) auto
  then have "x \<noteq> 43"
    using assms(1) by (auto simp: is_ascii_digit_def)
  then show ?thesis
    using assms x parse_digits_eq [of 0 "2 ^ 64 - 1" "x # xs"]
    by (simp add: parse_u64_def parse_uint_def del: parse_digits.simps)
qed

lemma parse_u64_Some_digits:
  assumes "list_all is_ascii_digit (as_bytes s)" "parse_u64 s = Some n"
  shows "unat n = dec_value 0 (as_bytes s)"
proof -
  obtain x xs where x: "as_bytes s = x # xs"
    using assms(2) by (cases s) (auto simp: parse_u64_def parse_uint_def)
  then have "x \<noteq> 43"
    using assms(1) by (auto simp: is_ascii_digit_def)
  then obtain v where "parse_digits (2 ^ 64 - 1) 0 (x # xs) = Some v" "n = of_nat v"
    using assms(2) x by (auto simp: parse_u64_def parse_uint_def simp del: parse_digits.simps)
  then have "v = dec_value 0 (x # xs)" "v < 2 ^ 64"
    using parse_digits_eq [of 0 "2 ^ 64 - 1" "x # xs"] by (auto split: if_splits)
  then show ?thesis
    using x \<open>n = of_nat v\<close> by simp
qed

section \<open>Formatting\<close>

definition hex_digit :: "nat \<Rightarrow> char" where
  [std_defs]: "hex_digit n = char_of (if n < 10 then 48 + n else 87 + n)"

text \<open>\<open>format!("{b:02x}")\<close>, and its repetition over a byte slice.\<close>

definition fmt_02x :: "u8 \<Rightarrow> string" where
  [std_defs]: "fmt_02x b = [hex_digit (unat b div 16), hex_digit (unat b mod 16)]"

definition fmt_hex :: "bytes \<Rightarrow> string" where
  [std_defs]: "fmt_hex bs = concat (map fmt_02x bs)"

text \<open>\<open>format!("{n:0w$}")\<close> for a number of at most \<open>w\<close> decimal digits.\<close>

fun pad_dec :: "nat \<Rightarrow> nat \<Rightarrow> string" where
  "pad_dec 0 n = []"
| "pad_dec (Suc w) n = pad_dec w (n div 10) @ [char_of (48 + n mod 10)]"

text \<open>\<open>{}\<close> on an unsigned number.\<close>

fun fmt_dec :: "nat \<Rightarrow> string" where
  "fmt_dec n = (if n < 10 then [char_of (48 + n)] else fmt_dec (n div 10) @ [char_of (48 + n mod 10)])"

declare fmt_dec.simps [simp del]

lemma length_fmt [simp]:
  "length (fmt_02x b) = 2" "length (fmt_hex bs) = 2 * length bs" "length (pad_dec w n) = w"
proof -
  show len: "length (fmt_02x b) = 2" for b by (simp add: fmt_02x_def)
  show "length (fmt_hex bs) = 2 * length bs"
    by (induction bs) (simp_all add: fmt_hex_def len)
  show "length (pad_dec w n) = w"
    by (induction w arbitrary: n) simp_all
qed

lemma pad_dec_Nil [simp]: "pad_dec w n = [] \<longleftrightarrow> w = 0"
  by (cases w) simp_all

lemma fmt_hex_simps [simp]:
  "fmt_hex [] = []" "fmt_hex (b # bs) = fmt_02x b @ fmt_hex bs"
  "fmt_hex bs = [] \<longleftrightarrow> bs = []"
proof -
  show "fmt_hex bs = [] \<longleftrightarrow> bs = []"
    by (cases bs) (simp_all add: fmt_hex_def fmt_02x_def)
qed (simp_all add: fmt_hex_def)

lemma chr_byte_char_of: "n < 256 \<Longrightarrow> chr_byte (char_of n) = of_nat n"
  by (simp add: chr_byte_def)

lemma chr_byte_hex_digit:
  "n < 16 \<Longrightarrow> chr_byte (hex_digit n) = of_nat (if n < 10 then 48 + n else 87 + n)"
  by (simp add: hex_digit_def chr_byte_char_of)

lemma nibble_cases:
  assumes "n < (16 :: nat)"
  obtains "n = 0" | "n = 1" | "n = 2" | "n = 3" | "n = 4" | "n = 5" | "n = 6" | "n = 7"
    | "n = 8" | "n = 9" | "n = 10" | "n = 11" | "n = 12" | "n = 13" | "n = 14" | "n = 15"
proof -
  have "n \<in> set [0..<16]"
    using assms by simp
  also have "[0..<16] = [0, 1, 2, 3, 4, 5, 6, 7, 8, 9, 10, 11, 12, 13, 14, 15 :: nat]"
    by (simp add: upt_rec)
  finally show ?thesis
    using that by simp argo
qed

lemma to_digit_16_hex_digit: "n < 16 \<Longrightarrow> to_digit_16 (chr_byte (hex_digit n)) = Some (of_nat n)"
  by (erule nibble_cases) (simp_all add: chr_byte_hex_digit to_digit_16_def)

lemma nibble_combine:
  assumes "h < 16" "l < 16"
  shows "push_bit 4 (of_nat h :: 'a::len word) OR of_nat l = of_nat (16 * h + l)"
  using assms by (elim nibble_cases) simp_all

lemma dec_value_pad_dec: "dec_value 0 (as_bytes (pad_dec w n)) = n mod 10 ^ w"
proof (induction w arbitrary: n)
  case 0
  then show ?case by simp
next
  case (Suc w)
  have "chr_byte (char_of (48 + n mod 10)) = of_nat (48 + n mod 10)"
    by (rule chr_byte_char_of) (use mod_less_divisor [of 10 n] in simp)
  moreover have "unat (of_nat (48 + n mod 10) :: u8) = 48 + n mod 10"
    using mod_less_divisor [of 10 n] by (simp add: unat_of_nat del: of_nat_add)
  ultimately show ?case
    using Suc.IH [of "n div 10"] by (simp add: mod_mult2_eq)
qed

lemma pad_dec_digits: "list_all is_ascii_digit (as_bytes (pad_dec w n))"
proof (induction w arbitrary: n)
  case 0
  then show ?case by simp
next
  case (Suc w)
  have n: "n mod 10 < 10" by simp
  have "is_ascii_digit (chr_byte (char_of (48 + n mod 10)))"
    using n by (simp add: chr_byte_char_of is_ascii_digit_def word_le_nat_alt unat_of_nat del: of_nat_add)
  then show ?case using Suc.IH by simp
qed

end
