(* ===== verification/Hash_Table.thy ===== *)
theory Hash_Table
  imports Prelude "HOL-Library.AList"
begin

text \<open>
  \<open>std::collections::HashMap\<close> and \<open>HashSet\<close>. A table is the list of its entries in the order in
  which iterating it visits them; Rust leaves that order open, so every theorem of the
  development is about all well-formed tables, hence all orders. The contracts of the two
  containers are the locales \<open>hash_map\<close> and \<open>hash_set\<close>; clients reason with their laws.
\<close>

section \<open>The contracts\<close>

locale hash_map =
  fixes wf :: "'m \<Rightarrow> bool"
    and look :: "'m \<Rightarrow> 'k \<Rightarrow> 'v option"
    and ins :: "'k \<Rightarrow> 'v \<Rightarrow> 'm \<Rightarrow> 'm"
    and del :: "'k \<Rightarrow> 'm \<Rightarrow> 'm"
  assumes look_ins: "look (ins k v m) = (look m)(k \<mapsto> v)"
    and look_del: "look (del k m) = (look m)(k := None)"
    and wf_ins: "wf m \<Longrightarrow> wf (ins k v m)"
    and wf_del: "wf m \<Longrightarrow> wf (del k m)"
begin

text \<open>\<open>entry(k).or_insert(v)\<close> and \<open>entry(k).and_modify(f).or_insert(v)\<close>.\<close>

lemma look_or_insert:
  "look (case look m k of None \<Rightarrow> ins k v m | Some _ \<Rightarrow> m) =
     (look m)(k \<mapsto> unwrap_or v (look m k))"
  by (cases "look m k") (auto simp: look_ins fun_eq_iff)

lemma look_upsert:
  "look (case look m k of None \<Rightarrow> ins k v m | Some w \<Rightarrow> ins k (f w) m) =
     (look m)(k \<mapsto> (case look m k of None \<Rightarrow> v | Some w \<Rightarrow> f w))"
  by (cases "look m k") (auto simp: look_ins)

lemma look_modify:
  "look (case look m k of None \<Rightarrow> m | Some w \<Rightarrow> ins k (f w) m) =
     (look m)(k := map_option f (look m k))"
  by (cases "look m k") (auto simp: look_ins fun_eq_iff)

lemma wf_entry:
  "wf m \<Longrightarrow> wf (case look m k of None \<Rightarrow> ins k v m | Some _ \<Rightarrow> m)"
  "wf m \<Longrightarrow> wf (case look m k of None \<Rightarrow> ins k v m | Some w \<Rightarrow> ins k (f w) m)"
  "wf m \<Longrightarrow> wf (case look m k of None \<Rightarrow> m | Some w \<Rightarrow> ins k (f w) m)"
  by (simp_all add: wf_ins split: option.split)

lemma dom_ins: "dom (look (ins k v m)) = insert k (dom (look m))"
  by (simp add: look_ins)

lemma dom_del: "dom (look (del k m)) = dom (look m) - {k}"
  by (auto simp: look_del)

end

text \<open>
  A table that can be walked: the entries visited are those looked up, each key once. Counting
  entries is then counting keys.
\<close>

locale iterable_map = hash_map wf look ins del
  for wf :: "('k \<times> 'v) list \<Rightarrow> bool" and look ins del +
  assumes wf_distinct: "wf m \<longleftrightarrow> distinct (map fst m)"
    and look_entries: "wf m \<Longrightarrow> look m k = Some v \<longleftrightarrow> (k, v) \<in> set m"
begin

lemma keys_dom: "wf m \<Longrightarrow> set (map fst m) = dom (look m)"
proof -
  assume "wf m"
  then have "k \<in> set (map fst m) \<longleftrightarrow> (\<exists>v. look m k = Some v)" for k
    by (force simp: look_entries)
  then show ?thesis by (auto simp: dom_def)
qed

lemma length_card: "wf m \<Longrightarrow> length m = card (dom (look m))"
  by (metis distinct_card keys_dom length_map wf_distinct)

lemma any_value:
  "wf m \<Longrightarrow> list_ex P (map snd m) \<longleftrightarrow> (\<exists>k v. look m k = Some v \<and> P v)"
  by (force simp: look_entries list_ex_iff)

lemma count_values:
  assumes "wf m"
  shows "length (filter P (map snd m)) = card {k. \<exists>v. look m k = Some v \<and> P v}"
proof -
  let ?f = "filter (\<lambda>e. P (snd e)) m"
  have dist: "distinct (map fst ?f)"
    using assms by (simp add: wf_distinct distinct_map_filter)
  have "set (map fst ?f) = {k. \<exists>v. look m k = Some v \<and> P v}"
    using look_entries [OF assms] by force
  then show ?thesis
    using distinct_card [OF dist] by (simp add: filter_map o_def)
qed

end

locale hash_set =
  fixes wf :: "'s \<Rightarrow> bool"
    and elems :: "'s \<Rightarrow> 'a set"
    and ins :: "'a \<Rightarrow> 's \<Rightarrow> bool \<times> 's"
    and del :: "'a \<Rightarrow> 's \<Rightarrow> bool \<times> 's"
  assumes elems_ins: "elems (snd (ins x s)) = insert x (elems s)"
    and fresh_ins: "fst (ins x s) \<longleftrightarrow> x \<notin> elems s"
    and elems_del: "elems (snd (del x s)) = elems s - {x}"
    and found_del: "fst (del x s) \<longleftrightarrow> x \<in> elems s"
    and wf_ins: "wf s \<Longrightarrow> wf (snd (ins x s))"
    and wf_del: "wf s \<Longrightarrow> wf (snd (del x s))"
begin

lemma ins_again: "fst (ins x (snd (ins x s))) = False"
  by (simp add: fresh_ins elems_ins)

lemma del_again: "fst (del x (snd (del x s))) = False"
  by (simp add: found_del elems_del)

lemma ins_then_del: "fst (del x (snd (ins x s)))"
  by (simp add: found_del elems_ins)

end

section \<open>The tables of the model\<close>

type_synonym ('k, 'v) hmap = "('k \<times> 'v) list"
type_synonym 'a hset = "'a list"

definition hm_wf :: "('k, 'v) hmap \<Rightarrow> bool" where
  "hm_wf m \<longleftrightarrow> distinct (map fst m)"

abbreviation hm_get :: "('k, 'v) hmap \<Rightarrow> 'k \<Rightarrow> 'v option" where
  "hm_get \<equiv> map_of"

definition hm_insert :: "'k \<Rightarrow> 'v \<Rightarrow> ('k, 'v) hmap \<Rightarrow> ('k, 'v) hmap" where
  [std_defs]: "hm_insert = AList.update"

definition hm_remove :: "'k \<Rightarrow> ('k, 'v) hmap \<Rightarrow> ('k, 'v) hmap" where
  [std_defs]: "hm_remove k m = filter (\<lambda>e. fst e \<noteq> k) m"

definition hm_or_insert :: "'k \<Rightarrow> 'v \<Rightarrow> ('k, 'v) hmap \<Rightarrow> ('k, 'v) hmap" where
  [std_defs]: "hm_or_insert k v m =
     (case hm_get m k of None \<Rightarrow> hm_insert k v m | Some _ \<Rightarrow> m)"

definition hm_upsert :: "'k \<Rightarrow> ('v \<Rightarrow> 'v) \<Rightarrow> 'v \<Rightarrow> ('k, 'v) hmap \<Rightarrow> ('k, 'v) hmap" where
  [std_defs]: "hm_upsert k f v m =
     (case hm_get m k of None \<Rightarrow> hm_insert k v m | Some w \<Rightarrow> hm_insert k (f w) m)"

definition hm_modify :: "'k \<Rightarrow> ('v \<Rightarrow> 'v) \<Rightarrow> ('k, 'v) hmap \<Rightarrow> ('k, 'v) hmap" where
  [std_defs]: "hm_modify k f m =
     (case hm_get m k of None \<Rightarrow> m | Some w \<Rightarrow> hm_insert k (f w) m)"

definition hs_insert :: "'a \<Rightarrow> 'a hset \<Rightarrow> bool \<times> 'a hset" where
  [std_defs]: "hs_insert x s = (if x \<in> set s then (False, s) else (True, s @ [x]))"

definition hs_remove :: "'a \<Rightarrow> 'a hset \<Rightarrow> bool \<times> 'a hset" where
  [std_defs]: "hs_remove x s = (x \<in> set s, filter (\<lambda>y. y \<noteq> x) s)"

lemma hm_wf_insert: "hm_wf m \<Longrightarrow> hm_wf (hm_insert k v m)"
  by (simp add: hm_wf_def hm_insert_def distinct_update)

lemma hm_wf_remove: "hm_wf m \<Longrightarrow> hm_wf (hm_remove k m)"
  by (simp add: hm_wf_def hm_remove_def distinct_map_filter)

lemma map_of_hm_remove: "map_of (hm_remove k m) = (map_of m)(k := None)"
  by (induction m) (auto simp: hm_remove_def fun_eq_iff)

interpretation hm: iterable_map hm_wf map_of hm_insert hm_remove
proof
  fix k :: 'a and v :: 'b and m
  show "map_of (hm_insert k v m) = (map_of m)(k \<mapsto> v)"
    by (simp add: hm_insert_def update_conv')
  show "hm_wf m \<longleftrightarrow> distinct (map fst m)"
    by (simp add: hm_wf_def)
  show "hm_wf m \<Longrightarrow> (map_of m k = Some v) = ((k, v) \<in> set m)"
    by (simp add: hm_wf_def)
qed (simp_all add: map_of_hm_remove hm_wf_insert hm_wf_remove)

interpretation hs: hash_set distinct set hs_insert hs_remove
  by unfold_locales (auto simp: hs_insert_def hs_remove_def)

lemma hm_get_simps [simp, table_simps]:
  "map_of (hm_insert k v m) = (map_of m)(k \<mapsto> v)"
  "map_of (hm_remove k m) = (map_of m)(k := None)"
  "map_of (hm_or_insert k v m) = (map_of m)(k \<mapsto> unwrap_or v (map_of m k))"
  "map_of (hm_upsert k f v m) =
     (map_of m)(k \<mapsto> (case map_of m k of None \<Rightarrow> v | Some w \<Rightarrow> f w))"
  "map_of (hm_modify k f m) = (map_of m)(k := map_option f (map_of m k))"
  by (simp_all only: hm.look_ins hm.look_del hm_or_insert_def hm.look_or_insert hm_upsert_def
      hm.look_upsert hm_modify_def hm.look_modify)

lemma hm_wf_simps [simp, table_simps]:
  "hm_wf []"
  "hm_wf m \<Longrightarrow> hm_wf (hm_insert k v m)"
  "hm_wf m \<Longrightarrow> hm_wf (hm_remove k m)"
  "hm_wf m \<Longrightarrow> hm_wf (hm_or_insert k v m)"
  "hm_wf m \<Longrightarrow> hm_wf (hm_upsert k f v m)"
  "hm_wf m \<Longrightarrow> hm_wf (hm_modify k f m)"
  by (simp_all add: hm.wf_ins hm.wf_del hm_or_insert_def hm_upsert_def hm_modify_def hm.wf_entry)
    (simp add: hm_wf_def)

lemma hs_simps [simp, table_simps]:
  "set (snd (hs_insert x s)) = insert x (set s)"
  "fst (hs_insert x s) \<longleftrightarrow> x \<notin> set s"
  "set (snd (hs_remove x s)) = set s - {x}"
  "fst (hs_remove x s) \<longleftrightarrow> x \<in> set s"
  "distinct s \<Longrightarrow> distinct (snd (hs_insert x s))"
  "distinct s \<Longrightarrow> distinct (snd (hs_remove x s))"
  by (simp_all add: hs.elems_ins hs.fresh_ins hs.elems_del hs.found_del hs.wf_ins hs.wf_del)

lemma hs_insert_nonempty [simp]: "snd (hs_insert x s) \<noteq> []"
  by (auto simp: hs_insert_def)

lemmas hm_keys = hm.keys_dom
  and hm_any = hm.any_value
  and hm_count = hm.count_values
  and hm_length = hm.length_card

end
