(* ===== verification/Retention.thy ===== *)
theory Retention
  imports Rust_Std Hash_Table "HOL-Library.Multiset"
begin

text \<open>
  \<open>rust/src/retention.rs\<close>: the retention window, the parser of location-fix keys and the release
  policy. The lemmas give the window arithmetic without wrap-around, the round trip of the key
  format, and the exact set of entries each rule releases.
\<close>

section \<open>The retention window\<close>

definition MS_PER_HOUR :: u64 where
  "MS_PER_HOUR = 3600000"

definition KEY_SEP :: u8 where
  "KEY_SEP = 47"

definition SEQ_WIDTH :: nat where
  "SEQ_WIDTH = 20"

definition CTL_TAG :: string where
  "CTL_TAG = ''ctl''"

record retention_policy =
  retention_ms :: u64

definition from_hours :: "u64 \<Rightarrow> retention_policy" where
  "from_hours hours = \<lparr>retention_ms = sat_mul hours MS_PER_HOUR\<rparr>"

definition cutoff :: "retention_policy \<Rightarrow> u64 \<Rightarrow> u64" where
  "cutoff p now = sat_sub now (retention_ms p)"

definition is_expired :: "retention_policy \<Rightarrow> u64 \<Rightarrow> u64 \<Rightarrow> bool" where
  "is_expired p entry_ts now \<longleftrightarrow> entry_ts < cutoff p now"

section \<open>Location-fix keys\<close>

record fix_key =
  author :: bytes
  seq :: u64

text \<open>The loop of \<open>hex_decode\<close>, two bytes per round; the length was checked to be even before.\<close>

fun hex_pairs :: "bytes \<Rightarrow> bytes option" where
  "hex_pairs (h # l # rest) =
     (case to_digit_16 h of None \<Rightarrow> None | Some hi \<Rightarrow>
      (case to_digit_16 l of None \<Rightarrow> None | Some lo \<Rightarrow>
       map_option (\<lambda>out. ucast (push_bit 4 hi OR lo) # out) (hex_pairs rest)))"
| "hex_pairs _ = Some []"

definition hex_decode :: "string \<Rightarrow> bytes option" where
  "hex_decode s = (if length s mod 2 \<noteq> 0 then None else hex_pairs (as_bytes s))"

definition decode_fix_key :: "bytes \<Rightarrow> fix_key option" where
  "decode_fix_key key = do {
     pos \<leftarrow> position (\<lambda>b. b = KEY_SEP) key;
     author_hex \<leftarrow> str_from_utf8 (take pos key);
     let seq_bytes = drop (pos + 1) key;
     (if author_hex = [] \<or> length seq_bytes \<noteq> SEQ_WIDTH \<or> \<not> list_all is_ascii_digit seq_bytes
      then None
      else do {
        a \<leftarrow> hex_decode author_hex;
        (if a = [] then None
         else do {
           seq_str \<leftarrow> str_from_utf8 seq_bytes;
           n \<leftarrow> parse_u64 seq_str;
           Some \<lparr>author = a, seq = n\<rparr>
         })
      })
   }"

section \<open>The release policy\<close>

record retention_entry =
  key :: bytes
  written_ms :: u64

datatype release_reason = Superseded | Expired | SupersededAndExpired

fun is_superseded :: "release_reason \<Rightarrow> bool" where
  "is_superseded Superseded = True"
| "is_superseded SupersededAndExpired = True"
| "is_superseded Expired = False"

fun reason_is_expired :: "release_reason \<Rightarrow> bool" where
  "reason_is_expired Expired = True"
| "reason_is_expired SupersededAndExpired = True"
| "reason_is_expired Superseded = False"

text \<open>The loop that fills \<open>latest_by_author\<close>, over the keys that parsed.\<close>

fun latest_by_author :: "fix_key option list \<Rightarrow> (bytes, u64) hmap \<Rightarrow> (bytes, u64) hmap" where
  "latest_by_author [] m = m"
| "latest_by_author (None # ks) m = latest_by_author ks m"
| "latest_by_author (Some k # ks) m =
     latest_by_author ks (hm_upsert (author k) (\<lambda>latest. max latest (seq k)) (seq k) m)"

definition decide :: "(bytes, u64) hmap \<Rightarrow> retention_policy \<Rightarrow> u64 \<Rightarrow>
    retention_entry \<times> fix_key option \<Rightarrow> release_reason option" where
  "decide latest policy now = (\<lambda>(entry, k).
     let superseded = (case k of None \<Rightarrow> False | Some fk \<Rightarrow>
           (case hm_get latest (author fk) of None \<Rightarrow> False | Some l \<Rightarrow> seq fk < l));
         expired = is_expired policy (written_ms entry) now
     in (if superseded \<and> expired then Some SupersededAndExpired
         else if superseded then Some Superseded
         else if expired then Some Expired
         else None))"

definition release_decisions ::
    "retention_entry list \<Rightarrow> retention_policy \<Rightarrow> u64 \<Rightarrow> release_reason option list" where
  "release_decisions entries policy now =
     (let parsed = map (\<lambda>e. decode_fix_key (key e)) entries;
          latest = latest_by_author parsed []
      in map (decide latest policy now) (zip entries parsed))"

section \<open>Window arithmetic\<close>

lemma unat_from_hours:
  "unat (retention_ms (from_hours h)) = min (2 ^ 64 - 1) (unat h * 3600000)"
  by (simp add: from_hours_def unat_sat_mul MS_PER_HOUR_def)

lemma unat_cutoff: "unat (cutoff p now) = unat now - unat (retention_ms p)"
  by (simp add: cutoff_def unat_sat_sub)

lemma is_expired_iff:
  "is_expired p ts now \<longleftrightarrow> unat ts + unat (retention_ms p) < unat now"
  by (auto simp: is_expired_def u64_less_iff unat_cutoff)

section \<open>The key format\<close>

text \<open>
  The key the app writes for a fix, \<open>format!("{}/{seq:0width$}", hex_encode(author))\<close>, as the
  module's tests spell it, and the control key \<open>ctl/hex(author)\<close>.
\<close>

definition encode_fix_key :: "bytes \<Rightarrow> u64 \<Rightarrow> bytes" where
  "encode_fix_key a n = as_bytes (fmt_hex a @ ''/'' @ pad_dec SEQ_WIDTH (unat n))"

definition encode_ctl_key :: "bytes \<Rightarrow> bytes" where
  "encode_ctl_key a = as_bytes (CTL_TAG @ ''/'' @ fmt_hex a)"

lemma hex_pairs_fmt_hex: "hex_pairs (as_bytes (fmt_hex a)) = Some a"
proof (induction a)
  case Nil
  then show ?case by simp
next
  case (Cons b a)
  have lt: "unat b div 16 < 16" "unat b mod 16 < 16"
    using unat_u8_bound [of b] by auto
  have "(ucast (push_bit 4 (of_nat (unat b div 16) :: u32) OR of_nat (unat b mod 16)) :: u8)
      = ucast (of_nat (unat b) :: u32)"
    using nibble_combine [OF lt, where 'a = 32] by (simp only:) (simp del: of_nat_add of_nat_mult)
  also have "\<dots> = b"
    by (simp add: ucast_up_ucast_id is_up)
  finally show ?case
    using Cons.IH lt by (simp add: fmt_02x_def to_digit_16_hex_digit)
qed

lemma hex_decode_fmt_hex: "hex_decode (fmt_hex a) = Some a"
  by (simp add: hex_decode_def hex_pairs_fmt_hex)

lemma hex_digit_ascii:
  assumes "n < 16"
  shows "is_ascii_hexdigit (chr_byte (hex_digit n))" "chr_byte (hex_digit n) \<noteq> KEY_SEP"
    "chr_byte (hex_digit n) < 0x80"
  using assms
  by (auto elim!: nibble_cases simp: chr_byte_hex_digit is_ascii_hexdigit_def KEY_SEP_def)

lemma fmt_hex_bytes:
  "x \<in> set (as_bytes (fmt_hex a)) \<Longrightarrow> is_ascii_hexdigit x \<and> x \<noteq> KEY_SEP \<and> x < 0x80"
proof (induction a)
  case Nil
  then show ?case by simp
next
  case (Cons b a)
  have "unat b div 16 < 16" "unat b mod 16 < 16"
    using unat_u8_bound [of b] by auto
  then show ?case
    using Cons hex_digit_ascii by (auto simp: fmt_02x_def)
qed

lemma ascii_digit_lt: "is_ascii_digit x \<Longrightarrow> x < 0x80"
  by (auto simp: is_ascii_digit_def word_le_nat_alt word_less_nat_alt)

lemma str_from_utf8_digits:
  "list_all is_ascii_digit bs \<Longrightarrow> str_from_utf8 bs = Some (map byte_chr bs)"
  by (rule str_from_utf8_ascii) (auto simp: list_all_iff ascii_digit_lt)

text \<open>Letter case of the author segment is all the parser forgets.\<close>

lemma ascii_lower_ascii: "ascii_lower b < 0x80 \<longleftrightarrow> b < 0x80"
  by (auto simp: ascii_lower_def word_le_nat_alt word_less_nat_alt unat_word_ariths)

lemma ascii_lower_eq:
  assumes "x < 65 \<or> 90 < x" "x < 97 \<or> 122 < x"
  shows "ascii_lower b = x \<longleftrightarrow> b = x"
  using assms
  by (auto simp: ascii_lower_def word_le_nat_alt word_less_nat_alt unat_word_ariths word_unat_eq_iff)

lemma to_digit_16_lower: "to_digit_16 (ascii_lower b) = to_digit_16 b"
proof (cases "65 \<le> b \<and> b \<le> 70")
  case True
  then have b: "65 \<le> unat b" "unat b \<le> 70" and l: "unat (b + 32) = unat b + 32"
    by (auto simp: word_le_nat_alt unat_word_ariths)
  have u: "unat (ucast x :: u32) = unat x" for x :: u8
    using unat_u8_bound [of x] by (simp add: unsigned_ucast_eq take_bit_nat_eq_self)
  have "(ucast (b + 32) :: u32) - 87 = ucast b - 55"
    using b by (simp add: word_unat_eq_iff unat_sub_if' u l)
  then show ?thesis
    using b l True by (auto simp: to_digit_16_def ascii_lower_def word_le_nat_alt)
next
  case False
  then show ?thesis
    by (auto simp: to_digit_16_def ascii_lower_def word_le_nat_alt unat_word_ariths)
qed

lemma hex_pairs_lower: "hex_pairs (map ascii_lower bs) = hex_pairs bs"
  by (induction bs rule: hex_pairs.induct) (auto simp: to_digit_16_lower split: option.split)

lemma map_lower_digits:
  assumes "map ascii_lower bs = ds" "list_all is_ascii_digit ds"
  shows "bs = ds"
  using assms
proof (induction bs arbitrary: ds)
  case Nil
  then show ?case by simp
next
  case (Cons b bs)
  have "b = ascii_lower b"
    using Cons.prems ascii_lower_eq [of "ascii_lower b" b]
    by (auto simp: is_ascii_digit_def word_le_nat_alt word_less_nat_alt)
  then show ?case using Cons by auto
qed

lemma decode_fix_key_canonical:
  assumes "map ascii_lower k = encode_fix_key a n" "a \<noteq> []"
  shows "decode_fix_key k = Some \<lparr>author = a, seq = n\<rparr>"
proof -
  let ?d = "as_bytes (pad_dec SEQ_WIDTH (unat n))"
  from assms(1) have "map ascii_lower k = as_bytes (fmt_hex a) @ KEY_SEP # ?d"
    by (simp add: encode_fix_key_def KEY_SEP_def chr_byte_def)
  then obtain h c d where k: "k = h @ c # d" and h: "map ascii_lower h = as_bytes (fmt_hex a)"
    and low: "ascii_lower c = KEY_SEP" "map ascii_lower d = ?d"
    by (auto simp: map_eq_append_conv map_eq_Cons_conv)
  have d: "d = ?d"
    by (rule map_lower_digits [OF low(2) pad_dec_digits])
  have c: "c = KEY_SEP"
    using low(1) ascii_lower_eq [of KEY_SEP c] by (simp add: KEY_SEP_def)
  have hx: "x \<noteq> KEY_SEP \<and> x < 0x80" if "x \<in> set h" for x
  proof -
    have "ascii_lower x \<in> set (as_bytes (fmt_hex a))"
      using that h by (metis image_eqI list.set_map)
    then have "ascii_lower x \<noteq> KEY_SEP" "ascii_lower x < 0x80"
      using fmt_hex_bytes by auto
    then show ?thesis
      using ascii_lower_ascii ascii_lower_eq [of KEY_SEP x] by (auto simp: KEY_SEP_def)
  qed
  have len: "length h = 2 * length a"
    using arg_cong [OF h, of length] by simp
  have pos: "position (\<lambda>b. b = KEY_SEP) k = Some (length h)"
    unfolding k c using hx by (intro position_append_hit) auto
  have "hex_pairs h = Some a"
    using hex_pairs_lower [of h] by (simp add: h hex_pairs_fmt_hex)
  then have hex: "str_from_utf8 h = Some (map byte_chr h)" "hex_decode (map byte_chr h) = Some a"
    using hx len by (auto simp: str_from_utf8_ascii hex_decode_def)
  have dig: "list_all is_ascii_digit ?d" "length ?d = SEQ_WIDTH"
    by (simp_all add: pad_dec_digits)
  have "unat n < 10 ^ SEQ_WIDTH"
    using unat_u64_bound [of n] by (simp add: SEQ_WIDTH_def)
  then have val: "dec_value 0 ?d = unat n"
    by (simp add: dec_value_pad_dec)
  have "parse_u64 (pad_dec SEQ_WIDTH (unat n)) = Some (of_nat (dec_value 0 ?d))"
    using dig val unat_u64_bound [of n] by (intro parse_u64_digits) (auto simp: SEQ_WIDTH_def)
  then have num: "parse_u64 (map byte_chr ?d) = Some n"
    by (simp add: val)
  have "h \<noteq> []" using len assms(2) by auto
  then show ?thesis
    using assms(2) dig num pos hex
    by (simp add: decode_fix_key_def k c d str_from_utf8_digits)
qed

lemma to_digit_16_Some:
  assumes "to_digit_16 b = Some v"
  shows "unat v < 16 \<and> chr_byte (hex_digit (unat v)) = ascii_lower b"
proof -
  have "unat (ucast b :: u32) = unat b"
    using unat_u8_bound [of b] by (simp add: unsigned_ucast_eq take_bit_nat_eq_self)
  then have v: "unat v = (if unat b \<le> 57 then unat b - 48 else if 97 \<le> unat b then unat b - 87
      else unat b - 55)"
    and r: "48 \<le> unat b \<and> unat b \<le> 57 \<or> 97 \<le> unat b \<and> unat b \<le> 102 \<or> 65 \<le> unat b \<and> unat b \<le> 70"
    using assms by (auto simp: to_digit_16_def word_le_nat_alt unat_sub_if' split: if_splits)
  have "unat (ascii_lower b) = (if 65 \<le> unat b \<and> unat b \<le> 90 then unat b + 32 else unat b)"
    using r by (auto simp: ascii_lower_def word_le_nat_alt unat_word_ariths)
  moreover have lt: "unat v < 16" using v r by auto
  moreover have "unat (chr_byte (hex_digit (unat v))) =
      (if unat v < 10 then 48 + unat v else 87 + unat v)"
    using lt chr_byte_hex_digit [OF lt]
    by (simp only:) (simp add: unat_of_nat del: of_nat_add)
  ultimately have "unat (chr_byte (hex_digit (unat v))) = unat (ascii_lower b)"
    using v r by (auto simp del: unat_chr_byte split: if_splits)
  with lt show ?thesis
    by (simp add: word_unat_eq_iff del: unat_chr_byte)
qed

lemma hex_pairs_Some:
  "hex_pairs bs = Some a \<Longrightarrow> even (length bs) \<Longrightarrow>
     as_bytes (fmt_hex a) = map ascii_lower bs \<and> length bs = 2 * length a"
proof (induction bs arbitrary: a rule: hex_pairs.induct)
  case (1 h l rest)
  then obtain hi lo out where d: "to_digit_16 h = Some hi" "to_digit_16 l = Some lo"
    and out: "hex_pairs rest = Some out" and a: "a = ucast (push_bit 4 hi OR lo) # out"
    by (auto split: option.splits)
  note hi = to_digit_16_Some [OF d(1)] and lo = to_digit_16_Some [OF d(2)]
  have "push_bit 4 hi OR lo = of_nat (16 * unat hi + unat lo)"
    using nibble_combine [of "unat hi" "unat lo", where 'a = 32] hi lo by simp
  moreover have "16 * unat hi + unat lo < 256"
    using hi lo by linarith
  ultimately have "unat (ucast (push_bit 4 hi OR lo) :: u8) = 16 * unat hi + unat lo"
    by (simp add: unsigned_of_nat take_bit_nat_eq_self del: of_nat_add of_nat_mult)
  then have "as_bytes (fmt_02x (ucast (push_bit 4 hi OR lo))) = [ascii_lower h, ascii_lower l]"
    using hi lo by (simp add: fmt_02x_def)
  then show ?case
    using 1(1) [OF d out] 1(3) a by simp
qed auto

lemma pad_dec_dec_value:
  assumes "list_all is_ascii_digit bs"
  shows "as_bytes (pad_dec (length bs) (dec_value 0 bs)) = bs"
  using assms
proof (induction bs rule: rev_induct)
  case Nil
  then show ?case by simp
next
  case (snoc b bs)
  let ?n = "dec_value 0 (bs @ [b])"
  have b: "48 \<le> unat b" "unat b \<le> 57"
    using snoc.prems by (auto simp: is_ascii_digit_def word_le_nat_alt)
  define v where "v = unat b - 48"
  then have "?n = 10 * dec_value 0 bs + v" "v < 10"
    using b by auto
  then have "?n div 10 = dec_value 0 bs" "?n mod 10 = unat b - 48"
    by (simp_all add: v_def)
  then show ?case
    using snoc b by (simp add: chr_byte_char_of del: of_nat_add of_nat_diff dec_value_simps)
qed

lemma ascii_lower_hex_digit: "n < 16 \<Longrightarrow> ascii_lower (chr_byte (hex_digit n)) = chr_byte (hex_digit n)"
  by (erule nibble_cases) (simp_all add: chr_byte_hex_digit ascii_lower_def)

lemma ascii_lower_fmt_hex [simp]: "map ascii_lower (as_bytes (fmt_hex a)) = as_bytes (fmt_hex a)"
proof (induction a)
  case Nil
  then show ?case by simp
next
  case (Cons b a)
  have "unat b div 16 < 16" "unat b mod 16 < 16"
    using unat_u8_bound [of b] by auto
  then show ?case
    using Cons by (simp add: fmt_02x_def ascii_lower_hex_digit)
qed

lemma ascii_lower_digit [simp]: "is_ascii_digit b \<Longrightarrow> ascii_lower b = b"
  by (auto simp: is_ascii_digit_def ascii_lower_def word_le_nat_alt)

lemma decode_fix_key_Some:
  assumes "decode_fix_key k = Some f"
  obtains h d where "k = as_bytes h @ KEY_SEP # d" "h \<noteq> []" "hex_decode h = Some (author f)"
    "author f \<noteq> []" "length d = SEQ_WIDTH" "list_all is_ascii_digit d"
    "parse_u64 (map byte_chr d) = Some (seq f)"
proof -
  from assms obtain p h s a n where p: "position (\<lambda>b. b = KEY_SEP) k = Some p"
    and h: "str_from_utf8 (take p k) = Some h" "h \<noteq> []" "hex_decode h = Some a" "a \<noteq> []"
    and d: "length (drop (p + 1) k) = SEQ_WIDTH" "list_all is_ascii_digit (drop (p + 1) k)"
    and s: "str_from_utf8 (drop (p + 1) k) = Some s" "parse_u64 s = Some n"
    and f: "f = \<lparr>author = a, seq = n\<rparr>"
    by (auto simp: decode_fix_key_def Let_def split: Option.bind_splits if_splits)
  have "k = take p k @ KEY_SEP # drop (p + 1) k"
    using p id_take_nth_drop [of p k] by (simp add: position_Some)
  then have "k = as_bytes h @ KEY_SEP # drop (p + 1) k"
    using str_from_utf8_Some [OF h(1)] by simp
  moreover have "map byte_chr (drop (p + 1) k) = s"
    using str_from_utf8_Some [OF s(1)] by (metis as_bytes_inject as_bytes_simps(6))
  ultimately show ?thesis
    using that [of h "drop (p + 1) k"] h d s f by simp
qed

lemma encode_decode_fix_key:
  assumes "decode_fix_key k = Some f"
  shows "map ascii_lower k = encode_fix_key (author f) (seq f) \<and> author f \<noteq> []"
proof -
  from assms obtain h d where k: "k = as_bytes h @ KEY_SEP # d" and h: "hex_decode h = Some (author f)"
    and ne: "author f \<noteq> []" and d: "length d = SEQ_WIDTH" "list_all is_ascii_digit d"
    and n: "parse_u64 (map byte_chr d) = Some (seq f)"
    by (rule decode_fix_key_Some)
  have "as_bytes (fmt_hex (author f)) = map ascii_lower (as_bytes h)"
    using h hex_pairs_Some [of "as_bytes h" "author f"]
    by (auto simp: hex_decode_def even_iff_mod_2_eq_zero split: if_splits)
  moreover have "as_bytes (pad_dec SEQ_WIDTH (unat (seq f))) = d"
    using parse_u64_Some_digits [of "map byte_chr d" "seq f"] n d pad_dec_dec_value [of d] by simp
  moreover have "map ascii_lower d = d"
    using d(2) by (auto simp: list_all_iff intro: map_idI)
  ultimately show ?thesis
    using ne by (simp add: k encode_fix_key_def KEY_SEP_def chr_byte_def ascii_lower_def)
qed

lemma decode_encode_fix_key [simp]:
  assumes "a \<noteq> []"
  shows "decode_fix_key (encode_fix_key a n) = Some \<lparr>author = a, seq = n\<rparr>"
proof (rule decode_fix_key_canonical [OF _ assms])
  have "map ascii_lower (as_bytes (pad_dec SEQ_WIDTH (unat n))) = as_bytes (pad_dec SEQ_WIDTH (unat n))"
    using pad_dec_digits [of SEQ_WIDTH "unat n"] by (auto simp: list_all_iff intro: map_idI)
  then show "map ascii_lower (encode_fix_key a n) = encode_fix_key a n"
    by (simp add: encode_fix_key_def ascii_lower_def chr_byte_def)
qed

text \<open>No key whose first segment is \<open>ctl\<close> is a fix key: three characters are not pairs.\<close>

lemma decode_ctl_key: "decode_fix_key (as_bytes (CTL_TAG @ ''/'' @ rest)) = None"
proof -
  have "position (\<lambda>b. b = KEY_SEP) (as_bytes (CTL_TAG @ ''/'' @ rest)) = Some 3"
    by (simp add: CTL_TAG_def KEY_SEP_def chr_byte_def)
  then show ?thesis
    by (auto simp: decode_fix_key_def CTL_TAG_def hex_decode_def str_from_utf8_def Let_def
        split: Option.bind_splits)
qed

section \<open>What is released\<close>

text \<open>
  The policy stated over the set of entries: a fix is superseded when some entry of the same
  author has a higher sequence number, and anything older than the window is expired.
\<close>

definition superseded_in :: "retention_entry set \<Rightarrow> retention_entry \<Rightarrow> bool" where
  "superseded_in E e \<longleftrightarrow> (\<exists>f. decode_fix_key (key e) = Some f \<and>
     (\<exists>e' \<in> E. \<exists>f'. decode_fix_key (key e') = Some f' \<and> author f' = author f \<and> seq f < seq f'))"

definition release_spec ::
    "retention_entry set \<Rightarrow> retention_policy \<Rightarrow> u64 \<Rightarrow> retention_entry \<Rightarrow> release_reason option" where
  "release_spec E p now e =
     (if superseded_in E e \<and> is_expired p (written_ms e) now then Some SupersededAndExpired
      else if superseded_in E e then Some Superseded
      else if is_expired p (written_ms e) now then Some Expired
      else None)"

lemma latest_by_author_less:
  "(case map_of (latest_by_author ks m) a of None \<Rightarrow> False | Some l \<Rightarrow> s < l) \<longleftrightarrow>
   (case map_of m a of None \<Rightarrow> False | Some l \<Rightarrow> s < l) \<or>
   (\<exists>k. Some k \<in> set ks \<and> author k = a \<and> s < seq k)"
  by (induction ks m rule: latest_by_author.induct)
    (auto simp: less_max_iff_disj split: option.splits if_splits)

lemma release_decisions_spec:
  "release_decisions es p now = map (release_spec (set es) p now) es"
proof -
  let ?ks = "map (\<lambda>e. decode_fix_key (key e)) es"
  have ks: "Some k \<in> (\<lambda>e. decode_fix_key (key e)) ` set es \<longleftrightarrow> (\<exists>e \<in> set es. decode_fix_key (key e) = Some k)" for k
    by (auto simp: image_iff) metis
  have "decide (latest_by_author ?ks []) p now (e, decode_fix_key (key e)) = release_spec (set es) p now e" for e
  proof -
    have "(case decode_fix_key (key e) of None \<Rightarrow> False | Some f \<Rightarrow>
        (case map_of (latest_by_author ?ks []) (author f) of None \<Rightarrow> False | Some l \<Rightarrow> seq f < l))
      \<longleftrightarrow> superseded_in (set es) e"
    proof (cases "decode_fix_key (key e)")
      case None
      then show ?thesis by (simp add: superseded_in_def)
    next
      case (Some f)
      then show ?thesis
        by (simp add: superseded_in_def latest_by_author_less ks) blast
    qed
    then show ?thesis
      by (simp add: decide_def release_spec_def)
  qed
  moreover have "zip es ?ks = map (\<lambda>e. (e, decode_fix_key (key e))) es"
    by (simp add: zip_map2 zip_same_conv_map)
  ultimately show ?thesis
    by (simp add: release_decisions_def Let_def)
qed

lemma length_release_decisions [simp]: "length (release_decisions es p now) = length es"
  by (simp add: release_decisions_spec)

lemma release_decisions_nth:
  "i < length es \<Longrightarrow> release_decisions es p now ! i = release_spec (set es) p now (es ! i)"
  by (simp add: release_decisions_spec)

lemma release_spec_None:
  "release_spec E p now e = None \<longleftrightarrow> \<not> superseded_in E e \<and> \<not> is_expired p (written_ms e) now"
  by (simp add: release_spec_def)

lemma release_spec_reasons:
  "(\<exists>r. release_spec E p now e = Some r \<and> is_superseded r) \<longleftrightarrow> superseded_in E e"
  "(\<exists>r. release_spec E p now e = Some r \<and> reason_is_expired r) \<longleftrightarrow> is_expired p (written_ms e) now"
  by (simp_all add: release_spec_def)

section \<open>Properties\<close>

text \<open>
  C3. \<open>release_decisions\<close> computes exactly the two documented rules, independently of each other:
  an entry is reported as superseded just when some entry of the namespace holds a higher sequence
  number of the same key-encoded author, as expired just when it is strictly older than the
  window, and every other entry is kept.
\<close>

theorem release_decisions_exact:
  assumes "i < length es"
  shows "((\<exists>r. release_decisions es p now ! i = Some r \<and> is_superseded r) \<longleftrightarrow>
      (\<exists>f. decode_fix_key (key (es ! i)) = Some f \<and> (\<exists>j < length es. \<exists>g.
        decode_fix_key (key (es ! j)) = Some g \<and> author g = author f \<and> seq f < seq g)))
    \<and> ((\<exists>r. release_decisions es p now ! i = Some r \<and> reason_is_expired r) \<longleftrightarrow>
      unat (written_ms (es ! i)) + unat (retention_ms p) < unat now)
    \<and> (release_decisions es p now ! i = None \<longleftrightarrow>
      \<not> (\<exists>r. release_decisions es p now ! i = Some r \<and> (is_superseded r \<or> reason_is_expired r)))"
proof -
  have "superseded_in (set es) (es ! i) \<longleftrightarrow> (\<exists>f. decode_fix_key (key (es ! i)) = Some f \<and>
      (\<exists>j < length es. \<exists>g. decode_fix_key (key (es ! j)) = Some g \<and> author g = author f \<and> seq f < seq g))"
    unfolding superseded_in_def Bex_def in_set_conv_nth by blast
  moreover have "release_spec (set es) p now (es ! i) = None \<longleftrightarrow> \<not> (\<exists>r.
      release_spec (set es) p now (es ! i) = Some r \<and> (is_superseded r \<or> reason_is_expired r))"
    by (simp add: release_spec_def)
  ultimately show ?thesis
    using assms by (simp only: release_decisions_nth release_spec_reasons is_expired_iff)
qed

text \<open>
  The collapse guarantee: among the entries a sweep keeps, one author never has two different
  sequence numbers, however many fixes were written.
\<close>

lemma one_fix_per_author_kept:
  assumes "i < length es" "j < length es"
    and "release_decisions es p now ! i = None" "release_decisions es p now ! j = None"
    and "decode_fix_key (key (es ! i)) = Some f" "decode_fix_key (key (es ! j)) = Some g"
    and "author f = author g"
  shows "seq f = seq g"
proof -
  have "\<not> seq f < seq g" "\<not> seq g < seq f"
    using assms nth_mem [of i es] nth_mem [of j es]
    by (auto simp: release_decisions_nth release_spec_None superseded_in_def)
  then show ?thesis by simp
qed

text \<open>
  The product guarantee: the newest fix of an author, while inside the window, is never
  released, so a reader can always catch up to the current dot.
\<close>

lemma latest_fix_kept:
  assumes "i < length es" "decode_fix_key (key (es ! i)) = Some f"
    and "\<forall>e \<in> set es. \<forall>g. decode_fix_key (key e) = Some g \<longrightarrow> author g = author f \<longrightarrow> seq g \<le> seq f"
    and "unat now \<le> unat (written_ms (es ! i)) + unat (retention_ms p)"
  shows "release_decisions es p now ! i = None"
  using assms by (force simp: release_decisions_nth release_spec_None superseded_in_def is_expired_iff)

text \<open>
  Control entries are never superseded: whatever else the namespace holds, a key that starts
  with \<open>ctl/\<close> is released exactly when it has aged out, and then with the reason \<open>Expired\<close>.
\<close>

lemma control_entries_only_age_out:
  assumes "i < length es" "key (es ! i) = as_bytes (''ctl/'' @ rest)"
  shows "release_decisions es p now ! i =
    (if unat (written_ms (es ! i)) + unat (retention_ms p) < unat now then Some Expired else None)"
proof -
  have "decode_fix_key (key (es ! i)) = None"
    using decode_ctl_key [of rest] assms(2) by (simp add: CTL_TAG_def)
  then show ?thesis
    using assms(1) by (simp add: release_decisions_nth release_spec_def superseded_in_def is_expired_iff)
qed

text \<open>
  The decisions do not depend on the order in which the replica streams its entries: the
  multiset of decided entries is a function of the multiset of entries.
\<close>

lemma release_decisions_order:
  assumes "mset es = mset es'"
  shows "mset (zip es (release_decisions es p now)) = mset (zip es' (release_decisions es' p now))"
proof -
  have zip: "zip xs (map f xs) = map (\<lambda>x. (x, f x)) xs" for f :: "retention_entry \<Rightarrow> release_reason option" and xs
    by (simp add: zip_map2 zip_same_conv_map)
  have "set es = set es'"
    using assms by (rule mset_eq_setD)
  then show ?thesis
    using assms by (simp add: release_decisions_spec zip)
qed

text \<open>
  C28. The key parser accepts exactly the app's keys: a key decodes to an author and a sequence
  number just when, up to the letter case of the hex digits, it is the key the app writes for
  them; so writing and parsing are inverse to each other, and nothing else parses.
\<close>

theorem decode_fix_key_iff:
  "decode_fix_key k = Some \<lparr>author = a, seq = n\<rparr> \<longleftrightarrow>
     a \<noteq> [] \<and> map ascii_lower k = encode_fix_key a n"
  using encode_decode_fix_key [of k "\<lparr>author = a, seq = n\<rparr>"] decode_fix_key_canonical [of k a n]
  by auto

text \<open>
  The window arithmetic never wraps: over all of \<open>u64\<close>, a policy built from any number of
  hours expires an entry exactly when its age exceeds the (saturated) window, and near the epoch
  nothing expires.
\<close>

lemma expiry_never_wraps:
  "is_expired (from_hours h) ts now \<longleftrightarrow>
     unat ts + min (2 ^ 64 - 1) (unat h * 3600000) < unat now"
  by (simp add: is_expired_iff unat_from_hours)

section \<open>Witnesses\<close>

definition two_fixes :: "retention_entry list" where
  "two_fixes =
     [\<lparr>key = encode_fix_key [0xA1] 1, written_ms = 5\<rparr>, \<lparr>key = encode_fix_key [0xA1] 2, written_ms = 5\<rparr>,
      \<lparr>key = as_bytes (''ctl/'' @ ''a1''), written_ms = 5\<rparr>]"

lemma two_fixes_simps:
  "length two_fixes = 3"
  "two_fixes ! 0 = \<lparr>key = encode_fix_key [0xA1] 1, written_ms = 5\<rparr>"
  "two_fixes ! 1 = \<lparr>key = encode_fix_key [0xA1] 2, written_ms = 5\<rparr>"
  "two_fixes ! 2 = \<lparr>key = as_bytes (''ctl/'' @ ''a1''), written_ms = 5\<rparr>"
  by (simp_all add: two_fixes_def)

lemma two_fixes_decode:
  "e \<in> set two_fixes \<Longrightarrow> decode_fix_key (key e) = Some g \<Longrightarrow> author g = [0xA1] \<and> seq g \<le> 2"
  using decode_ctl_key [of "''a1''"] by (auto simp: two_fixes_def CTL_TAG_def)

lemma hour_window: "unat (retention_ms (from_hours 1)) = 3600000"
  by (simp add: unat_from_hours)

theorem release_decisions_exact_witness:
  "\<exists>r. release_decisions two_fixes (from_hours 1) 10 ! 0 = Some r \<and> is_superseded r"
  using release_decisions_exact [of 0 two_fixes "from_hours 1" 10]
  by (simp add: two_fixes_simps) (rule exI [of _ 1], simp add: two_fixes_simps [simplified])

definition same_fix_twice :: "retention_entry list" where
  "same_fix_twice =
     [\<lparr>key = encode_fix_key [0xA1] 2, written_ms = 5\<rparr>, \<lparr>key = encode_fix_key [0xA1] 2, written_ms = 6\<rparr>]"

lemma control_entries_only_age_out_witness:
  "release_decisions two_fixes (from_hours 1) 10 ! 2 = None"
  using control_entries_only_age_out [of 2 two_fixes "''a1''" "from_hours 1" 10]
  by (simp add: two_fixes_simps hour_window)

end
