(* ===== verification/Config.thy ===== *)
theory Config
  imports Retention
begin

text \<open>
  \<open>rust/src/config.rs\<close>: the configuration resolved from the environment. The lemmas show that every
  resolved value is in its documented range whatever the environment holds.
\<close>

definition DEFAULT_PORT :: u16 where "DEFAULT_PORT = 8787"
definition DEFAULT_RETENTION_HOURS :: u64 where "DEFAULT_RETENTION_HOURS = 48"
definition MIN_RETENTION_HOURS :: u64 where "MIN_RETENTION_HOURS = 1"
definition MAX_RETENTION_HOURS :: u64 where "MAX_RETENTION_HOURS = 24 * 14"
definition DEFAULT_PRUNE_INTERVAL_MIN :: u64 where "DEFAULT_PRUNE_INTERVAL_MIN = 15"
definition MIN_PRUNE_INTERVAL_MIN :: u64 where "MIN_PRUNE_INTERVAL_MIN = 1"
definition MAX_PRUNE_INTERVAL_MIN :: u64 where "MAX_PRUNE_INTERVAL_MIN = 24 * 60"

record stash_config =
  port :: u16
  retention :: retention_policy
  prune_interval_min :: u64
  relay_urls :: "string list"
  relay_token :: "string option"
  psk :: "string option"

definition trimmed_nonempty :: "string option \<Rightarrow> string option" where
  "trimmed_nonempty v = option_filter (\<lambda>v. v \<noteq> []) (map_option trim v)"

definition from_env :: "(string \<Rightarrow> string option) \<Rightarrow> stash_config" where
  "from_env env =
     (let p = unwrap_or DEFAULT_PORT
            (option_filter (\<lambda>p. p \<noteq> 0) (Option.bind (env ''PORT'') (\<lambda>v. parse_u16 (trim v))));
          hours = clamp MIN_RETENTION_HOURS MAX_RETENTION_HOURS
            (unwrap_or DEFAULT_RETENTION_HOURS
              (Option.bind (env ''TRAIL_STASH_RETENTION_HOURS'') (\<lambda>v. parse_u64 (trim v))));
          prune = clamp MIN_PRUNE_INTERVAL_MIN MAX_PRUNE_INTERVAL_MIN
            (unwrap_or DEFAULT_PRUNE_INTERVAL_MIN
              (Option.bind (env ''TRAIL_STASH_PRUNE_INTERVAL_MIN'') (\<lambda>v. parse_u64 (trim v))));
          key = trimmed_nonempty (env ''TRAIL_STASH_PSK'');
          urls = unwrap_or []
            (map_option (\<lambda>v. filter (\<lambda>url. url \<noteq> []) (map trim (split_on (CHR '','') v)))
              (env ''TRAIL_STASH_RELAY_URLS''));
          tok = trimmed_nonempty (env ''TRAIL_STASH_RELAY_TOKEN'')
      in \<lparr>port = p, retention = from_hours hours, prune_interval_min = prune,
          relay_urls = urls, relay_token = tok, psk = key\<rparr>)"

lemma trimmed_nonempty_Some:
  "trimmed_nonempty v = Some s \<Longrightarrow> s \<noteq> [] \<and> trim s = s"
  by (cases v) (auto simp: trimmed_nonempty_def split: if_splits)

lemma set_strip_ws: "set (strip_ws p q s) \<subseteq> set s"
  using strip_ws_suffix [of s p q] by (metis Un_upper2 set_append)

lemma set_trim: "set (trim s) \<subseteq> set s"
proof -
  have "set (trim_end t) \<subseteq> set t" for t
    using set_strip_ws [of _ _ "rev t"] by (simp add: trim_end_def)
  then show ?thesis
    using set_strip_ws [of ws2 ws3 s] by (auto simp: trim_def trim_start_def)
qed

lemma split_on_pieces: "p \<in> set (split_on c s) \<Longrightarrow> c \<notin> set p"
proof (induction c s arbitrary: p rule: split_on.induct)
  case (1 c)
  then show ?case by simp
next
  case (2 c x xs)
  then show ?case by (auto split: if_splits list.splits)
qed

lemma u16_positive: "(w :: u16) \<noteq> 0 \<longleftrightarrow> 0 < unat w"
  by (simp add: unat_gt_0)

section \<open>Properties\<close>

text \<open>
  Whatever the environment holds, the resolved configuration is in range: the port is not
  zero, the retention window lies between one hour and two weeks, the prune interval between one
  minute and a day (so the seconds the prune loop waits do not overflow), the keys are trimmed and
  never empty, and every relay URL is trimmed, not empty and free of commas.
\<close>

lemma config_in_range:
  "port (from_env env) \<noteq> 0
   \<and> 3600000 \<le> unat (retention_ms (retention (from_env env)))
   \<and> unat (retention_ms (retention (from_env env))) \<le> 336 * 3600000
   \<and> 1 \<le> unat (prune_interval_min (from_env env))
   \<and> unat (prune_interval_min (from_env env) * 60) \<le> 86400
   \<and> (\<forall>k \<in> set_option (psk (from_env env)) \<union> set_option (relay_token (from_env env)).
        k \<noteq> [] \<and> trim k = k)
   \<and> (\<forall>u \<in> set (relay_urls (from_env env)). u \<noteq> [] \<and> trim u = u \<and> CHR '','' \<notin> set u)"
proof -
  let ?c = "from_env env"
  have hours: "\<exists>h. retention ?c = from_hours h \<and> 1 \<le> unat h \<and> unat h \<le> 336"
    using clamp_bounds [of MIN_RETENTION_HOURS MAX_RETENTION_HOURS]
    by (fastforce simp: from_env_def Let_def MIN_RETENTION_HOURS_def MAX_RETENTION_HOURS_def u64_le_iff)
  have prune: "1 \<le> unat (prune_interval_min ?c)" "unat (prune_interval_min ?c) \<le> 1440"
    using clamp_bounds [of MIN_PRUNE_INTERVAL_MIN MAX_PRUNE_INTERVAL_MIN]
    by (simp_all add: from_env_def Let_def MIN_PRUNE_INTERVAL_MIN_def MAX_PRUNE_INTERVAL_MIN_def u64_le_iff)
  have "port ?c \<noteq> 0"
    by (auto simp: from_env_def Let_def unwrap_or_def DEFAULT_PORT_def split: option.split)
  moreover have "3600000 \<le> unat (retention_ms (retention ?c))" "unat (retention_ms (retention ?c)) \<le> 336 * 3600000"
    using hours by (auto simp: unat_from_hours)
  moreover have "unat (prune_interval_min ?c * 60) \<le> 86400"
    using prune by (simp add: unat_word_ariths)
  moreover have "k \<noteq> [] \<and> trim k = k" if "k \<in> set_option (psk ?c) \<union> set_option (relay_token ?c)" for k
    using that by (auto simp: from_env_def Let_def dest: trimmed_nonempty_Some)
  moreover have "u \<noteq> [] \<and> trim u = u \<and> CHR '','' \<notin> set u" if "u \<in> set (relay_urls ?c)" for u
    using that set_trim split_on_pieces
    by (cases "env ''TRAIL_STASH_RELAY_URLS''") (fastforce simp: from_env_def Let_def)+
  ultimately show ?thesis
    using prune by blast
qed

lemma config_in_range_witness:
  "psk (from_env (\<lambda>k. if k = ''TRAIL_STASH_PSK'' then Some '' s3cret '' else None)) = Some ''s3cret''
   \<and> trim ''s3cret'' = ''s3cret''"
proof -
  let ?env = "\<lambda>k. if k = ''TRAIL_STASH_PSK'' then Some '' s3cret '' else None"
  have "psk (from_env ?env) = Some ''s3cret''"
    by (simp add: from_env_def Let_def trimmed_nonempty_def trim_def trim_start_def trim_end_def
        ws1_def ws2_def ws3_def chr_byte_def)
  then show ?thesis
    using config_in_range [of ?env] by simp
qed

text \<open>
  Unset and unparseable variables fall back to the defaults: with an empty environment, and
  with one whose numbers are junk, port, window and interval are the documented defaults.
\<close>

lemma config_falls_back:
  assumes "\<And>k. k \<in> {''PORT'', ''TRAIL_STASH_RETENTION_HOURS'', ''TRAIL_STASH_PRUNE_INTERVAL_MIN''} \<Longrightarrow>
      (case env k of None \<Rightarrow> True | Some v \<Rightarrow> parse_u64 (trim v) = None \<and> parse_u16 (trim v) = None)"
  shows "port (from_env env) = 8787 \<and> retention (from_env env) = from_hours 48 \<and>
    prune_interval_min (from_env env) = 15"
proof -
  have none: "Option.bind (env ''PORT'') (\<lambda>v. parse_u16 (trim v)) = None"
    "Option.bind (env ''TRAIL_STASH_RETENTION_HOURS'') (\<lambda>v. parse_u64 (trim v)) = None"
    "Option.bind (env ''TRAIL_STASH_PRUNE_INTERVAL_MIN'') (\<lambda>v. parse_u64 (trim v)) = None"
    using assms [of "''PORT''"] assms [of "''TRAIL_STASH_RETENTION_HOURS''"]
      assms [of "''TRAIL_STASH_PRUNE_INTERVAL_MIN''"] by (auto split: option.splits)
  show ?thesis
    unfolding from_env_def Let_def none
    by (simp add: clamp_def DEFAULT_PORT_def DEFAULT_RETENTION_HOURS_def DEFAULT_PRUNE_INTERVAL_MIN_def
        MIN_RETENTION_HOURS_def MAX_RETENTION_HOURS_def MIN_PRUNE_INTERVAL_MIN_def MAX_PRUNE_INTERVAL_MIN_def)
qed

end
