(* ===== verification/Content.thy ===== *)
theory Content
  imports Hash_Table "HOL-Library.Option_ord"
begin

text \<open>
  \<open>rust/src/content.rs\<close>: the index of the ciphertext the stash is responsible for. The detailed
  model keeps the two tables of \<open>ContentIndex\<close>; the abstract ledger is the set of references
  (namespace, hash) and the set of hashes whose bytes have landed. The lemmas show the invariant
  that ties the two tables together and that every operation implements the ledger's.
\<close>

datatype state = Wanted | Present

text \<open>Presence only grows while a hash stays referenced; the order makes that statable.\<close>

instantiation state :: linorder
begin

definition less_eq_state :: "state \<Rightarrow> state \<Rightarrow> bool" where
  "less_eq_state a b \<longleftrightarrow> (a = Present \<longrightarrow> b = Present)"

definition less_state :: "state \<Rightarrow> state \<Rightarrow> bool" where
  "less_state a b \<longleftrightarrow> a = Wanted \<and> b = Present"

instance
proof
  fix x y z :: state
  show "x < y \<longleftrightarrow> x \<le> y \<and> \<not> y \<le> x"
    by (cases x; cases y) (simp_all add: less_eq_state_def less_state_def)
  show "x \<le> x"
    by (simp add: less_eq_state_def)
  show "x \<le> y \<Longrightarrow> y \<le> z \<Longrightarrow> x \<le> z"
    by (simp add: less_eq_state_def)
  show "x \<le> y \<Longrightarrow> y \<le> x \<Longrightarrow> x = y"
    by (cases x; cases y) (simp_all add: less_eq_state_def)
  show "x \<le> y \<or> y \<le> x"
    by (cases x) (simp_all add: less_eq_state_def)
qed

end

record content_index =
  state :: "(content_hash, state) hmap"
  by_namespace :: "(namespace_id, content_hash hset) hmap"

definition new_index :: content_index where
  "new_index = \<lparr>state = [], by_namespace = []\<rparr>"

definition want :: "namespace_id \<Rightarrow> content_hash \<Rightarrow> content_index \<Rightarrow> content_index" where
  "want ns hash i =
     i\<lparr>by_namespace := hm_upsert ns (\<lambda>s. snd (hs_insert hash s)) (snd (hs_insert hash []))
         (by_namespace i),
       state := hm_or_insert hash Wanted (state i)\<rparr>"

definition mark_present :: "content_hash \<Rightarrow> content_index \<Rightarrow> content_index" where
  "mark_present hash i = i\<lparr>state := hm_modify hash (\<lambda>_. Present) (state i)\<rparr>"

definition is_tracked :: "content_index \<Rightarrow> content_hash \<Rightarrow> bool" where
  "is_tracked i hash \<longleftrightarrow> hm_get (state i) hash \<noteq> None"

definition is_tracked_for :: "content_index \<Rightarrow> namespace_id \<Rightarrow> content_hash \<Rightarrow> bool" where
  "is_tracked_for i ns hash \<longleftrightarrow>
     (case hm_get (by_namespace i) ns of None \<Rightarrow> False | Some hashes \<Rightarrow> hash \<in> set hashes)"

definition is_present :: "content_index \<Rightarrow> content_hash \<Rightarrow> bool" where
  "is_present i hash \<longleftrightarrow> hm_get (state i) hash = Some Present"

definition is_present_for :: "content_index \<Rightarrow> namespace_id \<Rightarrow> content_hash \<Rightarrow> bool" where
  "is_present_for i ns hash \<longleftrightarrow>
     (case hm_get (by_namespace i) ns of None \<Rightarrow> False | Some hashes \<Rightarrow> hash \<in> set hashes) \<and>
     is_present i hash"

text \<open>\<open>forget\<close> returns whether this very call dropped the last reference.\<close>

definition forget :: "namespace_id \<Rightarrow> content_hash \<Rightarrow> content_index \<Rightarrow> bool \<times> content_index" where
  "forget ns hash i =
     (let (removed, i1) =
        (case hm_get (by_namespace i) ns of
           None \<Rightarrow> (False, i)
         | Some hashes \<Rightarrow>
             (let (removed, hashes') = hs_remove hash hashes;
                  b = (if hashes' = [] then hm_remove ns (by_namespace i)
                       else hm_insert ns hashes' (by_namespace i))
              in (removed, i\<lparr>by_namespace := b\<rparr>)))
      in (if \<not> removed then (False, i1)
          else
            (let still_referenced = list_ex (\<lambda>hashes. hash \<in> set hashes) (map snd (by_namespace i1))
             in (\<not> still_referenced,
                 if still_referenced then i1 else i1\<lparr>state := hm_remove hash (state i1)\<rparr>))))"

definition missing_count :: "content_index \<Rightarrow> nat" where
  "missing_count i = length (filter (\<lambda>s. s = Wanted) (map snd (state i)))"

definition tracked_count :: "content_index \<Rightarrow> nat" where
  "tracked_count i = length (state i)"

definition referenced :: "content_index \<Rightarrow> content_hash list" where
  "referenced i = map fst (state i)"

section \<open>The invariant\<close>

text \<open>
  Every table has each key once, no namespace keeps an empty set, and a hash has a state just when
  some namespace references it.
\<close>

definition index_inv :: "content_index \<Rightarrow> bool" where
  "index_inv i \<longleftrightarrow> hm_wf (state i) \<and> hm_wf (by_namespace i) \<and>
     (\<forall>ns hashes. hm_get (by_namespace i) ns = Some hashes \<longrightarrow> hashes \<noteq> [] \<and> distinct hashes) \<and>
     (\<forall>hash. is_tracked i hash \<longleftrightarrow> (\<exists>ns. is_tracked_for i ns hash))"

lemma index_invD:
  assumes "index_inv i"
  shows "hm_wf (state i)" "hm_wf (by_namespace i)"
    "is_tracked i hash \<longleftrightarrow> (\<exists>ns. is_tracked_for i ns hash)"
  using assms unfolding index_inv_def by blast+

lemma index_inv_sets:
  "hm_get (by_namespace i) ns = Some hashes \<Longrightarrow> index_inv i \<Longrightarrow> hashes \<noteq> [] \<and> distinct hashes"
  unfolding index_inv_def by blast

lemma is_tracked_for_ex:
  "is_tracked_for i ns hash \<longleftrightarrow> (\<exists>v. hm_get (by_namespace i) ns = Some v \<and> hash \<in> set v)"
  by (simp add: is_tracked_for_def split: option.split)

lemma is_present_tracked: "is_present i hash \<Longrightarrow> is_tracked i hash"
  by (simp add: is_present_def is_tracked_def)

lemma is_present_for_iff: "is_present_for i ns hash \<longleftrightarrow> is_tracked_for i ns hash \<and> is_present i hash"
  by (simp add: is_present_for_def is_tracked_for_def)

lemma new_index_simps [simp]:
  "\<not> is_tracked new_index hash" "\<not> is_tracked_for new_index ns hash" "\<not> is_present new_index hash"
  "index_inv new_index"
  by (simp_all add: new_index_def is_tracked_def is_tracked_for_def is_present_def index_inv_def)

lemma want_simps [simp, table_simps]:
  "is_tracked_for (want ns hash i) ns' hash' \<longleftrightarrow>
     is_tracked_for i ns' hash' \<or> ns' = ns \<and> hash' = hash"
  "is_tracked (want ns hash i) hash' \<longleftrightarrow> is_tracked i hash' \<or> hash' = hash"
  "is_present (want ns hash i) hash' \<longleftrightarrow> is_present i hash'"
  by (auto simp: want_def is_tracked_for_def is_tracked_def is_present_def split: option.splits)
    (simp_all add: unwrap_or_def split: option.splits)

lemma mark_present_simps [simp, table_simps]:
  "is_tracked_for (mark_present hash i) ns' hash' \<longleftrightarrow> is_tracked_for i ns' hash'"
  "is_tracked (mark_present hash i) hash' \<longleftrightarrow> is_tracked i hash'"
  "is_present (mark_present hash i) hash' \<longleftrightarrow>
     is_present i hash' \<or> hash' = hash \<and> is_tracked i hash"
  by (auto simp: mark_present_def is_tracked_for_def is_tracked_def is_present_def)

text \<open>\<open>forget\<close> in two steps: the namespace table, then the state table.\<close>

definition drop_reference :: "namespace_id \<Rightarrow> content_hash \<Rightarrow> content_index \<Rightarrow> content_index" where
  "drop_reference ns hash i = (case hm_get (by_namespace i) ns of None \<Rightarrow> i | Some hashes \<Rightarrow>
     i\<lparr>by_namespace := (if snd (hs_remove hash hashes) = [] then hm_remove ns (by_namespace i)
        else hm_insert ns (snd (hs_remove hash hashes)) (by_namespace i))\<rparr>)"

lemma drop_reference_simps:
  "is_tracked_for (drop_reference ns hash i) ns' hash' \<longleftrightarrow>
     is_tracked_for i ns' hash' \<and> \<not> (ns' = ns \<and> hash' = hash)"
  "state (drop_reference ns hash i) = state i"
  "hm_wf (by_namespace i) \<Longrightarrow> hm_wf (by_namespace (drop_reference ns hash i))"
  by (auto simp: drop_reference_def is_tracked_for_def hs_remove_def filter_empty_conv split: option.splits)

lemma forget_eq:
  assumes "hm_wf (by_namespace i)"
  shows "forget ns hash i =
    (if \<not> is_tracked_for i ns hash then (False, drop_reference ns hash i)
     else if \<exists>ns'. ns' \<noteq> ns \<and> is_tracked_for i ns' hash then (False, drop_reference ns hash i)
     else (True, (drop_reference ns hash i)\<lparr>state := hm_remove hash (state i)\<rparr>))"
proof -
  have ex: "list_ex (\<lambda>hashes. hash \<in> set hashes) (map snd (by_namespace (drop_reference ns hash i)))
      \<longleftrightarrow> (\<exists>ns'. ns' \<noteq> ns \<and> is_tracked_for i ns' hash)"
  proof -
    have "list_ex (\<lambda>hashes. hash \<in> set hashes) (map snd (by_namespace (drop_reference ns hash i)))
      \<longleftrightarrow> (\<exists>ns'. is_tracked_for (drop_reference ns hash i) ns' hash)"
      by (simp add: hm_any drop_reference_simps(3) assms is_tracked_for_ex del: list_ex_iff)
    then show ?thesis by (auto simp: drop_reference_simps(1))
  qed
  show ?thesis
    using ex by (cases "hm_get (by_namespace i) ns")
      (auto simp: forget_def drop_reference_def is_tracked_for_def hs_remove_def Let_def
        simp del: list_ex_iff)
qed

lemma forget_simps [table_simps]:
  assumes "hm_wf (by_namespace i)"
  shows "is_tracked_for (snd (forget ns hash i)) ns' hash' \<longleftrightarrow>
      is_tracked_for i ns' hash' \<and> \<not> (ns' = ns \<and> hash' = hash)"
    "fst (forget ns hash i) \<longleftrightarrow>
      is_tracked_for i ns hash \<and> (\<forall>ns'. ns' \<noteq> ns \<longrightarrow> \<not> is_tracked_for i ns' hash)"
    "is_tracked (snd (forget ns hash i)) hash' \<longleftrightarrow>
      is_tracked i hash' \<and> \<not> (fst (forget ns hash i) \<and> hash' = hash)"
    "is_present (snd (forget ns hash i)) hash' \<longleftrightarrow>
      is_present i hash' \<and> \<not> (fst (forget ns hash i) \<and> hash' = hash)"
proof -
  have st: "is_tracked_for (j\<lparr>state := s\<rparr>) = is_tracked_for j" for j s
    by (simp add: is_tracked_for_def fun_eq_iff)
  show "is_tracked_for (snd (forget ns hash i)) ns' hash' \<longleftrightarrow>
      is_tracked_for i ns' hash' \<and> \<not> (ns' = ns \<and> hash' = hash)"
    by (simp add: forget_eq assms st drop_reference_simps)
  show "fst (forget ns hash i) \<longleftrightarrow>
      is_tracked_for i ns hash \<and> (\<forall>ns'. ns' \<noteq> ns \<longrightarrow> \<not> is_tracked_for i ns' hash)"
    by (auto simp: forget_eq assms)
qed (auto simp: forget_eq assms is_tracked_def is_present_def drop_reference_simps)

lemma index_invI:
  assumes "hm_wf (state i)" "hm_wf (by_namespace i)"
    and "\<And>ns hashes. hm_get (by_namespace i) ns = Some hashes \<Longrightarrow> hashes \<noteq> [] \<and> distinct hashes"
    and "\<And>hash. is_tracked i hash \<longleftrightarrow> (\<exists>ns. is_tracked_for i ns hash)"
  shows "index_inv i"
  using assms unfolding index_inv_def by blast

lemma want_inv [inv_intros]:
  assumes "index_inv i"
  shows "index_inv (want ns hash i)"
proof (rule index_invI)
  note wf = index_invD(1,2) [OF assms]
  show "hm_wf (state (want ns hash i))" "hm_wf (by_namespace (want ns hash i))"
    using wf by (simp_all add: want_def)
  show "is_tracked (want ns hash i) h \<longleftrightarrow> (\<exists>ns'. is_tracked_for (want ns hash i) ns' h)" for h
    using index_invD(3) [OF assms, of h] by auto
  show "hashes \<noteq> [] \<and> distinct hashes"
    if "hm_get (by_namespace (want ns hash i)) ns' = Some hashes" for ns' hashes
    using that assms
    by (cases "hm_get (by_namespace i) ns")
      (auto simp: want_def dest: index_inv_sets split: if_splits)
qed

lemma mark_present_inv [inv_intros]:
  assumes "index_inv i"
  shows "index_inv (mark_present hash i)"
proof (rule index_invI)
  note wf = index_invD(1,2) [OF assms]
  show "hm_wf (state (mark_present hash i))" "hm_wf (by_namespace (mark_present hash i))"
    using wf by (simp_all add: mark_present_def)
  show "is_tracked (mark_present hash i) h \<longleftrightarrow> (\<exists>ns. is_tracked_for (mark_present hash i) ns h)" for h
    using index_invD(3) [OF assms, of h] by simp
  show "hashes \<noteq> [] \<and> distinct hashes"
    if "hm_get (by_namespace (mark_present hash i)) ns' = Some hashes" for ns' hashes
    using that assms by (auto simp: mark_present_def dest: index_inv_sets)
qed

lemma drop_reference_sets:
  assumes "index_inv i" "hm_get (by_namespace (drop_reference ns hash i)) ns' = Some hashes"
  shows "hashes \<noteq> [] \<and> distinct hashes"
  using assms
  by (cases "hm_get (by_namespace i) ns")
    (auto simp: drop_reference_def dest: index_inv_sets split: if_splits)

lemma forget_inv [inv_intros]:
  assumes "index_inv i"
  shows "index_inv (snd (forget ns hash i))"
proof (rule index_invI)
  note wf = index_invD(1,2) [OF assms]
  show "hm_wf (state (snd (forget ns hash i)))" "hm_wf (by_namespace (snd (forget ns hash i)))"
    using wf by (auto simp: forget_eq drop_reference_simps)
  show "hashes \<noteq> [] \<and> distinct hashes"
    if "hm_get (by_namespace (snd (forget ns hash i))) ns' = Some hashes" for ns' hashes
  proof -
    have "by_namespace (snd (forget ns hash i)) = by_namespace (drop_reference ns hash i)"
      using wf by (simp add: forget_eq)
    then have "hm_get (by_namespace (drop_reference ns hash i)) ns' = Some hashes"
      using that by (simp only:)
    with assms show ?thesis by (rule drop_reference_sets)
  qed
  show "is_tracked (snd (forget ns hash i)) h \<longleftrightarrow> (\<exists>ns'. is_tracked_for (snd (forget ns hash i)) ns' h)" for h
    using index_invD(3) [OF assms, of h] by (auto simp: forget_simps wf)
qed

section \<open>The ledger\<close>

text \<open>What the index promises: who references what, and whose bytes have landed.\<close>

record ledger =
  refs :: "(namespace_id \<times> content_hash) set"
  landed :: "content_hash set"

definition ledger_want :: "namespace_id \<Rightarrow> content_hash \<Rightarrow> ledger \<Rightarrow> ledger" where
  "ledger_want ns hash l = l\<lparr>refs := insert (ns, hash) (refs l)\<rparr>"

definition ledger_mark :: "content_hash \<Rightarrow> ledger \<Rightarrow> ledger" where
  "ledger_mark hash l = (if hash \<in> snd ` refs l then l\<lparr>landed := insert hash (landed l)\<rparr> else l)"

definition ledger_last :: "namespace_id \<Rightarrow> content_hash \<Rightarrow> ledger \<Rightarrow> bool" where
  "ledger_last ns hash l \<longleftrightarrow> {n. (n, hash) \<in> refs l} = {ns}"

definition ledger_forget :: "namespace_id \<Rightarrow> content_hash \<Rightarrow> ledger \<Rightarrow> ledger" where
  "ledger_forget ns hash l =
     \<lparr>refs = refs l - {(ns, hash)},
      landed = (if ledger_last ns hash l then landed l - {hash} else landed l)\<rparr>"

definition ledger_of :: "content_index \<Rightarrow> ledger" where
  "ledger_of i = \<lparr>refs = {(ns, hash). is_tracked_for i ns hash}, landed = {hash. is_present i hash}\<rparr>"

text \<open>
  The contract between the node and the index. Clients know the index through its ledger only.
\<close>

locale content_ledger =
  fixes inv :: "'i \<Rightarrow> bool"
    and abs :: "'i \<Rightarrow> ledger"
    and w :: "namespace_id \<Rightarrow> content_hash \<Rightarrow> 'i \<Rightarrow> 'i"
    and m :: "content_hash \<Rightarrow> 'i \<Rightarrow> 'i"
    and f :: "namespace_id \<Rightarrow> content_hash \<Rightarrow> 'i \<Rightarrow> bool \<times> 'i"
  assumes abs_want: "inv i \<Longrightarrow> abs (w ns hash i) = ledger_want ns hash (abs i)"
    and abs_mark: "inv i \<Longrightarrow> abs (m hash i) = ledger_mark hash (abs i)"
    and abs_forget: "inv i \<Longrightarrow> abs (snd (f ns hash i)) = ledger_forget ns hash (abs i)"
    and last_forget: "inv i \<Longrightarrow> fst (f ns hash i) \<longleftrightarrow> ledger_last ns hash (abs i)"
    and inv_want: "inv i \<Longrightarrow> inv (w ns hash i)"
    and inv_mark: "inv i \<Longrightarrow> inv (m hash i)"
    and inv_forget: "inv i \<Longrightarrow> inv (snd (f ns hash i))"
begin

text \<open>A release is reported once: the second call finds nothing to drop and changes nothing.\<close>

lemma forget_again:
  assumes "inv i"
  shows "\<not> fst (f ns hash (snd (f ns hash i)))"
    "abs (snd (f ns hash (snd (f ns hash i)))) = abs (snd (f ns hash i))"
  using assms
  by (auto simp: last_forget inv_forget abs_forget ledger_last_def ledger_forget_def)

text \<open>Two namespaces with the same ciphertext: only the second release frees it.\<close>

lemma forget_shared:
  assumes "inv i" "(a, hash) \<in> refs (abs i)" "(b, hash) \<in> refs (abs i)" "a \<noteq> b"
  shows "\<not> fst (f a hash i) \<and> landed (abs (snd (f a hash i))) = landed (abs i)"
proof -
  have "\<not> ledger_last a hash (abs i)"
  proof
    assume "ledger_last a hash (abs i)"
    then have "b \<in> {a}"
      using assms(3) unfolding ledger_last_def by blast
    then show False using assms(4) by simp
  qed
  then show ?thesis
    using assms(1) by (simp add: last_forget abs_forget ledger_forget_def)
qed

text \<open>Forgetting a list of hashes of one namespace, as the sweep does.\<close>

lemma forget_list:
  assumes "inv i"
  shows "inv (fold (\<lambda>hash j. snd (f ns hash j)) hs i) \<and>
    refs (abs (fold (\<lambda>hash j. snd (f ns hash j)) hs i)) = refs (abs i) - {ns} \<times> set hs"
  using assms
proof (induction hs arbitrary: i)
  case Nil
  then show ?case by simp
next
  case (Cons h hs)
  then show ?case
    by (auto simp: inv_forget abs_forget ledger_forget_def)
qed

end

interpretation idx: content_ledger index_inv ledger_of want mark_present forget
proof
  fix i ns hash
  assume inv: "index_inv i"
  note wf = index_invD(2) [OF inv]
  show "ledger_of (want ns hash i) = ledger_want ns hash (ledger_of i)"
    by (auto simp: ledger_of_def ledger_want_def)
  show "ledger_of (mark_present hash i) = ledger_mark hash (ledger_of i)"
    using index_invD(3) [OF inv, of hash] by (force simp: ledger_of_def ledger_mark_def)
  show last: "fst (forget ns hash i) \<longleftrightarrow> ledger_last ns hash (ledger_of i)"
    using wf by (auto simp: forget_simps ledger_of_def ledger_last_def)
  show "ledger_of (snd (forget ns hash i)) = ledger_forget ns hash (ledger_of i)"
    unfolding ledger_forget_def last [symmetric]
    using wf by (auto simp: ledger_of_def forget_simps)
qed (rule inv_intros, assumption)+

section \<open>Runs of the index\<close>

datatype index_op = OpWant namespace_id content_hash | OpMark content_hash
  | OpForget namespace_id content_hash

fun run_index :: "index_op list \<Rightarrow> content_index \<Rightarrow> bool list \<times> content_index" where
  "run_index [] i = ([], i)"
| "run_index (OpWant ns h # ops) i = run_index ops (want ns h i)"
| "run_index (OpMark h # ops) i = run_index ops (mark_present h i)"
| "run_index (OpForget ns h # ops) i =
     (let (last, i1) = forget ns h i; (out, i2) = run_index ops i1 in (last # out, i2))"

fun run_ledger :: "index_op list \<Rightarrow> ledger \<Rightarrow> bool list \<times> ledger" where
  "run_ledger [] l = ([], l)"
| "run_ledger (OpWant ns h # ops) l = run_ledger ops (ledger_want ns h l)"
| "run_ledger (OpMark h # ops) l = run_ledger ops (ledger_mark h l)"
| "run_ledger (OpForget ns h # ops) l =
     (let (out, l2) = run_ledger ops (ledger_forget ns h l) in (ledger_last ns h l # out, l2))"

lemma run_index_ledger:
  "index_inv i \<Longrightarrow> index_inv (snd (run_index ops i)) \<and>
     run_ledger ops (ledger_of i) = (fst (run_index ops i), ledger_of (snd (run_index ops i)))"
proof (induction ops i rule: run_index.induct)
  case (4 ns h ops i)
  then show ?case
    by (simp add: idx.inv_forget split: prod.split)
      (metis idx.abs_forget idx.last_forget idx.inv_forget fst_conv snd_conv)
qed (simp_all add: idx.inv_want idx.abs_want idx.inv_mark idx.abs_mark)

lemma ledger_of_new: "ledger_of new_index = \<lparr>refs = {}, landed = {}\<rparr>"
  by (simp add: ledger_of_def)

lemma referenced_set: "index_inv i \<Longrightarrow> set (referenced i) = snd ` refs (ledger_of i)"
  using hm_keys [OF index_invD(1), of i] index_invD(3) [of i]
  by (force simp: referenced_def ledger_of_def is_tracked_def dom_def)

section \<open>Properties\<close>

text \<open>
  C10. The index implements the ledger. From the empty index, any sequence of \<open>want\<close>,
  \<open>mark_present\<close> and \<open>forget\<close> calls returns what the ledger returns and ends in an index whose
  references and landed hashes are the ledger's; every index on the way is well formed.
\<close>

theorem content_index_refines_ledger:
  "run_ledger ops \<lparr>refs = {}, landed = {}\<rparr> =
     (fst (run_index ops new_index), ledger_of (snd (run_index ops new_index))) \<and>
   index_inv (snd (run_index ops new_index))"
  using run_index_ledger [of new_index ops] by (simp add: ledger_of_new)

text \<open>
  The health numbers are truthful: \<open>tracked_count\<close> is the number of distinct hashes some
  namespace references, \<open>missing_count\<close> the number of those whose bytes have not landed.
\<close>

lemma health_counts_exact:
  assumes "index_inv i"
  shows "tracked_count i = card (snd ` refs (ledger_of i)) \<and>
    missing_count i = card (snd ` refs (ledger_of i) - landed (ledger_of i)) \<and>
    missing_count i \<le> tracked_count i"
proof -
  note wf = index_invD(1) [OF assms]
  have tracked: "snd ` refs (ledger_of i) = dom (map_of (state i))"
    using referenced_set [OF assms] hm_keys [OF wf] by (simp add: referenced_def)
  have "dom (map_of (state i)) - landed (ledger_of i) =
      {k. \<exists>v. map_of (state i) k = Some v \<and> v = Wanted}"
    by (auto simp: ledger_of_def is_present_def dom_def) (metis state.exhaust)
  moreover have "missing_count i = card {k. \<exists>v. map_of (state i) k = Some v \<and> v = Wanted}"
    by (simp only: missing_count_def hm_count [OF wf])
  moreover have "missing_count i \<le> tracked_count i"
    unfolding missing_count_def tracked_count_def by (metis length_filter_le length_map)
  ultimately show ?thesis
    by (simp add: tracked tracked_count_def hm_length [OF wf])
qed

text \<open>
  The set the blob collector must protect is complete and exact: \<open>referenced\<close> lists each hash
  that some namespace references once, whether its bytes are here or still in flight.
\<close>

lemma referenced_protects_exactly:
  assumes "index_inv i"
  shows "distinct (referenced i) \<and> (hash \<in> set (referenced i) \<longleftrightarrow> (\<exists>ns. is_tracked_for i ns hash))"
  using index_invD(1) [OF assms] referenced_set [OF assms]
  by (auto simp: referenced_def hm_wf_def ledger_of_def image_iff)

text \<open>
  \<open>forget\<close> reports a release exactly when this call drops the last reference, a repeated call
  reports nothing and changes nothing, and while another namespace references the hash its
  presence survives.
\<close>

lemma forget_reports_last_reference:
  assumes "index_inv i"
  shows "(fst (forget ns hash i) \<longleftrightarrow>
      is_tracked_for i ns hash \<and> (\<forall>other. is_tracked_for i other hash \<longrightarrow> other = ns))
    \<and> \<not> fst (forget ns hash (snd (forget ns hash i)))
    \<and> ledger_of (snd (forget ns hash (snd (forget ns hash i)))) = ledger_of (snd (forget ns hash i))
    \<and> (other \<noteq> ns \<and> is_tracked_for i other hash \<longrightarrow>
         is_present (snd (forget ns hash i)) hash = is_present i hash)"
proof -
  have eq: "fst (forget ns hash i) \<longleftrightarrow>
      is_tracked_for i ns hash \<and> (\<forall>other. is_tracked_for i other hash \<longrightarrow> other = ns)"
    using index_invD(2) [OF assms] by (auto simp: forget_simps)
  then show ?thesis
    using idx.forget_again [OF assms, of ns hash] index_invD(2) [OF assms]
    by (auto simp: forget_simps(4))
qed

text \<open>
  Presence is monotone: \<open>want\<close> and \<open>mark_present\<close> never lower the state of any hash, so
  reconciling an old entry again cannot turn servable content into missing content.
\<close>

lemma presence_never_downgraded:
  "map_of (state i) hash \<le> map_of (state (want ns hash' i)) hash \<and>
   map_of (state i) hash \<le> map_of (state (mark_present hash' i)) hash"
  by (auto simp: want_def mark_present_def less_eq_option_def unwrap_or_def less_eq_state_def
      split: option.split)

section \<open>Witnesses\<close>

definition shared_index :: content_index where
  "shared_index = mark_present [9] (want [2] [9] (want [1] [9] new_index))"

lemma shared_index_inv: "index_inv shared_index"
  by (simp add: shared_index_def inv_intros)

lemma shared_index_tracked:
  "is_tracked_for shared_index ns hash \<longleftrightarrow> (ns = [1] \<or> ns = [2]) \<and> hash = [9]"
  by (auto simp: shared_index_def)

end
