(* ===== verification/Subscriptions.thy ===== *)
theory Subscriptions
  imports Rust_Std Hash_Table
begin

text \<open>
  \<open>rust/src/subscriptions.rs\<close>: the in-memory registry of granted namespaces and wake targets. Its
  contract is a set of granted namespaces and a set of (namespace, subscription) pairs; the lemmas
  show that every operation implements it and what an operation reports.
\<close>

datatype platform = Apns | Fcm

fun platform_as_str :: "platform \<Rightarrow> string" where
  "platform_as_str Apns = ''apns''"
| "platform_as_str Fcm = ''fcm''"

record push_subscription =
  platform :: platform
  token :: string

definition redacted :: "push_subscription \<Rightarrow> string" where
  "redacted sub = platform_as_str (platform sub) @ '':[REDACTED]''"

record namespace_registry =
  known :: "namespace_id hset"
  subs :: "(namespace_id, push_subscription hset) hmap"

definition new_registry :: namespace_registry where
  "new_registry = \<lparr>known = [], subs = []\<rparr>"

definition register ::
    "namespace_id \<Rightarrow> push_subscription option \<Rightarrow> namespace_registry \<Rightarrow> bool \<times> namespace_registry" where
  "register ns sub g =
     (let (is_new, known') = hs_insert ns (known g);
          g1 = g\<lparr>known := known'\<rparr>
      in (is_new,
          case sub of None \<Rightarrow> g1
          | Some s \<Rightarrow> g1\<lparr>subs := hm_upsert ns (\<lambda>tgts. snd (hs_insert s tgts)) (snd (hs_insert s []))
              (subs g1)\<rparr>))"

definition unsubscribe ::
    "namespace_id \<Rightarrow> push_subscription \<Rightarrow> namespace_registry \<Rightarrow> bool \<times> namespace_registry" where
  "unsubscribe ns sub g =
     (case hm_get (subs g) ns of
        None \<Rightarrow> (False, g)
      | Some tgts \<Rightarrow>
          (let (removed, tgts') = hs_remove sub tgts
           in (removed, g\<lparr>subs := (if tgts' = [] then hm_remove ns (subs g)
                                   else hm_insert ns tgts' (subs g))\<rparr>)))"

definition wake_targets :: "namespace_registry \<Rightarrow> namespace_id \<Rightarrow> push_subscription list" where
  "wake_targets g ns = (case hm_get (subs g) ns of None \<Rightarrow> [] | Some s \<Rightarrow> s)"

definition known_namespaces :: "namespace_registry \<Rightarrow> namespace_id list" where
  "known_namespaces g = known g"

definition is_known :: "namespace_registry \<Rightarrow> namespace_id \<Rightarrow> bool" where
  "is_known g ns \<longleftrightarrow> ns \<in> set (known g)"

lemma is_known_subs: "is_known (g\<lparr>subs := t\<rparr>) ns = is_known g ns"
  by (simp add: is_known_def)

section \<open>Invariant\<close>

text \<open>No duplicate grants or targets, no empty target set, and targets of granted namespaces only.\<close>

definition registry_inv :: "namespace_registry \<Rightarrow> bool" where
  "registry_inv g \<longleftrightarrow> distinct (known g) \<and> hm_wf (subs g) \<and>
     (\<forall>ns s. hm_get (subs g) ns = Some s \<longrightarrow> s \<noteq> [] \<and> distinct s \<and> is_known g ns)"

lemma registry_inv_simps:
  assumes "registry_inv g"
  shows "distinct (known g)" "hm_wf (subs g)"
  using assms by (simp_all add: registry_inv_def)

lemma registry_inv_sets:
  "hm_get (subs g) ns = Some s \<Longrightarrow> registry_inv g \<Longrightarrow> s \<noteq> [] \<and> distinct s \<and> is_known g ns"
  by (simp add: registry_inv_def)

lemma registry_invI:
  assumes "distinct (known g)" "hm_wf (subs g)"
    and "\<And>ns s. hm_get (subs g) ns = Some s \<Longrightarrow> s \<noteq> [] \<and> distinct s \<and> is_known g ns"
  shows "registry_inv g"
  using assms by (simp add: registry_inv_def)

lemma new_registry_inv [simp]: "registry_inv new_registry"
  by (simp add: registry_inv_def new_registry_def)

lemma register_fields:
  "known (snd (register ns sub g)) = snd (hs_insert ns (known g))"
  "subs (snd (register ns sub g)) = (case sub of None \<Rightarrow> subs g
     | Some s \<Rightarrow> hm_upsert ns (\<lambda>tgts. snd (hs_insert s tgts)) (snd (hs_insert s [])) (subs g))"
  "fst (register ns sub g) = fst (hs_insert ns (known g))"
  by (cases sub; simp add: register_def Let_def split_beta)+

lemma register_simps [simp]:
  "fst (register ns sub g) \<longleftrightarrow> \<not> is_known g ns"
  "is_known (snd (register ns sub g)) ns' \<longleftrightarrow> is_known g ns' \<or> ns' = ns"
  by (auto simp: register_fields is_known_def)

lemma register_targets:
  "set (wake_targets (snd (register ns sub g)) ns') =
     set (wake_targets g ns') \<union> {s. ns' = ns \<and> sub = Some s}"
  by (cases sub) (auto simp: wake_targets_def register_fields hs_insert_def split: option.splits)

lemma unsubscribe_targets:
  "set (wake_targets (snd (unsubscribe ns sub g)) ns') =
     set (wake_targets g ns') - {s. ns' = ns \<and> s = sub}"
  by (auto simp: wake_targets_def unsubscribe_def hs_remove_def filter_empty_conv split: option.splits)

lemma unsubscribe_simps [simp]:
  "fst (unsubscribe ns sub g) \<longleftrightarrow> sub \<in> set (wake_targets g ns)"
  "known (snd (unsubscribe ns sub g)) = known g"
  "is_known (snd (unsubscribe ns sub g)) ns' \<longleftrightarrow> is_known g ns'"
  by (auto simp: wake_targets_def unsubscribe_def is_known_def hs_remove_def split: option.splits)

lemma register_inv [inv_intros]:
  assumes "registry_inv g"
  shows "registry_inv (snd (register ns sub g))"
proof (rule registry_invI)
  show "distinct (known (snd (register ns sub g)))" "hm_wf (subs (snd (register ns sub g)))"
    using registry_inv_simps [OF assms] by (simp_all add: register_fields split: option.split)
  fix ns' s
  assume s: "hm_get (subs (snd (register ns sub g))) ns' = Some s"
  show "s \<noteq> [] \<and> distinct s \<and> is_known (snd (register ns sub g)) ns'"
  proof (cases "ns' = ns \<and> sub \<noteq> None")
    case True
    then obtain y where y: "ns' = ns" "sub = Some y" by auto
    show ?thesis
    proof (cases "hm_get (subs g) ns")
      case None
      with s y show ?thesis by (auto simp: register_fields hs_insert_def)
    next
      case (Some w)
      with s y registry_inv_sets [OF Some assms] show ?thesis
        by (auto simp: register_fields)
    qed
  next
    case False
    then have "hm_get (subs g) ns' = Some s"
      using s by (auto simp: register_fields split: option.splits if_splits)
    then show ?thesis
      using assms by (auto dest: registry_inv_sets)
  qed
qed

lemma unsubscribe_inv [inv_intros]:
  assumes "registry_inv g"
  shows "registry_inv (snd (unsubscribe ns sub g))"
proof (rule registry_invI)
  show "distinct (known (snd (unsubscribe ns sub g)))" "hm_wf (subs (snd (unsubscribe ns sub g)))"
    using registry_inv_simps [OF assms]
    by (auto simp: unsubscribe_def hs_remove_def split: option.split)
  fix ns' s
  assume s: "hm_get (subs (snd (unsubscribe ns sub g))) ns' = Some s"
  show "s \<noteq> [] \<and> distinct s \<and> is_known (snd (unsubscribe ns sub g)) ns'"
    using s assms
    by (cases "hm_get (subs g) ns")
      (auto simp: unsubscribe_def hs_remove_def is_known_subs dest: registry_inv_sets split: if_splits)
qed

section \<open>The contract\<close>

record grants =
  granted :: "namespace_id set"
  pairs :: "(namespace_id \<times> push_subscription) set"

definition grants_of :: "namespace_registry \<Rightarrow> grants" where
  "grants_of g = \<lparr>granted = set (known g), pairs = {(ns, s). s \<in> set (wake_targets g ns)}\<rparr>"

definition grant :: "namespace_id \<Rightarrow> push_subscription option \<Rightarrow> grants \<Rightarrow> grants" where
  "grant ns sub a =
     \<lparr>granted = insert ns (granted a), pairs = pairs a \<union> {(n, s). n = ns \<and> sub = Some s}\<rparr>"

definition revoke :: "namespace_id \<Rightarrow> push_subscription \<Rightarrow> grants \<Rightarrow> grants" where
  "revoke ns sub a = a\<lparr>pairs := pairs a - {(ns, sub)}\<rparr>"

locale wake_registry =
  fixes inv :: "'r \<Rightarrow> bool"
    and abs :: "'r \<Rightarrow> grants"
    and reg :: "namespace_id \<Rightarrow> push_subscription option \<Rightarrow> 'r \<Rightarrow> bool \<times> 'r"
    and unsub :: "namespace_id \<Rightarrow> push_subscription \<Rightarrow> 'r \<Rightarrow> bool \<times> 'r"
    and tgts :: "'r \<Rightarrow> namespace_id \<Rightarrow> push_subscription list"
  assumes abs_reg: "abs (snd (reg ns sub g)) = grant ns sub (abs g)"
    and new_reg: "fst (reg ns sub g) \<longleftrightarrow> ns \<notin> granted (abs g)"
    and abs_unsub: "abs (snd (unsub ns s g)) = revoke ns s (abs g)"
    and found_unsub: "fst (unsub ns s g) \<longleftrightarrow> (ns, s) \<in> pairs (abs g)"
    and tgts_abs: "set (tgts g ns) = {s. (ns, s) \<in> pairs (abs g)}"
    and tgts_distinct: "inv g \<Longrightarrow> distinct (tgts g ns)"
    and inv_reg: "inv g \<Longrightarrow> inv (snd (reg ns sub g))"
    and inv_unsub: "inv g \<Longrightarrow> inv (snd (unsub ns s g))"
begin

lemma first_once: "\<not> fst (reg ns sub' (snd (reg ns sub g)))"
  by (simp add: new_reg abs_reg grant_def)

lemma resubscribe: "abs (snd (reg ns sub (snd (reg ns sub g)))) = abs (snd (reg ns sub g))"
  by (simp add: abs_reg grant_def)

lemma unsub_keeps_grants: "granted (abs (snd (unsub ns s g))) = granted (abs g)"
  by (simp add: abs_unsub revoke_def)

lemma unsub_stops_wake: "s \<notin> set (tgts (snd (unsub ns s g)) ns)"
  by (simp add: tgts_abs abs_unsub revoke_def)

lemma number_of_targets: "inv g \<Longrightarrow> length (tgts g ns) = card {s. (ns, s) \<in> pairs (abs g)}"
  by (metis distinct_card tgts_abs tgts_distinct)

end

interpretation wr: wake_registry registry_inv grants_of register unsubscribe wake_targets
proof
  fix ns sub s g
  show "grants_of (snd (register ns sub g)) = grant ns sub (grants_of g)"
    by (auto simp: grants_of_def grant_def register_targets register_fields)
  show "fst (register ns sub g) \<longleftrightarrow> ns \<notin> granted (grants_of g)"
    by (simp add: grants_of_def is_known_def)
  show "grants_of (snd (unsubscribe ns s g)) = revoke ns s (grants_of g)"
    by (auto simp: grants_of_def revoke_def unsubscribe_targets)
  show "fst (unsubscribe ns s g) \<longleftrightarrow> (ns, s) \<in> pairs (grants_of g)"
    by (simp add: grants_of_def)
  show "set (wake_targets g ns) = {s. (ns, s) \<in> pairs (grants_of g)}"
    by (simp add: grants_of_def)
  show "registry_inv g \<Longrightarrow> distinct (wake_targets g ns)"
    by (auto simp: wake_targets_def dest: registry_inv_sets split: option.split)
qed (rule inv_intros, assumption)+

section \<open>Properties\<close>

text \<open>
  C15. The registry implements its contract: \<open>register\<close> grants the namespace, adds the device if one
  is given and reports whether the namespace is new; \<open>unsubscribe\<close> removes exactly that device,
  reports whether it was there and never withdraws a grant; \<open>wake_targets\<close> lists each device of
  the namespace once.
\<close>

theorem registry_refines_grants:
  assumes "registry_inv g"
  shows "grants_of (snd (register ns sub g)) = grant ns sub (grants_of g)
    \<and> (fst (register ns sub g) \<longleftrightarrow> ns \<notin> granted (grants_of g))
    \<and> grants_of (snd (unsubscribe ns s g)) = revoke ns s (grants_of g)
    \<and> (fst (unsubscribe ns s g) \<longleftrightarrow> (ns, s) \<in> pairs (grants_of g))
    \<and> set (wake_targets g ns) = {s. (ns, s) \<in> pairs (grants_of g)}
    \<and> length (wake_targets g ns) = card {s. (ns, s) \<in> pairs (grants_of g)}
    \<and> registry_inv (snd (register ns sub g)) \<and> registry_inv (snd (unsubscribe ns s g))"
  using wr.number_of_targets [OF assms, of ns] wr.inv_reg [OF assms] wr.inv_unsub [OF assms]
  by (simp add: wr.abs_reg wr.new_reg wr.abs_unsub wr.found_unsub wr.tgts_abs del: register_simps unsubscribe_simps)

text \<open>
  The log rendering of a push subscription cannot correlate devices: it is a function of the
  platform alone.
\<close>

lemma redacted_hides_token: "redacted s = redacted t \<longleftrightarrow> platform s = platform t"
  by (cases "platform s"; cases "platform t") (simp_all add: redacted_def)

theorem registry_refines_grants_witness:
  "wake_targets (snd (register [1] (Some \<lparr>platform = Apns, token = ''t''\<rparr>) new_registry)) [1]
     = [\<lparr>platform = Apns, token = ''t''\<rparr>]
   \<and> fst (register [1] (Some \<lparr>platform = Apns, token = ''t''\<rparr>) new_registry)"
  using registry_refines_grants [OF new_registry_inv, of "[1]" "Some \<lparr>platform = Apns, token = ''t''\<rparr>"]
  by (simp add: register_def new_registry_def wake_targets_def hs_insert_def hm_upsert_def hm_insert_def
      grants_of_def)

end
