(* ===== verification/Api.thy ===== *)
theory Api
  imports Subscriptions
begin

text \<open>
  \<open>rust/src/api.rs\<close>: the request shapes of the control API and their validation. The lemmas give
  the outcome of \<open>validate_register\<close> on every branch and show that \<open>parse_namespace_hex\<close> is the
  inverse of the hex rendering of a namespace id.
\<close>

definition MAX_TICKET_LEN :: nat where "MAX_TICKET_LEN = 4096"
definition MAX_TOKEN_LEN :: nat where "MAX_TOKEN_LEN = 512"
definition MIN_TICKET_LEN :: nat where "MIN_TICKET_LEN = 16"

record register_request =
  read_ticket :: string
  push_token :: "string option"
  req_platform :: "string option"

record valid_register =
  valid_ticket :: string
  subscription :: "push_subscription option"

datatype api_error = BadTicket | BadToken | BadPlatform | IncompletePush | BadNamespace

text \<open>The messages of the \<open>thiserror\<close> attributes.\<close>

fun api_error_string :: "api_error \<Rightarrow> string" where
  "api_error_string BadTicket = ''read ticket missing or malformed''"
| "api_error_string BadToken = ''push token missing or too long''"
| "api_error_string BadPlatform = ''platform must be '' @ [CHR 0x27] @ ''apns'' @ [CHR 0x27] @ '' or '' @ [CHR 0x27]
     @ ''fcm'' @ [CHR 0x27]"
| "api_error_string IncompletePush = ''push token and platform must be provided together''"
| "api_error_string BadNamespace = ''namespace id must be 64 lowercase hex characters''"

definition parse_platform :: "string \<Rightarrow> platform option" where
  "parse_platform s =
     (if s = ''apns'' then Some Apns else if s = ''fcm'' then Some Fcm else None)"

definition looks_like_ticket :: "string \<Rightarrow> bool" where
  "looks_like_ticket s \<longleftrightarrow>
     MIN_TICKET_LEN \<le> length s \<and> length s \<le> MAX_TICKET_LEN \<and>
     list_all is_ascii_alphanumeric (as_bytes s)"

definition validate_register :: "register_request \<Rightarrow> (api_error, valid_register) result" where
  "validate_register req =
     (let ticket = trim (read_ticket req) in
      if \<not> looks_like_ticket ticket then Err BadTicket
      else
        (case (push_token req, req_platform req) of
           (None, None) \<Rightarrow> Ok \<lparr>valid_ticket = ticket, subscription = None\<rparr>
         | (Some tok, Some plat) \<Rightarrow>
             (let tok = trim tok in
              if tok = [] \<or> MAX_TOKEN_LEN < length tok then Err BadToken
              else (case parse_platform plat of
                      None \<Rightarrow> Err BadPlatform
                    | Some p \<Rightarrow> Ok \<lparr>valid_ticket = ticket,
                        subscription = Some \<lparr>platform = p, token = tok\<rparr>\<rparr>))
         | _ \<Rightarrow> Err IncompletePush))"

definition lower_hex_val :: "u8 \<Rightarrow> u8 option" where
  "lower_hex_val b =
     (if 48 \<le> b \<and> b \<le> 57 then Some (b - 48)
      else if 97 \<le> b \<and> b \<le> 102 then Some (b - 97 + 10)
      else None)"

text \<open>The loop over the 32 output bytes; round \<open>i\<close> reads the input bytes \<open>2 * i\<close> and \<open>2 * i + 1\<close>.\<close>

fun lower_hex_loop :: "bytes \<Rightarrow> bytes option" where
  "lower_hex_loop (h # l # rest) =
     (case lower_hex_val h of None \<Rightarrow> None | Some hi \<Rightarrow>
      (case lower_hex_val l of None \<Rightarrow> None | Some lo \<Rightarrow>
       map_option (\<lambda>out. (push_bit 4 hi OR lo) # out) (lower_hex_loop rest)))"
| "lower_hex_loop _ = Some []"

definition parse_namespace_hex :: "string \<Rightarrow> (api_error, namespace_id) result" where
  "parse_namespace_hex s =
     (if length s \<noteq> 64 then Err BadNamespace
      else ok_or BadNamespace (lower_hex_loop (as_bytes s)))"

section \<open>Hex parsing\<close>

lemma lower_hex_val_hex_digit: "n < 16 \<Longrightarrow> lower_hex_val (chr_byte (hex_digit n)) = Some (of_nat n)"
  by (erule nibble_cases) (simp_all add: chr_byte_hex_digit lower_hex_val_def)

lemma lower_hex_val_Some:
  "lower_hex_val b = Some v \<longleftrightarrow> unat v < 16 \<and> b = chr_byte (hex_digit (unat v))"
proof
  assume r: "unat v < 16 \<and> b = chr_byte (hex_digit (unat v))"
  then show "lower_hex_val b = Some v"
    using lower_hex_val_hex_digit [of "unat v"] by simp
next
  assume l: "lower_hex_val b = Some v"
  have r: "48 \<le> unat b \<and> unat b \<le> 57 \<and> unat v = unat b - 48 \<or>
      97 \<le> unat b \<and> unat b \<le> 102 \<and> unat v = unat b - 87"
    using l by (auto simp: lower_hex_val_def word_le_nat_alt unat_sub_if' unat_word_ariths split: if_splits)
  then have lt: "unat v < 16" by auto
  have "unat (chr_byte (hex_digit (unat v))) = unat b"
    using r lt chr_byte_hex_digit [OF lt]
    by (simp only:) (auto simp: unat_of_nat simp del: of_nat_add)
  then show "unat v < 16 \<and> b = chr_byte (hex_digit (unat v))"
    using lt by (simp add: word_unat_eq_iff del: unat_chr_byte)
qed

lemma nibbles_unique:
  assumes "unat h < 16" "unat l < 16"
  shows "unat (push_bit 4 h OR l :: u8) div 16 = unat h" "unat (push_bit 4 h OR l :: u8) mod 16 = unat l"
proof -
  have "(push_bit 4 h OR l) = of_nat (16 * unat h + unat l)"
    using nibble_combine [OF assms, where 'a = 8] by simp
  moreover have "16 * unat h + unat l < 256" using assms by linarith
  ultimately have "unat (push_bit 4 h OR l) = 16 * unat h + unat l"
    by (simp add: unat_of_nat take_bit_nat_eq_self del: of_nat_add of_nat_mult)
  then show "unat (push_bit 4 h OR l) div 16 = unat h" "unat (push_bit 4 h OR l) mod 16 = unat l"
    using assms by auto
qed

lemma lower_hex_loop_iff:
  "even (length bs) \<Longrightarrow> lower_hex_loop bs = Some a \<longleftrightarrow> bs = as_bytes (fmt_hex a)"
proof (induction bs arbitrary: a rule: lower_hex_loop.induct)
  case (1 h l rest)
  show ?case
  proof
    assume "lower_hex_loop (h # l # rest) = Some a"
    then obtain hi lo out where d: "lower_hex_val h = Some hi" "lower_hex_val l = Some lo"
      and out: "lower_hex_loop rest = Some out" and a: "a = (push_bit 4 hi OR lo) # out"
      by (auto split: option.splits)
    have "rest = as_bytes (fmt_hex out)"
      using 1(1) [OF d, of out] 1(2) out by simp
    then show "h # l # rest = as_bytes (fmt_hex a)"
      using d nibbles_unique [of hi lo] by (simp add: a fmt_02x_def lower_hex_val_Some)
  next
    assume eq: "h # l # rest = as_bytes (fmt_hex a)"
    then obtain b out where a: "a = b # out" by (cases a) auto
    have lt: "unat b div 16 < 16" "unat b mod 16 < 16"
      using unat_u8_bound [of b] by auto
    have d: "lower_hex_val h = Some (of_nat (unat b div 16))" "lower_hex_val l = Some (of_nat (unat b mod 16))"
      using eq lt by (auto simp: a fmt_02x_def lower_hex_val_Some unat_of_nat take_bit_nat_eq_self)
    have "lower_hex_loop rest = Some out"
      using 1(1) [OF d] 1(2) eq by (simp add: a fmt_02x_def)
    moreover have "push_bit 4 (of_nat (unat b div 16)) OR of_nat (unat b mod 16) = b"
      using nibble_combine [OF lt, where 'a = 8] by (simp only:) (simp del: of_nat_add of_nat_mult)
    ultimately show "lower_hex_loop (h # l # rest) = Some a"
      using d by (simp add: a)
  qed
qed (auto simp: fmt_02x_def dest: sym [of "[]"])

lemma parse_namespace_hex_iff:
  "parse_namespace_hex s = Ok ns \<longleftrightarrow> length ns = 32 \<and> s = fmt_hex ns"
proof -
  have "lower_hex_loop (as_bytes s) = Some ns \<longleftrightarrow> s = fmt_hex ns" if "length s = 64"
    using that lower_hex_loop_iff [of "as_bytes s" ns] by simp
  then show ?thesis
    by (auto simp: parse_namespace_hex_def ok_or_def split: option.splits)
qed

lemma parse_namespace_hex_Err:
  "parse_namespace_hex s = Err e \<longleftrightarrow> e = BadNamespace \<and> (\<forall>ns. parse_namespace_hex s \<noteq> Ok ns)"
  by (auto simp: parse_namespace_hex_def ok_or_def split: option.splits if_splits)

section \<open>Validation\<close>

lemma looks_like_ticket_length: "looks_like_ticket t \<Longrightarrow> 16 \<le> length t \<and> length t \<le> 4096"
  by (simp add: looks_like_ticket_def MIN_TICKET_LEN_def MAX_TICKET_LEN_def)

lemma parse_platform_Some: "parse_platform s = Some p \<longleftrightarrow> s = platform_as_str p"
  by (cases p) (auto simp: parse_platform_def)

lemma platform_str_simps [simp]:
  "parse_platform (platform_as_str p) = Some p"
  "platform_as_str p = platform_as_str q \<longleftrightarrow> p = q"
  by (cases p; cases q; simp add: parse_platform_def)+

section \<open>Properties\<close>

text \<open>
  Path segments and namespace ids correspond one to one: a segment parses to an id exactly when
  the id has 32 bytes and the segment is its 64-character lowercase hex rendering, and every other
  segment is refused with \<open>BadNamespace\<close>.
\<close>

lemma namespace_hex_bijective:
  "(parse_namespace_hex s = Ok ns \<longleftrightarrow> length ns = 32 \<and> s = fmt_hex ns) \<and>
   (parse_namespace_hex s = Err e \<longleftrightarrow> e = BadNamespace \<and> \<not> (\<exists>n. length n = 32 \<and> s = fmt_hex n))"
  by (simp add: parse_namespace_hex_iff parse_namespace_hex_Err)

text \<open>
  A registration is accepted exactly when its trimmed ticket is 16 to 4096 ASCII
  alphanumerics and push token and platform are both absent or both present, the token of 1 to 512
  bytes after trimming and the platform \<open>apns\<close> or \<open>fcm\<close>; the accepted value carries the trimmed
  strings and that subscription.
\<close>

lemma validate_register_Ok:
  "validate_register req = Ok v \<longleftrightarrow>
     looks_like_ticket (trim (read_ticket req)) \<and> valid_ticket v = trim (read_ticket req) \<and>
     (push_token req = None \<and> req_platform req = None \<and> subscription v = None \<or>
      (\<exists>tok p. push_token req = Some tok \<and> req_platform req = Some (platform_as_str p) \<and>
         1 \<le> length (trim tok) \<and> length (trim tok) \<le> 512 \<and>
         subscription v = Some \<lparr>platform = p, token = trim tok\<rparr>))"
  by (cases "push_token req"; cases "req_platform req"; cases v)
    (auto simp: validate_register_def Let_def MAX_TOKEN_LEN_def parse_platform_Some Suc_le_eq
      split: option.splits)

text \<open>
  The order of the refusals: a bad ticket is reported before anything else, then push fields of
  which only one is present, then an empty or oversized token, then an unknown platform; a
  namespace error never comes out of the validation.
\<close>

lemma validate_register_Err:
  "validate_register req = Err e \<longleftrightarrow>
     (if \<not> looks_like_ticket (trim (read_ticket req)) then e = BadTicket
      else if (push_token req = None) \<noteq> (req_platform req = None) then e = IncompletePush
      else (\<exists>tok plat. push_token req = Some tok \<and> req_platform req = Some plat \<and>
        (if trim tok = [] \<or> 512 < length (trim tok) then e = BadToken
         else e = BadPlatform \<and> (\<forall>p. plat \<noteq> platform_as_str p))))"
  by (cases "push_token req"; cases "req_platform req")
    (auto simp: validate_register_def Let_def MAX_TOKEN_LEN_def parse_platform_Some
      split: option.splits)

end
