(* ===== verification/Mls.thy ===== *)
theory Mls
  imports Prelude
begin

text \<open>
  \<open>rust/src/mls.rs\<close>: the delivery-service seam. A delivery service is the function \<open>admit\<close> of its
  trait; the shipped one accepts every envelope unchanged.
\<close>

record envelope_ref =
  env_namespace :: namespace_id
  env_author :: bytes
  env_seq :: u64
  env_bytes :: bytes

datatype admission = Accept | Reject string

type_synonym delivery_service = "envelope_ref \<Rightarrow> admission"

definition passthrough_delivery :: delivery_service where
  "passthrough_delivery envelope = Accept"

definition default_delivery :: delivery_service where
  "default_delivery = passthrough_delivery"

end
