(* ===== verification/Push.thy ===== *)
theory Push
  imports Subscriptions
begin

text \<open>
  \<open>rust/src/push.rs\<close>, \<open>rust/src/waker.rs\<close> and the waker selection of \<open>rust/src/bin/trail-stash.rs\<close>:
  the silent push requests, and which of them a wake sends. A JSON body is the tree the
  \<open>json!\<close> literal writes down; the HTTP client and the token minting are outside.
\<close>

datatype json = JNum nat | JStr string | JObj "(string \<times> json) list"

text \<open>Member access, \<open>body[k]\<close> for a key that may be absent, and along a path.\<close>

fun json_get :: "json \<Rightarrow> string \<Rightarrow> json option" where
  "json_get (JObj ms) k = map_of ms k"
| "json_get _ k = None"

fun json_path :: "json \<Rightarrow> string list \<Rightarrow> json option" where
  "json_path j [] = Some j"
| "json_path j (k # ks) = (case json_get j k of None \<Rightarrow> None | Some j' \<Rightarrow> json_path j' ks)"

record push_request =
  url :: string
  headers :: "(string \<times> string) list"
  body :: json

definition PUSH_TYPE :: string where
  "PUSH_TYPE = ''trail-sync''"

definition namespace_hex :: "namespace_id \<Rightarrow> string" where
  "namespace_hex ns = foldl (\<lambda>s b. s @ fmt_02x b) [] ns"

definition apns_request :: "string \<Rightarrow> string \<Rightarrow> string \<Rightarrow> namespace_id \<Rightarrow> push_request" where
  "apns_request host bundle_id device_token ns =
     \<lparr>url = ''https://'' @ host @ ''/3/device/'' @ device_token,
      headers = [(''apns-push-type'', ''background''), (''apns-priority'', ''5''),
                 (''apns-topic'', bundle_id), (''apns-expiration'', ''0'')],
      body = JObj [(''aps'', JObj [(''content-available'', JNum 1)]),
                   (''type'', JStr PUSH_TYPE),
                   (''ns'', JStr (namespace_hex ns))]\<rparr>"

definition fcm_request :: "string \<Rightarrow> string \<Rightarrow> namespace_id \<Rightarrow> push_request" where
  "fcm_request project_id device_token ns =
     (let ns_hex = namespace_hex ns in
      \<lparr>url = ''https://fcm.googleapis.com/v1/projects/'' @ project_id @ ''/messages:send'',
       headers = [],
       body = JObj [(''message'', JObj [
         (''token'', JStr device_token),
         (''data'', JObj [(''type'', JStr PUSH_TYPE), (''ns'', JStr ns_hex)]),
         (''android'', JObj [(''priority'', JStr ''high'')]),
         (''apns'', JObj [
           (''headers'', JObj [(''apns-push-type'', JStr ''background''), (''apns-priority'', JStr ''5'')]),
           (''payload'', JObj [(''aps'', JObj [(''content-available'', JNum 1)])])])])]\<rparr>)"

section \<open>The waker\<close>

record push_config =
  apns_host :: string
  bundle_id :: string
  fcm_project_id :: string

text \<open>What a \<open>PushCredentials\<close> supplies at send time.\<close>

record push_credentials =
  apns_bearer :: "string option"
  fcm_bearer :: "string option"

definition env_credentials :: "(string \<Rightarrow> string option) \<Rightarrow> push_credentials" where
  "env_credentials env =
     \<lparr>apns_bearer = option_filter (\<lambda>s. s \<noteq> []) (env ''APNS_BEARER''),
      fcm_bearer = option_filter (\<lambda>s. s \<noteq> []) (env ''FCM_BEARER'')\<rparr>"

definition build :: "push_config \<Rightarrow> push_credentials \<Rightarrow> namespace_id \<Rightarrow> push_subscription \<Rightarrow>
    (push_request \<times> string) option" where
  "build cfg creds ns sub =
     (case platform sub of
        Apns \<Rightarrow> map_option (Pair (apns_request (apns_host cfg) (bundle_id cfg) (token sub) ns))
          (apns_bearer creds)
      | Fcm \<Rightarrow> map_option (Pair (fcm_request (fcm_project_id cfg) (token sub) ns)) (fcm_bearer creds))"

text \<open>
  One iteration of \<open>HttpPushWaker::wake\<close>: a warning when there is no credential, otherwise a spawned
  POST of the request with its bearer; \<open>redacted\<close> is what later log lines about it name.
\<close>

datatype wake_event =
    NoCredential string
  | Sent push_request (bearer: string) (log_name: string)

definition wake_one :: "push_config \<Rightarrow> push_credentials \<Rightarrow> namespace_id \<Rightarrow> push_subscription \<Rightarrow> wake_event" where
  "wake_one cfg creds ns sub =
     (case build cfg creds ns sub of
        None \<Rightarrow> NoCredential (''stash: no push credential for '' @ redacted sub)
      | Some (req, b) \<Rightarrow> Sent req b (redacted sub))"

datatype waker = NoopWaker | HttpPushWaker push_config

fun wake :: "waker \<Rightarrow> push_credentials \<Rightarrow> namespace_id \<Rightarrow> push_subscription list \<Rightarrow> wake_event list" where
  "wake NoopWaker creds ns targets = []"
| "wake (HttpPushWaker cfg) creds ns targets = map (wake_one cfg creds ns) targets"

text \<open>\<open>build_waker\<close> of the binary.\<close>

definition build_waker :: "(string \<Rightarrow> string option) \<Rightarrow> waker" where
  "build_waker env =
     (let bid = option_filter (\<lambda>s. s \<noteq> []) (env ''APNS_BUNDLE_ID'');
          fcm = option_filter (\<lambda>s. s \<noteq> []) (env ''FCM_PROJECT_ID'')
      in if bid = None \<and> fcm = None then NoopWaker
         else HttpPushWaker
           \<lparr>apns_host = unwrap_or ''api.push.apple.com'' (env ''APNS_HOST''),
            bundle_id = unwrap_or [] bid, fcm_project_id = unwrap_or [] fcm\<rparr>)"

section \<open>Lemmas\<close>

definition bearer_for :: "push_credentials \<Rightarrow> platform \<Rightarrow> string option" where
  "bearer_for creds p = (case p of Apns \<Rightarrow> apns_bearer creds | Fcm \<Rightarrow> fcm_bearer creds)"

lemma namespace_hex_fmt: "namespace_hex ns = fmt_hex ns"
proof -
  have "foldl (\<lambda>s b. s @ fmt_02x b) acc ns = acc @ fmt_hex ns" for acc
    by (induction ns arbitrary: acc) simp_all
  then show ?thesis by (simp add: namespace_hex_def)
qed

lemma hex_digit_inject: "m < 16 \<Longrightarrow> n < 16 \<Longrightarrow> hex_digit m = hex_digit n \<longleftrightarrow> m = n"
proof
  assume lt: "m < 16" "n < 16" and eq: "hex_digit m = hex_digit n"
  have "(of_nat m :: u32) = of_nat n"
    using to_digit_16_hex_digit [OF lt(1)] to_digit_16_hex_digit [OF lt(2)] by (simp only: eq option.inject)
  then have "unat (of_nat m :: u32) = unat (of_nat n :: u32)" by (simp only:)
  then show "m = n" using lt by (simp add: unat_of_nat take_bit_nat_eq_self)
qed simp

lemma fmt_02x_inject: "fmt_02x a = fmt_02x b \<longleftrightarrow> a = b"
proof
  have lt: "unat x div 16 < 16 \<and> unat x mod 16 < 16" for x :: u8
    using unat_u8_bound [of x] by auto
  assume "fmt_02x a = fmt_02x b"
  then have "unat a div 16 = unat b div 16" "unat a mod 16 = unat b mod 16"
    using lt by (auto simp: fmt_02x_def hex_digit_inject)
  then have "unat a = unat b"
    by (metis div_mult_mod_eq)
  then show "a = b" by (simp add: word_unat_eq_iff)
qed simp

lemma fmt_hex_inject: "fmt_hex a = fmt_hex b \<longleftrightarrow> a = b"
proof (induction a arbitrary: b)
  case Nil
  then show ?case by (metis fmt_hex_simps(1,3))
next
  case (Cons x a)
  then show ?case
  proof (cases b)
    case Nil
    then show ?thesis by (simp add: fmt_02x_def)
  next
    case (Cons y b')
    then show ?thesis
      using Cons.IH [of b'] by (simp add: fmt_02x_inject)
  qed
qed

section \<open>Properties\<close>

text \<open>
  A push is silent and blind. The APNs request is a background push of priority 5 that is not
  stored, its body wakes the app without an alert or a sound, and what the body says is exactly
  the namespace: two bodies are equal just when the namespaces are.
\<close>

lemma apns_request_silent_and_blind:
  "map_of (headers (apns_request host bid tok ns)) ''apns-push-type'' = Some ''background''
   \<and> map_of (headers (apns_request host bid tok ns)) ''apns-priority'' = Some ''5''
   \<and> map_of (headers (apns_request host bid tok ns)) ''apns-expiration'' = Some ''0''
   \<and> json_path (body (apns_request host bid tok ns)) [''aps'', ''content-available''] = Some (JNum 1)
   \<and> json_path (body (apns_request host bid tok ns)) [''aps'', ''alert''] = None
   \<and> json_path (body (apns_request host bid tok ns)) [''aps'', ''sound''] = None
   \<and> json_path (body (apns_request host bid tok ns)) [''ns''] = Some (JStr (fmt_hex ns))
   \<and> (body (apns_request host bid tok ns) = body (apns_request host' bid' tok' ns') \<longleftrightarrow> ns = ns')"
  by (simp add: apns_request_def namespace_hex_fmt fmt_hex_inject)

text \<open>
  The FCM message is data-only with high priority: it has no notification block, and its body is
  determined by the device token and the namespace.
\<close>

lemma fcm_request_data_only:
  "json_path (body (fcm_request proj tok ns)) [''message'', ''notification''] = None
   \<and> json_path (body (fcm_request proj tok ns)) [''message'', ''android'', ''priority''] = Some (JStr ''high'')
   \<and> json_path (body (fcm_request proj tok ns)) [''message'', ''data'', ''ns''] = Some (JStr (fmt_hex ns))
   \<and> (body (fcm_request proj tok ns) = body (fcm_request proj' tok' ns') \<longleftrightarrow> tok = tok' \<and> ns = ns')"
  by (simp add: fcm_request_def namespace_hex_fmt fmt_hex_inject)

text \<open>
  A wake reports on every target once and in order. A target whose platform has no credential
  yields the warning and nothing is sent; any other is sent its request, APNs to the device's own
  path and FCM with the device's own token, under that platform's bearer. What is logged about it
  is the platform and a fixed text: the token never reaches a log line.
\<close>

lemma wake_sends_to_each_target:
  assumes "i < length targets" "s = targets ! i"
  shows "length (wake (HttpPushWaker cfg) creds ns targets) = length targets
   \<and> (case bearer_for creds (platform s) of
        None \<Rightarrow> wake (HttpPushWaker cfg) creds ns targets ! i = NoCredential
          (''stash: no push credential for '' @ platform_as_str (platform s) @ '':[REDACTED]'')
      | Some b \<Rightarrow> \<exists>r. wake (HttpPushWaker cfg) creds ns targets ! i =
            Sent r b (platform_as_str (platform s) @ '':[REDACTED]'')
          \<and> (platform s = Apns \<longrightarrow> url r = ''https://'' @ apns_host cfg @ ''/3/device/'' @ token s)
          \<and> (platform s = Fcm \<longrightarrow> json_path (body r) [''message'', ''token''] = Some (JStr (token s))))"
proof -
  have "wake (HttpPushWaker cfg) creds ns targets ! i = wake_one cfg creds ns s"
    using assms by simp
  then show ?thesis
    by (cases "platform s")
      (auto simp: wake_one_def build_def bearer_for_def redacted_def apns_request_def fcm_request_def
        Let_def split: option.split)
qed

end
