(* ===== verification/Node_State.thy ===== *)
theory Node_State
  imports Retention Content Api Mls Push
begin

text \<open>
  \<open>rust/src/node.rs\<close>, first part: the state of \<open>StashNode\<close>, the externals it runs on, content reads
  and uploads, and registration.

  The iroh crates are parameters. \<open>blob_api\<close> holds the operations of the blob store the node calls,
  over a store state of any type; \<open>docs_api\<close> those of the docs engine, over any handle type.
  \<open>blob_laws\<close> states the documented behaviour of the store that the node relies on.
\<close>

section \<open>Constants and clocks\<close>

definition WAKE_FALLBACK_MS :: u64 where
  "WAKE_FALLBACK_MS = 30000"

text \<open>iroh-docs stamps microseconds.\<close>

definition entry_written_ms :: "u64 \<Rightarrow> u64" where
  "entry_written_ms timestamp = timestamp div 1000"

datatype put_outcome = Stored | UnknownNamespace | UntrackedHash | HashMismatch

section \<open>Externals\<close>

record 'b blob_api =
  blob_has :: "'b \<Rightarrow> content_hash \<Rightarrow> bool option"
  blob_get :: "'b \<Rightarrow> content_hash \<Rightarrow> bytes option"
  blob_add :: "bytes \<Rightarrow> 'b \<Rightarrow> (string, content_hash) result \<times> 'b"
  hash_new :: "bytes \<Rightarrow> content_hash"

text \<open>
  The store answers \<open>has\<close> truthfully (or fails), adding bytes makes them readable under their own
  hash and removes nothing.
\<close>

definition blob_laws :: "'b blob_api \<Rightarrow> bool" where
  "blob_laws api \<longleftrightarrow>
     (\<forall>s h. blob_has api s h = Some True \<longrightarrow> blob_get api s h \<noteq> None) \<and>
     (\<forall>b s h s'. blob_add api b s = (Ok h, s') \<longrightarrow> h = hash_new api b \<and> blob_get api s' h = Some b) \<and>
     (\<forall>b s h. blob_get api s h \<noteq> None \<longrightarrow> blob_get api (snd (blob_add api b s)) h \<noteq> None)"

record 'd docs_api =
  parse_ticket :: "string \<Rightarrow> (string, namespace_id) result"
  import_namespace :: "namespace_id \<Rightarrow> (string, 'd) result"
  start_sync :: "'d \<Rightarrow> endpoint_id list \<Rightarrow> (string, unit) result"

section \<open>State\<close>

record tracked_entry =
  entry_namespace :: namespace_id
  entry_author :: bytes
  delivered_by :: endpoint_id
  entry_seq :: u64
  first_seen_ms :: u64
  content_present :: bool
  woken :: bool
  next_attempt_ms :: u64
  attempts :: u32

definition backoff_ms :: "u32 \<Rightarrow> u64" where
  "backoff_ms n =
     (let ms = sat_mul 500 (push_bit (unat (min n 7)) 1) in if 60000 < ms then 60000 else ms)"

text \<open>
  \<open>watchers\<close> lists the namespaces for which a watch task has been spawned; the other fields are
  those of the struct.
\<close>

record ('d, 'b) stash_node =
  blobs :: 'b
  registry :: namespace_registry
  node_retention :: retention_policy
  handles :: "(namespace_id, 'd) hmap"
  content :: content_index
  tracked :: "(content_hash, tracked_entry) hmap"
  watchers :: "namespace_id list"

definition spawn :: "retention_policy \<Rightarrow> 'b \<Rightarrow> ('d, 'b) stash_node" where
  "spawn policy store =
     \<lparr>blobs = store, registry = new_registry, node_retention = policy, handles = [],
      content = new_index, tracked = [], watchers = []\<rparr>"

text \<open>The collector's callback: every referenced hash is added to the live set.\<close>

definition protect :: "('d, 'b) stash_node \<Rightarrow> content_hash hset \<Rightarrow> content_hash hset" where
  "protect node live = fold (\<lambda>h l. snd (hs_insert h l)) (referenced (content node)) live"

section \<open>Content\<close>

definition content_stats :: "('d, 'b) stash_node \<Rightarrow> nat \<times> nat" where
  "content_stats node = (missing_count (content node), tracked_count (content node))"

definition content_bytes ::
    "'b blob_api \<Rightarrow> ('d, 'b) stash_node \<Rightarrow> namespace_id \<Rightarrow> content_hash \<Rightarrow> bytes option" where
  "content_bytes api node ns hash =
     (if \<not> is_present_for (content node) ns hash then None
      else blob_get api (blobs node) hash)"

definition put_content ::
    "'b blob_api \<Rightarrow> namespace_id \<Rightarrow> content_hash \<Rightarrow> bytes \<Rightarrow> ('d, 'b) stash_node \<Rightarrow>
     (string, put_outcome) result \<times> ('d, 'b) stash_node" where
  "put_content api ns expected bytes node =
     (if \<not> is_known (registry node) ns then (Ok UnknownNamespace, node)
      else if \<not> is_tracked_for (content node) ns expected then (Ok UntrackedHash, node)
      else if hash_new api bytes \<noteq> expected then (Ok HashMismatch, node)
      else (let (added, store) = blob_add api bytes (blobs node); node1 = node\<lparr>blobs := store\<rparr> in
        (case added of
           Err e \<Rightarrow> (Err e, node1)
         | Ok tag_hash \<Rightarrow>
             if tag_hash \<noteq> expected then (Ok HashMismatch, node1)
             else (Ok Stored, node1\<lparr>content := mark_present expected (content node1)\<rparr>))))"

section \<open>Registration\<close>

text \<open>The registry update and the spawn of the watch task, once the document handle is there.\<close>

definition finish_register :: "namespace_id \<Rightarrow> push_subscription option \<Rightarrow> ('d, 'b) stash_node \<Rightarrow>
    ('d, 'b) stash_node" where
  "finish_register ns sub node =
     (let (first, reg) = register ns sub (registry node)
      in node\<lparr>registry := reg, watchers := (if first then watchers node @ [ns] else watchers node)\<rparr>)"

definition node_register ::
    "'d docs_api \<Rightarrow> string \<Rightarrow> push_subscription option \<Rightarrow> ('d, 'b) stash_node \<Rightarrow>
     (string, namespace_id) result \<times> ('d, 'b) stash_node" where
  "node_register docs ticket sub node =
     (case parse_ticket docs ticket of
        Err e \<Rightarrow> (Err (''parse doc ticket: '' @ e), node)
      | Ok ns \<Rightarrow>
          (case hm_get (handles node) ns of
             Some _ \<Rightarrow> (Ok ns, finish_register ns sub node)
           | None \<Rightarrow>
               (case import_namespace docs ns of
                  Err e \<Rightarrow> (Err (''import namespace capability: '' @ e), node)
                | Ok doc \<Rightarrow>
                    (case start_sync docs doc [] of
                       Err e \<Rightarrow> (Err (''join namespace without bootstrap peers: '' @ e), node)
                     | Ok _ \<Rightarrow> (Ok ns, finish_register ns sub
                         (node\<lparr>handles := hm_insert ns doc (handles node)\<rparr>))))))"

definition node_unsubscribe ::
    "namespace_id \<Rightarrow> push_subscription \<Rightarrow> ('d, 'b) stash_node \<Rightarrow> bool \<times> ('d, 'b) stash_node" where
  "node_unsubscribe ns sub node =
     (let (removed, reg) = unsubscribe ns sub (registry node) in (removed, node\<lparr>registry := reg\<rparr>))"

text \<open>\<open>sync_now\<close>: only a namespace with a handle is dialed.\<close>

definition sync_now :: "'d docs_api \<Rightarrow> namespace_id \<Rightarrow> endpoint_id list \<Rightarrow> ('d, 'b) stash_node \<Rightarrow>
    (string, unit) result" where
  "sync_now docs ns peers node =
     (case hm_get (handles node) ns of None \<Rightarrow> Ok () | Some doc \<Rightarrow> start_sync docs doc peers)"

section \<open>Invariant\<close>

text \<open>
  What every handler keeps: the index and the registry are well formed; there is one watch task for
  each granted namespace and a document handle behind it; content is referenced by granted
  namespaces only; the settle loop tracks exactly the referenced hashes; and an entry flagged as
  present is present in the index and has been woken for.
\<close>

definition node_inv :: "('d, 'b) stash_node \<Rightarrow> bool" where
  "node_inv node \<longleftrightarrow>
     index_inv (content node) \<and> registry_inv (registry node) \<and>
     hm_wf (handles node) \<and> hm_wf (tracked node) \<and>
     distinct (watchers node) \<and> set (watchers node) = set (known (registry node)) \<and>
     set (known (registry node)) \<subseteq> dom (hm_get (handles node)) \<and>
     (\<forall>ns hash. is_tracked_for (content node) ns hash \<longrightarrow> is_known (registry node) ns) \<and>
     dom (hm_get (tracked node)) = {hash. is_tracked (content node) hash} \<and>
     (\<forall>hash t. hm_get (tracked node) hash = Some t \<and> content_present t \<longrightarrow>
        is_present (content node) hash \<and> woken t)"

text \<open>Every hash the index calls present is readable from the store.\<close>

definition servable :: "'b blob_api \<Rightarrow> ('d, 'b) stash_node \<Rightarrow> bool" where
  "servable api node \<longleftrightarrow>
     (\<forall>hash. is_present (content node) hash \<longrightarrow> blob_get api (blobs node) hash \<noteq> None)"

lemma node_invD:
  assumes "node_inv node"
  shows "index_inv (content node)" "registry_inv (registry node)" "hm_wf (handles node)"
    "hm_wf (tracked node)" "distinct (watchers node)"
    "set (watchers node) = set (known (registry node))"
    "set (known (registry node)) \<subseteq> dom (hm_get (handles node))"
    "dom (hm_get (tracked node)) = {hash. is_tracked (content node) hash}"
    "is_tracked_for (content node) ns hash \<Longrightarrow> is_known (registry node) ns"
    "hm_get (tracked node) hash = Some t \<Longrightarrow> content_present t \<Longrightarrow> is_present (content node) hash \<and> woken t"
  using assms unfolding node_inv_def by blast+

lemma tracked_iff:
  assumes "node_inv node"
  shows "hm_get (tracked node) hash \<noteq> None \<longleftrightarrow> is_tracked (content node) hash"
  using node_invD(8) [OF assms] by blast

lemma node_invI:
  assumes "index_inv (content node)" "registry_inv (registry node)" "hm_wf (handles node)"
    and "hm_wf (tracked node)" "distinct (watchers node)"
    and "set (watchers node) = set (known (registry node))"
    and "set (known (registry node)) \<subseteq> dom (hm_get (handles node))"
    and "dom (hm_get (tracked node)) = {hash. is_tracked (content node) hash}"
    and "\<And>ns hash. is_tracked_for (content node) ns hash \<Longrightarrow> is_known (registry node) ns"
    and "\<And>hash t. hm_get (tracked node) hash = Some t \<Longrightarrow> content_present t \<Longrightarrow>
      is_present (content node) hash \<and> woken t"
  shows "node_inv node"
  using assms unfolding node_inv_def by blast

text \<open>An operation on the content tables only.\<close>

lemma node_inv_content:
  assumes "node_inv node" "index_inv (content node')" "hm_wf (tracked node')"
    and "registry node' = registry node" "handles node' = handles node" "watchers node' = watchers node"
    and "\<And>ns hash. is_tracked_for (content node') ns hash \<Longrightarrow> is_known (registry node) ns"
    and "\<And>hash. hm_get (tracked node') hash \<noteq> None \<longleftrightarrow> is_tracked (content node') hash"
    and "\<And>hash t. hm_get (tracked node') hash = Some t \<Longrightarrow> content_present t \<Longrightarrow>
      is_present (content node') hash \<and> woken t"
  shows "node_inv node'"
proof (rule node_invI)
  show "dom (hm_get (tracked node')) = {hash. is_tracked (content node') hash}"
    using assms(8) by blast
qed (use assms node_invD [OF assms(1)] in simp_all)

lemma spawn_fields [simp]:
  "blobs (spawn policy store) = store" "registry (spawn policy store) = new_registry"
  "handles (spawn policy store) = []" "content (spawn policy store) = new_index"
  "tracked (spawn policy store) = []" "watchers (spawn policy store) = []"
  "node_retention (spawn policy store) = policy"
  by (simp_all add: spawn_def)

lemma spawn_inv [inv_intros]: "node_inv (spawn policy store)"
  by (simp add: node_inv_def spawn_def) (simp add: new_registry_def)

section \<open>Registration keeps the invariant\<close>

lemma finish_register_fields:
  "content (finish_register ns sub node) = content node"
  "tracked (finish_register ns sub node) = tracked node"
  "blobs (finish_register ns sub node) = blobs node"
  "handles (finish_register ns sub node) = handles node"
  "node_retention (finish_register ns sub node) = node_retention node"
  "registry (finish_register ns sub node) = snd (register ns sub (registry node))"
  "watchers (finish_register ns sub node) =
     (if is_known (registry node) ns then watchers node else watchers node @ [ns])"
  by (simp_all add: finish_register_def split_beta)

lemma finish_register_inv:
  assumes "node_inv node" "hm_get (handles node) ns \<noteq> None"
  shows "node_inv (finish_register ns sub node)"
proof (rule node_invI)
  note inv = node_invD [OF assms(1)]
  show "registry_inv (registry (finish_register ns sub node))"
    using inv(2) by (simp add: finish_register_fields inv_intros)
  show "distinct (watchers (finish_register ns sub node))"
    using inv(5,6) by (auto simp: finish_register_fields is_known_def)
  show "set (watchers (finish_register ns sub node)) = set (known (registry (finish_register ns sub node)))"
    using inv(6) by (auto simp: finish_register_fields is_known_def register_fields)
  show "set (known (registry (finish_register ns sub node))) \<subseteq> dom (hm_get (handles (finish_register ns sub node)))"
    using inv(7) assms(2) by (auto simp: finish_register_fields register_fields)
qed (use node_invD [OF assms(1)] in \<open>simp_all add: finish_register_fields\<close>)

lemma add_handle_inv:
  assumes "node_inv node"
  shows "node_inv (node\<lparr>handles := hm_insert ns doc (handles node)\<rparr>)"
  by (rule node_invI) (use node_invD [OF assms] in auto)

lemma node_register_cases:
  obtains (ticket) e where "parse_ticket docs ticket = Err e"
      "node_register docs ticket sub node = (Err (''parse doc ticket: '' @ e), node)"
  | (known) ns doc where "parse_ticket docs ticket = Ok ns" "hm_get (handles node) ns = Some doc"
      "node_register docs ticket sub node = (Ok ns, finish_register ns sub node)"
  | (import_fails) ns e where "parse_ticket docs ticket = Ok ns" "hm_get (handles node) ns = None"
      "import_namespace docs ns = Err e"
      "node_register docs ticket sub node = (Err (''import namespace capability: '' @ e), node)"
  | (sync_fails) ns doc e where "parse_ticket docs ticket = Ok ns" "hm_get (handles node) ns = None"
      "import_namespace docs ns = Ok doc" "start_sync docs doc [] = Err e"
      "node_register docs ticket sub node =
         (Err (''join namespace without bootstrap peers: '' @ e), node)"
  | (imported) ns doc where "parse_ticket docs ticket = Ok ns" "hm_get (handles node) ns = None"
      "import_namespace docs ns = Ok doc"
      "node_register docs ticket sub node =
         (Ok ns, finish_register ns sub (node\<lparr>handles := hm_insert ns doc (handles node)\<rparr>))"
proof (cases "parse_ticket docs ticket")
  case (Inl e)
  then show ?thesis by (intro ticket) (simp_all add: node_register_def)
next
  case p: (Inr ns)
  show ?thesis
  proof (cases "hm_get (handles node) ns")
    case (Some doc)
    with p show ?thesis by (intro known) (simp_all add: node_register_def)
  next
    case n: None
    show ?thesis
    proof (cases "import_namespace docs ns")
      case (Inl e)
      with p n show ?thesis by (intro import_fails) (simp_all add: node_register_def)
    next
      case i: (Inr doc)
      show ?thesis
      proof (cases "start_sync docs doc []")
        case (Inl e)
        with p n i show ?thesis by (intro sync_fails) (simp_all add: node_register_def)
      next
        case (Inr u)
        with p n i show ?thesis by (intro imported) (simp_all add: node_register_def)
      qed
    qed
  qed
qed

lemma node_register_inv [inv_intros]:
  assumes "node_inv node"
  shows "node_inv (snd (node_register docs ticket sub node))"
proof (cases rule: node_register_cases [of docs ticket sub node])
  case (known ns doc)
  then show ?thesis using finish_register_inv [OF assms] by simp
next
  case (imported ns doc)
  then show ?thesis
    using finish_register_inv [OF add_handle_inv [OF assms, of ns doc], of ns sub] by simp
qed (use assms in simp_all)

lemma node_unsubscribe_inv [inv_intros]:
  assumes "node_inv node"
  shows "node_inv (snd (node_unsubscribe ns sub node))"
proof (rule node_invI)
  show "registry_inv (registry (snd (node_unsubscribe ns sub node)))"
    using node_invD(2) [OF assms] by (simp add: node_unsubscribe_def split_beta inv_intros)
qed (use node_invD [OF assms] in \<open>simp_all add: node_unsubscribe_def split_beta\<close>)

section \<open>Uploads\<close>

lemma put_content_cases:
  obtains (unchanged) "snd (put_content api ns expected b node) = node"
      "fst (put_content api ns expected b node) \<noteq> Ok Stored"
  | (added) "is_tracked_for (content node) ns expected"
      "blobs (snd (put_content api ns expected b node)) = snd (blob_add api b (blobs node))"
      "snd (put_content api ns expected b node) = node\<lparr>blobs := snd (blob_add api b (blobs node))\<rparr>"
      "fst (put_content api ns expected b node) \<noteq> Ok Stored"
  | (stored) "is_known (registry node) ns" "is_tracked_for (content node) ns expected"
      "hash_new api b = expected" "fst (blob_add api b (blobs node)) = Ok expected"
      "fst (put_content api ns expected b node) = Ok Stored"
      "snd (put_content api ns expected b node) =
         node\<lparr>blobs := snd (blob_add api b (blobs node)), content := mark_present expected (content node)\<rparr>"
proof (cases "is_known (registry node) ns \<and> is_tracked_for (content node) ns expected \<and> hash_new api b = expected")
  case False
  then show ?thesis by (intro unchanged) (auto simp: put_content_def)
next
  case True
  show ?thesis
  proof (cases "blob_add api b (blobs node)")
    case (Pair added store)
    show ?thesis
    proof (cases "added = Ok expected")
      case True': True
      with Pair True show ?thesis by (intro stored) (simp_all add: put_content_def Let_def)
    next
      case False
      with Pair True show ?thesis
        by (intro added) (auto simp: put_content_def Let_def split: sum.split)
    qed
  qed
qed

lemma put_content_inv [inv_intros]:
  assumes "node_inv node"
  shows "node_inv (snd (put_content api ns expected b node))"
proof -
  note inv = node_invD [OF assms]
  have store: "node_inv (node\<lparr>blobs := s\<rparr>)" for s
    by (rule node_invI) (use inv in simp_all)
  show ?thesis
  proof (cases rule: put_content_cases [of api ns expected b node])
    case stored
    show ?thesis
      by (rule node_inv_content [OF assms])
        (use inv tracked_iff [OF assms] in \<open>simp_all add: stored(6) inv_intros\<close>)
  qed (use assms store in simp_all)
qed

lemma put_content_servable [inv_intros]:
  assumes "blob_laws api" "servable api node"
  shows "servable api (snd (put_content api ns expected b node))"
proof (cases rule: put_content_cases [of api ns expected b node])
  case stored
  then have "blob_get api (snd (blob_add api b (blobs node))) expected = Some b"
    using assms(1) unfolding blob_laws_def by (metis prod.collapse)
  then show ?thesis
    using assms by (auto simp: servable_def blob_laws_def stored(6))
qed (use assms in \<open>auto simp: servable_def blob_laws_def\<close>)

lemma protect_set:
  assumes "node_inv node"
  shows "set (protect node live) = set live \<union> {hash. \<exists>ns. is_tracked_for (content node) ns hash}"
proof -
  have "set (fold (\<lambda>h l. snd (hs_insert h l)) hs live) = set live \<union> set hs" for hs
    by (induction hs arbitrary: live) auto
  moreover have "set (referenced (content node)) = {hash. \<exists>ns. is_tracked_for (content node) ns hash}"
    unfolding referenced_set [OF node_invD(1) [OF assms]] ledger_of_def by (auto simp: image_iff)
  ultimately show ?thesis
    by (simp add: protect_def)
qed

lemma put_content_spec:
  assumes "blob_laws api" "node_inv node"
  shows "(fst (put_content api ns h b node) = Ok Stored \<longleftrightarrow>
      is_known (registry node) ns \<and> is_tracked_for (content node) ns h \<and> hash_new api b = h \<and>
      (\<exists>tag. fst (blob_add api b (blobs node)) = Ok tag)) \<and>
    (fst (put_content api ns h b node) = Ok Stored \<longrightarrow>
      content_bytes api (snd (put_content api ns h b node)) ns h = Some b) \<and>
    (fst (put_content api ns h b node) \<noteq> Ok Stored \<longrightarrow>
      content (snd (put_content api ns h b node)) = content node)"
proof -
  have law: "fst (blob_add api b (blobs node)) = Ok tag \<Longrightarrow>
      tag = hash_new api b \<and> blob_get api (snd (blob_add api b (blobs node))) tag = Some b" for tag
    using assms(1) unfolding blob_laws_def by (metis prod.collapse)
  have iff: "fst (put_content api ns h b node) = Ok Stored \<longleftrightarrow>
      is_known (registry node) ns \<and> is_tracked_for (content node) ns h \<and> hash_new api b = h \<and>
      (\<exists>tag. fst (blob_add api b (blobs node)) = Ok tag)"
    using law by (auto simp: put_content_def split_beta Let_def split: sum.split)
  show ?thesis
  proof (cases rule: put_content_cases [of api ns h b node])
    case stored
    have "is_tracked (content node) h"
      using stored(2) index_invD(3) [OF node_invD(1) [OF assms(2)], of h] by blast
    then have "content_bytes api (snd (put_content api ns h b node)) ns h = Some b"
      using stored(2,6) law [OF stored(4)] by (auto simp: content_bytes_def is_present_for_iff)
    then show ?thesis using iff stored(5) by blast
  next
    case unchanged
    then show ?thesis using iff by metis
  next
    case added
    have "content (snd (put_content api ns h b node)) = content node"
      by (simp add: added(3))
    then show ?thesis using iff added(4) by blast
  qed
qed

lemma put_content_rejections:
  assumes "blob_laws api"
  shows "(fst (put_content api ns h b node) = Ok UnknownNamespace \<longleftrightarrow> \<not> is_known (registry node) ns) \<and>
    (fst (put_content api ns h b node) = Ok UntrackedHash \<longleftrightarrow>
      is_known (registry node) ns \<and> \<not> is_tracked_for (content node) ns h) \<and>
    (fst (put_content api ns h b node) = Ok HashMismatch \<longleftrightarrow>
      is_known (registry node) ns \<and> is_tracked_for (content node) ns h \<and> hash_new api b \<noteq> h)"
proof -
  have "fst (blob_add api b (blobs node)) = Ok tag \<Longrightarrow> tag = hash_new api b" for tag
    using assms unfolding blob_laws_def by (metis prod.collapse)
  then show ?thesis
    by (auto simp: put_content_def split_beta Let_def split: sum.split)
qed

lemma put_content_reads_back:
  assumes "blob_laws api" "node_inv node" "fst (put_content api ns h b node) = Ok Stored"
  shows "content_bytes api (snd (put_content api ns h b node)) ns h = Some b"
  using put_content_spec [OF assms(1,2), of ns h b] assms(3) by blast

section \<open>Properties\<close>

text \<open>
  C11. An upload is stored exactly when the namespace is granted, an entry of that namespace names
  the hash, the bytes hash to it and the store takes them. Then the namespace can read back those
  very bytes. In every other case what the stash serves as present does not change.
\<close>

theorem upload_exact:
  assumes "blob_laws api" "node_inv node"
  shows "(fst (put_content api ns h b node) = Ok Stored \<longleftrightarrow>
      is_known (registry node) ns \<and> is_tracked_for (content node) ns h \<and> hash_new api b = h \<and>
      (\<exists>tag. fst (blob_add api b (blobs node)) = Ok tag)) \<and>
    (fst (put_content api ns h b node) = Ok Stored \<longrightarrow>
      content_bytes api (snd (put_content api ns h b node)) ns h = Some b) \<and>
    (fst (put_content api ns h b node) \<noteq> Ok Stored \<longrightarrow>
      content (snd (put_content api ns h b node)) = content node)"
  using assms by (rule put_content_spec)

text \<open>
  C19. Registration never dials a peer and imports at most once. Its result does not depend on what
  the docs engine does when it is given peers; and once a ticket has been registered, registering
  it again, whatever the engine would do, changes neither handles nor watch tasks and only adds
  the new subscription to the grants.
\<close>

theorem register_never_dials:
  assumes "start_sync docs' = (\<lambda>doc peers. if peers = [] then start_sync docs doc [] else dial doc peers)"
    and "parse_ticket docs' = parse_ticket docs" "import_namespace docs' = import_namespace docs"
    and "parse_ticket engine = parse_ticket docs"
  shows "node_register docs' ticket sub node = node_register docs ticket sub node \<and>
    (\<forall>ns node1. node_register docs ticket sub node = (Ok ns, node1) \<longrightarrow>
       fst (node_register engine ticket sub' node1) = Ok ns \<and>
       handles (snd (node_register engine ticket sub' node1)) = handles node1 \<and>
       watchers (snd (node_register engine ticket sub' node1)) = watchers node1 \<and>
       grants_of (registry (snd (node_register engine ticket sub' node1))) =
         grant ns sub' (grants_of (registry node1)))"
proof (intro conjI allI impI)
  show "node_register docs' ticket sub node = node_register docs ticket sub node"
    using assms(1-3) by (simp add: node_register_def split: sum.split option.split)
  fix ns node1
  assume r: "node_register docs ticket sub node = (Ok ns, node1)"
  have "parse_ticket docs ticket = Ok ns \<and> hm_get (handles node1) ns \<noteq> None \<and> is_known (registry node1) ns"
    using r by (cases rule: node_register_cases [of docs ticket sub node])
      (auto simp: finish_register_fields)
  then obtain doc where p: "parse_ticket engine ticket = Ok ns" "hm_get (handles node1) ns = Some doc"
      "is_known (registry node1) ns"
    using assms(4) by auto
  then have eq: "node_register engine ticket sub' node1 = (Ok ns, finish_register ns sub' node1)"
    by (simp add: node_register_def)
  show "fst (node_register engine ticket sub' node1) = Ok ns"
    "handles (snd (node_register engine ticket sub' node1)) = handles node1"
    "watchers (snd (node_register engine ticket sub' node1)) = watchers node1"
    "grants_of (registry (snd (node_register engine ticket sub' node1))) =
       grant ns sub' (grants_of (registry node1))"
    using p(3) by (simp_all add: eq finish_register_fields wr.abs_reg)
qed

text \<open>
  The retry delay doubles from one second after the first failure to 64 and is capped at one
  minute; the shift never overflows and the delay never shrinks as failures accumulate.
\<close>

lemma backoff_schedule:
  "unat (backoff_ms n) = min 60000 (500 * 2 ^ min (unat n) 7) \<and>
   (m \<le> n \<longrightarrow> backoff_ms m \<le> backoff_ms n)"
proof -
  have delay: "unat (backoff_ms k) = min 60000 (500 * 2 ^ min (unat k) 7)" for k
  proof -
    have m: "unat (min k 7) = min (unat k) 7"
      by (simp add: min_def word_le_nat_alt)
    have "min (unat k) 7 \<in> {0, 1, 2, 3, 4, 5, 6, 7}"
      by (auto simp: min_def)
    then show ?thesis
      unfolding backoff_ms_def Let_def m by (auto simp: sat_mul_def)
  qed
  have "unat (backoff_ms m) \<le> unat (backoff_ms n)" if "unat m \<le> unat n"
    unfolding delay using that by (intro min.mono mult_le_mono power_increasing) auto
  then show ?thesis
    by (simp add: delay word_le_nat_alt)
qed

text \<open>
  The collector keeps what it must and nothing because of the stash otherwise: after the
  callback the live set holds what it held before and every hash some namespace references,
  whether its bytes have landed or are still being fetched.
\<close>

lemma collector_protects_references:
  assumes "node_inv node"
  shows "set (protect node live) = set live \<union> {hash. \<exists>ns. is_tracked_for (content node) ns hash}"
  using assms by (rule protect_set)

section \<open>Witnesses\<close>

text \<open>
  A store in which the bytes are their own address, a docs engine that accepts every ticket, and a
  node that granted one namespace and received one entry of it.
\<close>

definition memory_store :: "(content_hash, bytes) hmap blob_api" where
  "memory_store =
     \<lparr>blob_has = \<lambda>s h. Some (hm_get s h \<noteq> None), blob_get = hm_get,
      blob_add = \<lambda>b s. (Ok b, hm_insert b b s), hash_new = \<lambda>b. b\<rparr>"

definition memory_docs :: "unit docs_api" where
  "memory_docs =
     \<lparr>parse_ticket = \<lambda>t. if t = [] then Err ''empty'' else Ok (as_bytes t),
      import_namespace = \<lambda>_. Ok (), start_sync = \<lambda>_ _. Ok ()\<rparr>"

lemma memory_store_laws: "blob_laws memory_store"
  by (simp add: blob_laws_def memory_store_def)

definition one_entry_node :: "(unit, (content_hash, bytes) hmap) stash_node" where
  "one_entry_node =
     \<lparr>blobs = [], registry = snd (register [1] None new_registry), node_retention = from_hours 1,
      handles = [([1], ())], content = want [1] [9] new_index,
      tracked = [([9], \<lparr>entry_namespace = [1], entry_author = [], delivered_by = [7], entry_seq = 0,
        first_seen_ms = 0, content_present = False, woken = False, next_attempt_ms = 0, attempts = 0\<rparr>)],
      watchers = [[1]]\<rparr>"

lemma one_entry_known: "is_known (registry one_entry_node) ns \<longleftrightarrow> ns = [1]"
  by (auto simp: one_entry_node_def) (simp add: new_registry_def is_known_def)

lemma one_entry_tracked:
  "is_tracked_for (content one_entry_node) ns h \<longleftrightarrow> ns = [1] \<and> h = [9]"
  "is_tracked (content one_entry_node) h \<longleftrightarrow> h = [9]"
  by (simp_all add: one_entry_node_def)

lemma one_entry_inv: "node_inv one_entry_node"
proof (rule node_invI)
  show "registry_inv (registry one_entry_node)"
    by (simp add: one_entry_node_def inv_intros)
  show "index_inv (content one_entry_node)"
    by (simp add: one_entry_node_def inv_intros)
  show "dom (hm_get (tracked one_entry_node)) = {h. is_tracked (content one_entry_node) h}"
    by (auto simp: one_entry_tracked) (auto simp: one_entry_node_def split: if_splits)
  show "is_known (registry one_entry_node) ns" if "is_tracked_for (content one_entry_node) ns h" for ns h
    using that by (simp add: one_entry_known one_entry_tracked)
  show "is_present (content one_entry_node) h \<and> woken t"
    if "hm_get (tracked one_entry_node) h = Some t" "content_present t" for h t
    using that by (auto simp: one_entry_node_def split: if_splits)
qed (simp_all add: one_entry_node_def new_registry_def register_def hs_insert_def hm_wf_def)

theorem upload_exact_witness:
  "content_bytes memory_store (snd (put_content memory_store [1] [9] [9] one_entry_node)) [1] [9] = Some [9]"
  using upload_exact [OF memory_store_laws one_entry_inv, of "[1]" "[9]" "[9]"]
  by (simp add: one_entry_known one_entry_tracked memory_store_def)

theorem register_never_dials_witness:
  "fst (node_register memory_docs ''t'' None (snd (node_register memory_docs ''t'' None one_entry_node)))
     = Ok (as_bytes ''t'')"
proof -
  have "node_register memory_docs ''t'' None one_entry_node =
      (Ok (as_bytes ''t''), snd (node_register memory_docs ''t'' None one_entry_node))"
    by (simp add: node_register_def memory_docs_def split: option.split)
  moreover have "start_sync memory_docs =
      (\<lambda>doc peers. if peers = [] then start_sync memory_docs doc [] else start_sync memory_docs doc peers)"
    by (auto simp: fun_eq_iff)
  ultimately show ?thesis
    using register_never_dials [of memory_docs memory_docs "start_sync memory_docs" memory_docs
        "''t''" None one_entry_node None] by blast
qed

end
