(* ===== verification/Node_Watch.thy ===== *)
theory Node_Watch
  imports Node_State
begin

text \<open>
  \<open>rust/src/node.rs\<close>, second part: what the node does with a replicated entry. The watch task
  records it, the settle loop fetches its bytes and decides whose subscribers to wake, and
  \<open>wake_for\<close> asks the delivery service and hands the targets to the waker.

  The downloader of iroh-blobs and the validity check of an endpoint id are the parameter
  \<open>net_api\<close>; a download that errors or times out is \<open>False\<close>.
\<close>

record 'b net_api =
  endpoint_from_bytes :: "bytes \<Rightarrow> endpoint_id option"
  download :: "content_hash \<Rightarrow> endpoint_id list \<Rightarrow> 'b \<Rightarrow> bool \<times> 'b"

text \<open>A download that succeeds leaves the bytes readable; none makes held bytes unreadable or unheld.\<close>

definition net_laws :: "'b blob_api \<Rightarrow> 'b net_api \<Rightarrow> bool" where
  "net_laws api net \<longleftrightarrow>
     (\<forall>h src s. fst (download net h src s) \<longrightarrow> blob_get api (snd (download net h src s)) h \<noteq> None) \<and>
     (\<forall>h src s h'. blob_get api s h' \<noteq> None \<longrightarrow> blob_get api (snd (download net h src s)) h' \<noteq> None) \<and>
     (\<forall>h src s h'. blob_has api s h' = Some True \<longrightarrow> blob_has api (snd (download net h src s)) h' = Some True)"

section \<open>The watch task\<close>

definition decode_author_seq :: "bytes \<Rightarrow> bytes \<times> u64" where
  "decode_author_seq k = (case decode_fix_key k of Some f \<Rightarrow> (author f, seq f) | None \<Rightarrow> ([], 0))"

definition store_has :: "'b blob_api \<Rightarrow> 'b \<Rightarrow> content_hash \<Rightarrow> bool" where
  "store_has api s hash = unwrap_or False (blob_has api s hash)"

text \<open>
  One \<open>InsertRemote\<close> event of the namespace \<open>ns\<close>: the entry to wake for right away, if any, and the
  node with the entry recorded.
\<close>

definition handle_insert_remote ::
    "'b blob_api \<Rightarrow> u64 \<Rightarrow> namespace_id \<Rightarrow> bytes \<Rightarrow> content_hash \<Rightarrow> endpoint_id \<Rightarrow>
     ('d, 'b) stash_node \<Rightarrow> tracked_entry option \<times> ('d, 'b) stash_node" where
  "handle_insert_remote api now ns entry_key hash from node =
     (let (a, n) = decode_author_seq entry_key;
          index = want ns hash (content node);
          present = store_has api (blobs node) hash;
          entry = \<lparr>entry_namespace = ns, entry_author = a, delivered_by = from, entry_seq = n,
            first_seen_ms = now, content_present = present, woken = present,
            next_attempt_ms = 0, attempts = 0\<rparr>;
          table = hm_or_insert hash entry (tracked node);
          known = (case hm_get table hash of Some t \<Rightarrow> woken t | None \<Rightarrow> woken entry)
      in (if present \<and> \<not> known then Some entry else None,
          node\<lparr>content := (if present then mark_present hash index else index), tracked := table\<rparr>))"

section \<open>The settle loop\<close>

definition fetch_sources :: "'b net_api \<Rightarrow> tracked_entry \<Rightarrow> endpoint_id list" where
  "fetch_sources net entry =
     delivered_by entry #
       (if length (entry_author entry) = 32 then
          (case endpoint_from_bytes net (entry_author entry) of
             Some a \<Rightarrow> if a \<noteq> delivered_by entry then [a] else []
           | None \<Rightarrow> [])
        else [])"

definition fetch_content :: "'b net_api \<Rightarrow> content_hash \<Rightarrow> tracked_entry \<Rightarrow> 'b \<Rightarrow> bool \<times> 'b" where
  "fetch_content net hash entry store = download net hash (fetch_sources net entry) store"

text \<open>\<open>outstanding\<close>: the snapshot a pass starts from.\<close>

definition outstanding :: "('d, 'b) stash_node \<Rightarrow> (content_hash \<times> tracked_entry) list" where
  "outstanding node = filter (\<lambda>(hash, entry). \<not> content_present entry) (tracked node)"

text \<open>The first half of an iteration: are the bytes here, or can they be fetched now?\<close>

definition settle_probe :: "'b blob_api \<Rightarrow> 'b net_api \<Rightarrow> u64 \<Rightarrow> content_hash \<Rightarrow> tracked_entry \<Rightarrow> 'b \<Rightarrow>
    bool \<times> 'b" where
  "settle_probe api net now hash entry store =
     (if store_has api store hash then (True, store)
      else if next_attempt_ms entry \<le> now then fetch_content net hash entry store
      else (False, store))"

text \<open>
  The second half, on the live entry: record the arrival or the failed attempt, and release the
  wake once it is due. The entry pushed is the snapshot's.
\<close>

definition settle_retry :: "u64 \<Rightarrow> tracked_entry \<Rightarrow> tracked_entry" where
  "settle_retry now live =
     (let n = sat_add_u32 (attempts live) 1
      in live\<lparr>attempts := n, next_attempt_ms := now + backoff_ms n\<rparr>)"

definition settle_commit :: "u64 \<Rightarrow> content_hash \<Rightarrow> tracked_entry \<Rightarrow> bool \<Rightarrow> ('d, 'b) stash_node \<Rightarrow>
    (content_hash \<times> tracked_entry \<times> bool) list \<times> ('d, 'b) stash_node" where
  "settle_commit now hash entry present node =
     (case hm_get (tracked node) hash of
        None \<Rightarrow> ([], node)
      | Some live \<Rightarrow>
          (let live1 = (if present then live\<lparr>content_present := True\<rparr>
                        else if next_attempt_ms entry \<le> now then settle_retry now live
                        else live);
               index = (if present then mark_present hash (content node) else content node);
               overdue = WAKE_FALLBACK_MS \<le> sat_sub now (first_seen_ms live1);
               due = (\<not> woken live1 \<and> (present \<or> overdue));
               live2 = (if due then live1\<lparr>woken := True\<rparr> else live1)
           in (if due then [(hash, entry, \<not> present)] else [],
               node\<lparr>tracked := hm_insert hash live2 (tracked node), content := index\<rparr>)))"

definition settle_entry :: "'b blob_api \<Rightarrow> 'b net_api \<Rightarrow> u64 \<Rightarrow> content_hash \<Rightarrow> tracked_entry \<Rightarrow>
    ('d, 'b) stash_node \<Rightarrow> (content_hash \<times> tracked_entry \<times> bool) list \<times> ('d, 'b) stash_node" where
  "settle_entry api net now hash entry node =
     (let (present, store) = settle_probe api net now hash entry (blobs node)
      in settle_commit now hash entry present (node\<lparr>blobs := store\<rparr>))"

fun settle_list :: "'b blob_api \<Rightarrow> 'b net_api \<Rightarrow> u64 \<Rightarrow> (content_hash \<times> tracked_entry) list \<Rightarrow>
    ('d, 'b) stash_node \<Rightarrow> (content_hash \<times> tracked_entry \<times> bool) list \<times> ('d, 'b) stash_node" where
  "settle_list api net now [] node = ([], node)"
| "settle_list api net now ((hash, entry) # rest) node =
     (let (w, node1) = settle_entry api net now hash entry node;
          (ws, node2) = settle_list api net now rest node1
      in (w @ ws, node2))"

definition settle_once :: "'b blob_api \<Rightarrow> 'b net_api \<Rightarrow> u64 \<Rightarrow> ('d, 'b) stash_node \<Rightarrow>
    (content_hash \<times> tracked_entry \<times> bool) list \<times> ('d, 'b) stash_node" where
  "settle_once api net now node = settle_list api net now (outstanding node) node"

section \<open>Waking\<close>

definition wake_for :: "'b blob_api \<Rightarrow> delivery_service \<Rightarrow> waker \<Rightarrow> push_credentials \<Rightarrow>
    ('d, 'b) stash_node \<Rightarrow> content_hash \<Rightarrow> tracked_entry \<Rightarrow> bool \<Rightarrow> wake_event list" where
  "wake_for api delivery wk creds node hash entry degraded =
     (let b = (if degraded then [] else unwrap_or [] (blob_get api (blobs node) hash));
          envelope = \<lparr>env_namespace = entry_namespace entry, env_author = entry_author entry,
            env_seq = entry_seq entry, env_bytes = b\<rparr>
      in (case delivery envelope of
            Accept \<Rightarrow>
              (let tgts = wake_targets (registry node) (entry_namespace entry)
               in if tgts \<noteq> [] then wake wk creds (entry_namespace entry) tgts else [])
          | Reject reason \<Rightarrow> []))"

definition default_waker :: waker where
  "default_waker = NoopWaker"

text \<open>One tick of \<open>run_settle_loop\<close>: the pass, then a wake for each entry it released.\<close>

definition settle_tick :: "'b blob_api \<Rightarrow> 'b net_api \<Rightarrow> delivery_service \<Rightarrow> waker \<Rightarrow> push_credentials \<Rightarrow>
    u64 \<Rightarrow> ('d, 'b) stash_node \<Rightarrow> wake_event list \<times> ('d, 'b) stash_node" where
  "settle_tick api net delivery wk creds now node =
     (let (released, node1) = settle_once api net now node
      in (concat (map (\<lambda>(hash, entry, degraded). wake_for api delivery wk creds node1 hash entry degraded)
            released), node1))"

section \<open>The watch task keeps the invariant\<close>

lemma store_has_iff: "store_has api s hash \<longleftrightarrow> blob_has api s hash = Some True"
  by (cases "blob_has api s hash") (auto simp: store_has_def)

lemma store_has_get: "blob_laws api \<Longrightarrow> store_has api s hash \<Longrightarrow> blob_get api s hash \<noteq> None"
  by (simp add: store_has_iff blob_laws_def)

definition received_entry :: "u64 \<Rightarrow> namespace_id \<Rightarrow> bytes \<Rightarrow> endpoint_id \<Rightarrow> bool \<Rightarrow> tracked_entry" where
  "received_entry now ns entry_key from present =
     \<lparr>entry_namespace = ns, entry_author = fst (decode_author_seq entry_key), delivered_by = from,
      entry_seq = snd (decode_author_seq entry_key), first_seen_ms = now, content_present = present,
      woken = present, next_attempt_ms = 0, attempts = 0\<rparr>"

lemma received_entry_simps [simp]:
  "content_present (received_entry now ns k from p) = p"
  "woken (received_entry now ns k from p) = p"
  "entry_namespace (received_entry now ns k from p) = ns"
  "first_seen_ms (received_entry now ns k from p) = now"
  by (simp_all add: received_entry_def)

lemma handle_insert_remote_fields:
  fixes api ns entry_key hash "from" node now
  defines "out \<equiv> handle_insert_remote api now ns entry_key hash from node"
    and "entry \<equiv> received_entry now ns entry_key from (store_has api (blobs node) hash)"
  shows "registry (snd out) = registry node" "handles (snd out) = handles node"
    "watchers (snd out) = watchers node" "blobs (snd out) = blobs node"
    "node_retention (snd out) = node_retention node"
    "tracked (snd out) = hm_or_insert hash entry (tracked node)"
    "content (snd out) = (if store_has api (blobs node) hash
       then mark_present hash (want ns hash (content node)) else want ns hash (content node))"
    "fst out = (if store_has api (blobs node) hash \<and>
       \<not> woken (unwrap_or entry (hm_get (tracked node) hash)) then Some entry else None)"
  by (cases "store_has api (blobs node) hash";
      simp add: out_def entry_def handle_insert_remote_def received_entry_def split_beta Let_def)+

lemma handle_insert_remote_inv [inv_intros]:
  assumes "node_inv node" "is_known (registry node) ns"
  shows "node_inv (snd (handle_insert_remote api now ns entry_key hash from node))"
proof (rule node_inv_content [OF assms(1)])
  let ?n = "snd (handle_insert_remote api now ns entry_key hash from node)"
  note inv = node_invD [OF assms(1)]
  note fields = handle_insert_remote_fields [of api now ns entry_key hash "from" node]
  show "index_inv (content ?n)"
    using inv(1) by (simp add: fields inv_intros)
  show "hm_wf (tracked ?n)"
    using inv(4) by (simp add: fields)
  show "is_known (registry node) ns'" if "is_tracked_for (content ?n) ns' h" for ns' h
    using that inv(9) assms(2) by (auto simp: fields split: if_splits)
  show "hm_get (tracked ?n) h \<noteq> None \<longleftrightarrow> is_tracked (content ?n) h" for h
    using tracked_iff [OF assms(1), of h] by (simp add: fields)
  show "is_present (content ?n) h \<and> woken t"
    if "hm_get (tracked ?n) h = Some t" "content_present t" for h t
  proof (cases "hm_get (tracked node) h")
    case None
    with that show ?thesis by (auto simp: fields split: if_splits)
  next
    case (Some u)
    with that(1) have "t = u" by (auto simp: fields split: if_splits)
    then show ?thesis
      using inv(10) [OF Some] that(2) by (auto simp: fields)
  qed
qed (simp_all add: handle_insert_remote_fields)

lemma handle_insert_remote_servable [inv_intros]:
  assumes "blob_laws api" "servable api node"
  shows "servable api (snd (handle_insert_remote api now ns entry_key hash from node))"
  using assms(2) store_has_get [OF assms(1)]
  by (auto simp: servable_def handle_insert_remote_fields)

section \<open>One iteration of the settle loop\<close>

definition settle_due :: "u64 \<Rightarrow> bool \<Rightarrow> tracked_entry \<Rightarrow> bool" where
  "settle_due now present live \<longleftrightarrow>
     \<not> woken live \<and> (present \<or> 30000 \<le> unat now - unat (first_seen_ms live))"

definition settle_live :: "u64 \<Rightarrow> tracked_entry \<Rightarrow> bool \<Rightarrow> tracked_entry \<Rightarrow> tracked_entry" where
  "settle_live now entry present live =
     (let live1 = (if present then live\<lparr>content_present := True\<rparr>
                   else if next_attempt_ms entry \<le> now then settle_retry now live
                   else live)
      in if settle_due now present live then live1\<lparr>woken := True\<rparr> else live1)"

lemma settle_retry_simps [simp]:
  "woken (settle_retry now live) = woken live"
  "first_seen_ms (settle_retry now live) = first_seen_ms live"
  "content_present (settle_retry now live) = content_present live"
  "entry_namespace (settle_retry now live) = entry_namespace live"
  "attempts (settle_retry now live) = sat_add_u32 (attempts live) 1"
  "next_attempt_ms (settle_retry now live) = now + backoff_ms (sat_add_u32 (attempts live) 1)"
  by (simp_all add: settle_retry_def Let_def)

lemma settle_live_simps [simp]:
  "woken (settle_live now entry present live) \<longleftrightarrow> woken live \<or> settle_due now present live"
  "content_present (settle_live now entry present live) \<longleftrightarrow> content_present live \<or> present"
  "entry_namespace (settle_live now entry present live) = entry_namespace live"
  "first_seen_ms (settle_live now entry present live) = first_seen_ms live"
  by (auto simp: settle_live_def Let_def)

lemma settle_commit_eq:
  "settle_commit now hash entry present node =
     (case hm_get (tracked node) hash of
        None \<Rightarrow> ([], node)
      | Some live \<Rightarrow>
          (if settle_due now present live then [(hash, entry, \<not> present)] else [],
           node\<lparr>tracked := hm_insert hash (settle_live now entry present live) (tracked node),
             content := (if present then mark_present hash (content node) else content node)\<rparr>))"
proof -
  have overdue: "WAKE_FALLBACK_MS \<le> sat_sub now t \<longleftrightarrow> 30000 \<le> unat now - unat t" for t
    by (simp add: WAKE_FALLBACK_MS_def u64_le_iff unat_sat_sub)
  show ?thesis
    by (cases "hm_get (tracked node) hash")
      (auto simp: settle_commit_def Let_def settle_due_def settle_live_def overdue)
qed

lemma settle_commit_fields:
  "registry (snd (settle_commit now hash entry present node)) = registry node"
  "handles (snd (settle_commit now hash entry present node)) = handles node"
  "watchers (snd (settle_commit now hash entry present node)) = watchers node"
  "blobs (snd (settle_commit now hash entry present node)) = blobs node"
  "hm_get (tracked (snd (settle_commit now hash entry present node))) =
     (hm_get (tracked node))(hash := map_option (settle_live now entry present) (hm_get (tracked node) hash))"
  "content (snd (settle_commit now hash entry present node)) =
     (if present \<and> hm_get (tracked node) hash \<noteq> None then mark_present hash (content node) else content node)"
  "fst (settle_commit now hash entry present node) =
     (if \<exists>live. hm_get (tracked node) hash = Some live \<and> settle_due now present live
      then [(hash, entry, \<not> present)] else [])"
  by (cases "hm_get (tracked node) hash"; auto simp: settle_commit_eq fun_eq_iff)+

lemma settle_commit_inv [inv_intros]:
  assumes "node_inv node"
  shows "node_inv (snd (settle_commit now hash entry present node))"
proof (rule node_inv_content [OF assms])
  let ?n = "snd (settle_commit now hash entry present node)"
  note inv = node_invD [OF assms]
  note tr = tracked_iff [OF assms]
  show "index_inv (content ?n)"
    using inv(1) by (simp add: settle_commit_fields inv_intros)
  show "hm_wf (tracked ?n)"
    using inv(4) by (cases "hm_get (tracked node) hash") (simp_all add: settle_commit_eq)
  show "is_known (registry node) ns" if "is_tracked_for (content ?n) ns h" for ns h
    using that inv(9) by (auto simp: settle_commit_fields split: if_splits)
  show "hm_get (tracked ?n) h \<noteq> None \<longleftrightarrow> is_tracked (content ?n) h" for h
    using tr [of h] by (auto simp: settle_commit_fields)
  show "is_present (content ?n) h \<and> woken t"
    if t: "hm_get (tracked ?n) h = Some t" "content_present t" for h t
  proof (cases "h = hash")
    case True
    then obtain live where live: "hm_get (tracked node) h = Some live"
        "t = settle_live now entry present live"
      using t(1) by (auto simp: settle_commit_fields)
    have "is_tracked (content node) h"
      using tr [of h] live(1) by simp
    then show ?thesis
      using inv(10) [OF live(1)] t(2) live True
      by (auto simp: settle_commit_fields settle_due_def)
  next
    case False
    with t inv(10) [of h t] show ?thesis by (auto simp: settle_commit_fields)
  qed
qed (simp_all add: settle_commit_fields)

lemma settle_probe_laws:
  assumes "blob_laws api" "net_laws api net"
  shows "fst (settle_probe api net now h e s) \<Longrightarrow> blob_get api (snd (settle_probe api net now h e s)) h \<noteq> None"
    "blob_get api s h' \<noteq> None \<Longrightarrow> blob_get api (snd (settle_probe api net now h e s)) h' \<noteq> None"
    "blob_has api s h' = Some True \<Longrightarrow> blob_has api (snd (settle_probe api net now h e s)) h' = Some True"
    "blob_has api s h = Some True \<Longrightarrow> fst (settle_probe api net now h e s)"
  using assms store_has_get [OF assms(1)]
  by (auto simp: settle_probe_def fetch_content_def net_laws_def store_has_iff split: if_splits)

lemma settle_probe_backoff:
  "\<not> store_has api s h \<Longrightarrow> now < next_attempt_ms e \<Longrightarrow> settle_probe api net now h e s = (False, s)"
  by (auto simp: settle_probe_def dest: leD)

section \<open>A pass of the settle loop\<close>

text \<open>What every iteration leaves alone or only lets grow.\<close>

definition settle_le :: "'b blob_api \<Rightarrow> ('d, 'b) stash_node \<Rightarrow> ('d, 'b) stash_node \<Rightarrow> bool" where
  "settle_le api n m \<longleftrightarrow>
     registry m = registry n \<and> handles m = handles n \<and> watchers m = watchers n \<and>
     dom (hm_get (tracked m)) = dom (hm_get (tracked n)) \<and>
     (\<forall>ns h. is_tracked_for (content m) ns h \<longleftrightarrow> is_tracked_for (content n) ns h) \<and>
     (\<forall>h. is_present (content n) h \<longrightarrow> is_present (content m) h) \<and>
     (\<forall>h. blob_has api (blobs n) h = Some True \<longrightarrow> blob_has api (blobs m) h = Some True) \<and>
     (\<forall>h. blob_get api (blobs n) h \<noteq> None \<longrightarrow> blob_get api (blobs m) h \<noteq> None)"

lemma settle_le_refl: "settle_le api n n"
  by (simp add: settle_le_def)

lemma settle_le_trans: "settle_le api n m \<Longrightarrow> settle_le api m k \<Longrightarrow> settle_le api n k"
  unfolding settle_le_def by (elim conjE) (intro conjI; simp)

lemma settle_le_dests:
  assumes "settle_le api n m"
  shows "blob_get api (blobs n) h \<noteq> None \<Longrightarrow> blob_get api (blobs m) h \<noteq> None"
    "blob_has api (blobs n) h = Some True \<Longrightarrow> blob_has api (blobs m) h = Some True"
    "is_present (content n) h \<Longrightarrow> is_present (content m) h"
    "is_tracked_for (content m) ns h \<longleftrightarrow> is_tracked_for (content n) ns h"
    "registry m = registry n"
  using assms unfolding settle_le_def by blast+

definition probe :: "'b blob_api \<Rightarrow> 'b net_api \<Rightarrow> u64 \<Rightarrow> content_hash \<Rightarrow> tracked_entry \<Rightarrow>
    ('d, 'b) stash_node \<Rightarrow> bool" where
  "probe api net now h e node = fst (settle_probe api net now h e (blobs node))"

lemma settle_entry_eq:
  "settle_entry api net now h e node =
     settle_commit now h e (probe api net now h e node)
       (node\<lparr>blobs := snd (settle_probe api net now h e (blobs node))\<rparr>)"
  by (simp add: settle_entry_def probe_def split_beta)

lemma settle_entry_tracked:
  "hm_get (tracked (snd (settle_entry api net now h e node))) =
     (hm_get (tracked node))(h := map_option (settle_live now e (probe api net now h e node))
        (hm_get (tracked node) h))"
  by (simp add: settle_entry_eq settle_commit_fields)

lemma settle_entry_wakes:
  "fst (settle_entry api net now h e node) =
     (if \<exists>live. hm_get (tracked node) h = Some live \<and> settle_due now (probe api net now h e node) live
      then [(h, e, \<not> probe api net now h e node)] else [])"
  by (simp add: settle_entry_eq settle_commit_fields)

lemma settle_entry_le:
  assumes "blob_laws api" "net_laws api net"
  shows "settle_le api node (snd (settle_entry api net now h e node))"
proof -
  have "dom ((hm_get (tracked node))(h := map_option f (hm_get (tracked node) h))) =
      dom (hm_get (tracked node))" for f
    by (auto split: if_splits)
  then show ?thesis
    using settle_probe_laws(2,3) [OF assms]
    unfolding settle_le_def settle_entry_tracked
    by (simp add: settle_entry_eq settle_commit_fields)
qed

lemma settle_entry_inv [inv_intros]:
  assumes "node_inv node"
  shows "node_inv (snd (settle_entry api net now h e node))"
proof -
  have "node_inv (node\<lparr>blobs := s\<rparr>)" for s
    by (rule node_invI) (use node_invD [OF assms] in simp_all)
  then show ?thesis
    by (simp add: settle_entry_eq inv_intros)
qed

lemma settle_entry_servable [inv_intros]:
  assumes "blob_laws api" "net_laws api net" "servable api node"
  shows "servable api (snd (settle_entry api net now h e node))"
  using assms(3) settle_probe_laws(1,2) [OF assms(1,2)]
  by (auto simp: servable_def settle_entry_eq settle_commit_fields probe_def)

lemma settle_list_Cons:
  "settle_list api net now (x # rest) node =
     (let out = settle_entry api net now (fst x) (snd x) node;
          out' = settle_list api net now rest (snd out)
      in (fst out @ fst out', snd out'))"
  by (cases x) (simp add: split_beta Let_def)

declare settle_list.simps(2) [simp del]
declare settle_list_Cons [simp]

lemma settle_list_append:
  "settle_list api net now (xs @ ys) node =
     (let (w, n1) = settle_list api net now xs node; (ws, n2) = settle_list api net now ys n1
      in (w @ ws, n2))"
  by (induction xs arbitrary: node) (simp_all add: split_beta Let_def)

lemma settle_list_keeps:
  assumes "\<And>h e n. P n \<Longrightarrow> P (snd (settle_entry api net now h e n))" "P node"
  shows "P (snd (settle_list api net now xs node))"
  using assms(2)
  by (induction xs arbitrary: node) (simp_all add: Let_def assms(1))

lemma settle_list_inv: "node_inv node \<Longrightarrow> node_inv (snd (settle_list api net now xs node))"
  by (rule settle_list_keeps [where P = node_inv]) (auto intro: inv_intros)

lemma settle_list_servable:
  assumes "blob_laws api" "net_laws api net"
  shows "servable api node \<Longrightarrow> servable api (snd (settle_list api net now xs node))"
  by (rule settle_list_keeps [where P = "servable api"]) (auto intro: settle_entry_servable [OF assms])

lemma settle_list_le:
  assumes "blob_laws api" "net_laws api net"
  shows "settle_le api node (snd (settle_list api net now xs node))"
proof (rule settle_list_keeps)
  show "settle_le api node (snd (settle_entry api net now h e n))" if "settle_le api node n" for h e n
    using settle_le_trans [OF that settle_entry_le [OF assms]] .
qed (rule settle_le_refl)

lemma settle_list_frame:
  assumes "h \<notin> fst ` set xs"
  shows "hm_get (tracked (snd (settle_list api net now xs node))) h = hm_get (tracked node) h"
    "w \<in> set (fst (settle_list api net now xs node)) \<Longrightarrow> fst w \<noteq> h"
  using assms
  by (induction xs arbitrary: node)
    (auto simp: Let_def settle_entry_tracked settle_entry_wakes split: if_splits)

lemma settle_list_distinct:
  assumes "distinct (map fst xs)"
  shows "distinct (map fst (fst (settle_list api net now xs node)))"
  using assms
proof (induction xs arbitrary: node)
  case (Cons x xs)
  have "fst x \<notin> fst ` set (fst (settle_list api net now xs n))" for n
    using settle_list_frame(2) [of "fst x" xs _ api net now n] Cons.prems by fastforce
  with Cons show ?case
    by (auto simp: Let_def settle_entry_wakes)
qed simp

text \<open>
  An entry of the snapshot is processed once, on the live entry as it was at the start of the pass,
  in a node \<open>mid\<close> that the earlier iterations have only extended.
\<close>

lemma settle_list_at:
  assumes laws: "blob_laws api" "net_laws api net"
    and xs: "distinct (map fst xs)" "(h, e) \<in> set xs"
  obtains mid where "settle_le api node mid" "node_inv node \<Longrightarrow> node_inv mid"
    "settle_le api (snd (settle_entry api net now h e mid)) (snd (settle_list api net now xs node))"
    "hm_get (tracked mid) h = hm_get (tracked node) h"
    "hm_get (tracked (snd (settle_list api net now xs node))) h =
       hm_get (tracked (snd (settle_entry api net now h e mid))) h"
    "\<And>e' d. (h, e', d) \<in> set (fst (settle_list api net now xs node)) \<longleftrightarrow>
       (h, e', d) \<in> set (fst (settle_entry api net now h e mid))"
proof -
  obtain pre post where split: "xs = pre @ (h, e) # post"
    using xs(2) by (meson split_list)
  have fresh: "h \<notin> fst ` set pre" "h \<notin> fst ` set post"
    using xs(1) by (simp_all add: split)
  define mid where "mid = snd (settle_list api net now pre node)"
  define out where "out = snd (settle_entry api net now h e mid)"
  have run: "settle_list api net now xs node =
      (fst (settle_list api net now pre node) @ fst (settle_entry api net now h e mid) @
       fst (settle_list api net now post out), snd (settle_list api net now post out))"
    by (simp add: split settle_list_append mid_def out_def split_beta Let_def)
  show ?thesis
  proof (rule that [of mid])
    show "settle_le api node mid"
      unfolding mid_def by (rule settle_list_le [OF laws])
    show "node_inv mid" if "node_inv node"
      unfolding mid_def using that by (rule settle_list_inv)
    show "settle_le api (snd (settle_entry api net now h e mid)) (snd (settle_list api net now xs node))"
      unfolding run snd_conv out_def by (rule settle_list_le [OF laws])
    show "hm_get (tracked mid) h = hm_get (tracked node) h"
      unfolding mid_def by (rule settle_list_frame(1) [OF fresh(1)])
    show "hm_get (tracked (snd (settle_list api net now xs node))) h =
        hm_get (tracked (snd (settle_entry api net now h e mid))) h"
      unfolding run snd_conv settle_list_frame(1) [OF fresh(2)] out_def ..
    show "(h, e', d) \<in> set (fst (settle_list api net now xs node)) \<longleftrightarrow>
        (h, e', d) \<in> set (fst (settle_entry api net now h e mid))" for e' d
    proof -
      have "(h, e', d) \<notin> set (fst (settle_list api net now pre node))"
        "(h, e', d) \<notin> set (fst (settle_list api net now post out))"
        using settle_list_frame(2) [OF fresh(1)] settle_list_frame(2) [OF fresh(2)]
        by (metis fst_conv)+
      then show ?thesis
        by (simp add: run)
    qed
  qed
qed

lemma outstanding_iff:
  assumes "node_inv node"
  shows "distinct (map fst (outstanding node))"
    "(h, e) \<in> set (outstanding node) \<longleftrightarrow> hm_get (tracked node) h = Some e \<and> \<not> content_present e"
  using node_invD(4) [OF assms] hm.look_entries [OF node_invD(4) [OF assms], of h e]
  by (auto simp: outstanding_def hm_wf_def distinct_map_filter)

lemma settle_once_inv [inv_intros]: "node_inv node \<Longrightarrow> node_inv (snd (settle_once api net now node))"
  unfolding settle_once_def by (rule settle_list_inv)

lemma settle_once_servable [inv_intros]:
  assumes "blob_laws api" "net_laws api net" "servable api node"
  shows "servable api (snd (settle_once api net now node))"
  unfolding settle_once_def by (rule settle_list_servable [OF assms])

text \<open>The same for an entry of the table: the pass either skips it or settles it once.\<close>

lemma settle_once_skips:
  assumes "node_inv node" "\<And>e. hm_get (tracked node) h = Some e \<Longrightarrow> content_present e"
  shows "hm_get (tracked (snd (settle_once api net now node))) h = hm_get (tracked node) h"
    "(h, e, d) \<notin> set (fst (settle_once api net now node))"
proof -
  have "h \<notin> fst ` set (outstanding node)"
    using assms(2) outstanding_iff(2) [OF assms(1)] by force
  note frame = settle_list_frame [OF this]
  show "hm_get (tracked (snd (settle_once api net now node))) h = hm_get (tracked node) h"
    unfolding settle_once_def by (rule frame(1))
  show "(h, e, d) \<notin> set (fst (settle_once api net now node))"
    unfolding settle_once_def using frame(2) by (metis fst_conv)
qed

lemma settle_once_at:
  assumes laws: "blob_laws api" "net_laws api net" and inv: "node_inv node"
    and e: "hm_get (tracked node) h = Some e" "\<not> content_present e"
  obtains mid present where "settle_le api node mid" "present = probe api net now h e mid"
    "settle_le api (snd (settle_entry api net now h e mid)) (snd (settle_once api net now node))"
    "node_inv mid" "hm_get (tracked mid) h = Some e"
    "hm_get (tracked (snd (settle_once api net now node))) h = Some (settle_live now e present e)"
    "\<And>e' d. (h, e', d) \<in> set (fst (settle_once api net now node)) \<longleftrightarrow>
       settle_due now present e \<and> e' = e \<and> d = (\<not> present)"
proof -
  have "(h, e) \<in> set (outstanding node)"
    using e by (simp add: outstanding_iff(2) [OF inv])
  from settle_list_at [OF laws outstanding_iff(1) [OF inv] this, of node now]
  obtain mid where mid: "settle_le api node mid" "node_inv mid"
    "settle_le api (snd (settle_entry api net now h e mid)) (snd (settle_list api net now (outstanding node) node))"
    "hm_get (tracked mid) h = Some e"
    "hm_get (tracked (snd (settle_list api net now (outstanding node) node))) h =
       hm_get (tracked (snd (settle_entry api net now h e mid))) h"
    "\<And>e' d. (h, e', d) \<in> set (fst (settle_list api net now (outstanding node) node)) \<longleftrightarrow>
       (h, e', d) \<in> set (fst (settle_entry api net now h e mid))"
    using inv e(1) by metis
  show ?thesis
    by (rule that [OF mid(1) refl mid(3) [folded settle_once_def] mid(2,4)])
      (use mid(4,5,6) in \<open>auto simp: settle_once_def settle_entry_tracked settle_entry_wakes split: if_splits\<close>)
qed

lemma settle_once_result:
  assumes "blob_laws api" "net_laws api net" "node_inv node"
    and "hm_get (tracked node) h = Some e" "\<not> content_present e"
  shows "\<exists>present. hm_get (tracked (snd (settle_once api net now node))) h =
      Some (settle_live now e present e) \<and>
    ((h, e', d) \<in> set (fst (settle_once api net now node))) =
      (settle_due now present e \<and> e' = e \<and> d = (\<not> present))"
proof (rule settle_once_at [OF assms, of now])
  fix mid present
  assume "hm_get (tracked (snd (settle_once api net now node))) h = Some (settle_live now e present e)"
    and "\<And>e' d. ((h, e', d) \<in> set (fst (settle_once api net now node))) =
      (settle_due now present e \<and> e' = e \<and> d = (\<not> present))"
  then show ?thesis by (intro exI [of _ present] conjI) simp_all
qed

section \<open>Several passes\<close>

fun settle_runs :: "'b blob_api \<Rightarrow> 'b net_api \<Rightarrow> u64 list \<Rightarrow> ('d, 'b) stash_node \<Rightarrow>
    (content_hash \<times> tracked_entry \<times> bool) list \<times> ('d, 'b) stash_node" where
  "settle_runs api net [] node = ([], node)"
| "settle_runs api net (now # nows) node =
     (let (ws, node1) = settle_once api net now node;
          (ws', node2) = settle_runs api net nows node1
      in (ws @ ws', node2))"

definition settled_for :: "('d, 'b) stash_node \<Rightarrow> content_hash \<Rightarrow> bool" where
  "settled_for node h \<longleftrightarrow> (\<forall>t. hm_get (tracked node) h = Some t \<longrightarrow> woken t)"

lemma settle_once_settled:
  assumes "blob_laws api" "net_laws api net" "node_inv node"
  shows "settled_for node h \<Longrightarrow> settled_for (snd (settle_once api net now node)) h \<and>
      (h, e, d) \<notin> set (fst (settle_once api net now node))"
    "(h, e, d) \<in> set (fst (settle_once api net now node)) \<Longrightarrow>
      settled_for (snd (settle_once api net now node)) h"
proof -
  consider (out) t where "hm_get (tracked node) h = Some t" "\<not> content_present t"
    | (skip) "\<And>t. hm_get (tracked node) h = Some t \<Longrightarrow> content_present t"
    by blast
  then have "(settled_for node h \<longrightarrow> settled_for (snd (settle_once api net now node)) h \<and>
      (h, e, d) \<notin> set (fst (settle_once api net now node))) \<and>
    ((h, e, d) \<in> set (fst (settle_once api net now node)) \<longrightarrow>
      settled_for (snd (settle_once api net now node)) h)"
  proof cases
    case out
    from settle_once_result [OF assms out, of now e d] show ?thesis
      by (elim exE conjE) (auto simp: settled_for_def settle_due_def out)
  next
    case skip
    show ?thesis
      using settle_once_skips [OF assms(3) skip] by (simp add: settled_for_def)
  qed
  then show "settled_for node h \<Longrightarrow> settled_for (snd (settle_once api net now node)) h \<and>
      (h, e, d) \<notin> set (fst (settle_once api net now node))"
    "(h, e, d) \<in> set (fst (settle_once api net now node)) \<Longrightarrow>
      settled_for (snd (settle_once api net now node)) h"
    by blast+
qed

lemma settle_once_released:
  assumes "blob_laws api" "net_laws api net" "node_inv node"
    and "(h, e, d) \<in> set (fst (settle_once api net now node))"
  shows "hm_get (tracked node) h = Some e \<and> \<not> content_present e"
proof -
  obtain t where t: "hm_get (tracked node) h = Some t" "\<not> content_present t"
    using settle_once_skips(2) [OF assms(3)] assms(4) by blast
  from settle_once_result [OF assms(1-3) t, of now e d] show ?thesis
    using assms(4) t by (elim exE conjE) simp
qed

lemma settle_list_idle:
  "\<forall>(h, e) \<in> set xs. now < next_attempt_ms e \<and> \<not> store_has api (blobs node) h \<Longrightarrow>
   blobs (snd (settle_list api net now xs node)) = blobs node"
proof (induction xs arbitrary: node)
  case (Cons x xs)
  then have "blobs (snd (settle_entry api net now (fst x) (snd x) node)) = blobs node"
    by (auto simp: settle_entry_eq settle_commit_fields settle_probe_backoff)
  with Cons show ?case by (simp add: Let_def)
qed simp

lemma settle_runs_settled:
  assumes "blob_laws api" "net_laws api net" "node_inv node" "settled_for node h"
  shows "(h, e, d) \<notin> set (fst (settle_runs api net nows node))"
  using assms(3,4)
proof (induction nows arbitrary: node)
  case (Cons now nows)
  then show ?case
    using settle_once_settled(1) [OF assms(1,2) Cons.prems] settle_once_inv [OF Cons.prems(1)]
    by (simp add: split_beta)
qed simp

section \<open>Properties\<close>

text \<open>
  C5. A settle pass releases exactly the wakes that are due: an entry whose bytes were missing and
  whose subscribers had not been woken is released, once, if the pass found its bytes or if it has
  been known for thirty seconds, and the wake is flagged as degraded just when the bytes are still
  missing.
\<close>

theorem settle_wakes_exactly:
  assumes "blob_laws api" "net_laws api net" "node_inv node"
  shows "distinct (map fst (fst (settle_once api net now node))) \<and>
    ((h, e, d) \<in> set (fst (settle_once api net now node)) \<longleftrightarrow>
      hm_get (tracked node) h = Some e \<and> \<not> content_present e \<and> \<not> woken e \<and>
      (\<exists>t. hm_get (tracked (snd (settle_once api net now node))) h = Some t \<and>
         (d \<longleftrightarrow> \<not> content_present t) \<and>
         (content_present t \<or> 30000 \<le> unat now - unat (first_seen_ms e))))"
proof
  show "distinct (map fst (fst (settle_once api net now node)))"
    unfolding settle_once_def by (rule settle_list_distinct) (rule outstanding_iff(1) [OF assms(3)])
next
  consider (out) t where "hm_get (tracked node) h = Some t" "\<not> content_present t"
    | (skip) "\<And>t. hm_get (tracked node) h = Some t \<Longrightarrow> content_present t"
    by blast
  then show "(h, e, d) \<in> set (fst (settle_once api net now node)) \<longleftrightarrow>
      hm_get (tracked node) h = Some e \<and> \<not> content_present e \<and> \<not> woken e \<and>
      (\<exists>t. hm_get (tracked (snd (settle_once api net now node))) h = Some t \<and>
         (d \<longleftrightarrow> \<not> content_present t) \<and>
         (content_present t \<or> 30000 \<le> unat now - unat (first_seen_ms e)))"
  proof cases
    case out
    from settle_once_result [OF assms out, of now e d] show ?thesis
      by (elim exE conjE) (auto simp: settle_due_def out)
  next
    case skip
    have "(h, e, d) \<notin> set (fst (settle_once api net now node))"
      by (rule settle_once_skips(2) [OF assms(3) skip])
    then show ?thesis using skip by blast
  qed
qed

text \<open>
  A wake that is not degraded is a promise kept: when the pass ends, the bytes are marked
  present and every namespace that references the hash can read them.
\<close>

lemma full_wake_is_servable:
  assumes "blob_laws api" "net_laws api net" "node_inv node"
    and "(h, e, False) \<in> set (fst (settle_once api net now node))"
    and "is_tracked_for (content node) ns h"
  shows "content_bytes api (snd (settle_once api net now node)) ns h \<noteq> None"
proof -
  have e: "hm_get (tracked node) h = Some e" "\<not> content_present e"
    using settle_once_released [OF assms(1-4)] by blast+
  show ?thesis
  proof (rule settle_once_at [OF assms(1-3) e, of now])
    fix mid present
    assume mid: "settle_le api node mid" "present = probe api net now h e mid"
      "settle_le api (snd (settle_entry api net now h e mid)) (snd (settle_once api net now node))"
      "node_inv mid" "hm_get (tracked mid) h = Some e"
      and due: "\<And>e' d. (h, e', d) \<in> set (fst (settle_once api net now node)) \<longleftrightarrow>
        settle_due now present e \<and> e' = e \<and> d = (\<not> present)"
    let ?n = "snd (settle_entry api net now h e mid)"
    have present: "present"
      using assms(4) unfolding due [of e False] by simp
    have "is_tracked (content mid) h"
      using tracked_iff [OF mid(4), of h] mid(5) by simp
    then have "is_present (content ?n) h" "blob_get api (blobs ?n) h \<noteq> None"
      using present mid(2,5) settle_probe_laws(1) [OF assms(1,2), of now h e "blobs mid"]
      by (simp_all add: settle_entry_eq settle_commit_fields probe_def)
    moreover have "is_tracked_for (content (snd (settle_once api net now node))) ns h"
      using assms(5) settle_list_le [OF assms(1,2), of node now "outstanding node"]
      by (simp add: settle_once_def settle_le_dests(4))
    ultimately show ?thesis
      using settle_le_dests(1,3) [OF mid(3), of h] by (simp add: content_bytes_def is_present_for_iff)
  qed
qed


text \<open>
  C12. Waking is one-shot: over any sequence of settle passes no hash is released twice.
\<close>

theorem wakes_fire_once:
  assumes "blob_laws api" "net_laws api net" "node_inv node"
  shows "distinct (map fst (fst (settle_runs api net nows node)))"
  using assms(3)
proof (induction nows arbitrary: node)
  case (Cons now nows)
  let ?n = "snd (settle_once api net now node)"
  have inv: "node_inv ?n"
    using Cons.prems by (rule settle_once_inv)
  have "distinct (map fst (fst (settle_once api net now node)))"
    unfolding settle_once_def
    by (rule settle_list_distinct) (rule outstanding_iff(1) [OF Cons.prems])
  moreover have "fst w \<notin> fst ` set (fst (settle_runs api net nows ?n))"
    if "w \<in> set (fst (settle_once api net now node))" for w
  proof -
    obtain h e d where w: "w = (h, e, d)" by (cases w)
    from settle_runs_settled [OF assms(1,2) inv settle_once_settled(2) [OF assms(1,2) Cons.prems that [unfolded w]]]
    show ?thesis by (force simp: w)
  qed
  ultimately show ?case
    using Cons.IH [OF inv] by (auto simp: split_beta)
qed simp

text \<open>
  Backoff is respected. An entry that the pass leaves without bytes either was due for an
  attempt, and then one more failure is counted and the next attempt is one backoff delay away, or
  was not due, and then nothing about its schedule changes. And when no entry is due and none has
  its bytes in the store, the pass downloads nothing.
\<close>

lemma settle_respects_backoff:
  assumes "blob_laws api" "net_laws api net" "node_inv node"
  shows "(hm_get (tracked node) h = Some e \<and>
      hm_get (tracked (snd (settle_once api net now node))) h = Some t \<and> \<not> content_present t \<longrightarrow>
      (if next_attempt_ms e \<le> now
       then attempts t = sat_add_u32 (attempts e) 1 \<and> next_attempt_ms t = now + backoff_ms (attempts t)
       else attempts t = attempts e \<and> next_attempt_ms t = next_attempt_ms e)) \<and>
    ((\<forall>(h, e) \<in> set (outstanding node). now < next_attempt_ms e \<and> \<not> store_has api (blobs node) h) \<longrightarrow>
      blobs (snd (settle_once api net now node)) = blobs node)"
proof (intro conjI impI)
  assume a: "hm_get (tracked node) h = Some e \<and>
      hm_get (tracked (snd (settle_once api net now node))) h = Some t \<and> \<not> content_present t"
  have np: "\<not> content_present e"
  proof
    assume "content_present e"
    with settle_once_skips(1) [OF assms(3), of h api net now] a show False by simp
  qed
  show "if next_attempt_ms e \<le> now
       then attempts t = sat_add_u32 (attempts e) 1 \<and> next_attempt_ms t = now + backoff_ms (attempts t)
       else attempts t = attempts e \<and> next_attempt_ms t = next_attempt_ms e"
    by (rule settle_once_at [OF assms conjunct1 [OF a] np, of now])
      (use a in \<open>auto simp: settle_live_def Let_def split: if_splits\<close>)
next
  show "blobs (snd (settle_once api net now node)) = blobs node"
    if "\<forall>(h, e) \<in> set (outstanding node). now < next_attempt_ms e \<and> \<not> store_has api (blobs node) h"
    using that unfolding settle_once_def by (rule settle_list_idle)
qed

text \<open>
  Receiving a record makes its hash the namespace's business and loses nothing: the invariant
  holds, the hash is referenced, every entry already tracked keeps its backoff and its wake flag,
  and an entry is handed over for an immediate wake only when its bytes can be served.
\<close>

lemma watch_records_entry:
  assumes "blob_laws api" "node_inv node" "is_known (registry node) ns"
  shows "node_inv (snd (handle_insert_remote api now ns k h from node)) \<and>
    is_tracked_for (content (snd (handle_insert_remote api now ns k h from node))) ns h \<and>
    hm_get (tracked (snd (handle_insert_remote api now ns k h from node))) h \<noteq> None \<and>
    (hm_get (tracked node) h' = Some e \<longrightarrow>
       hm_get (tracked (snd (handle_insert_remote api now ns k h from node))) h' = Some e) \<and>
    (fst (handle_insert_remote api now ns k h from node) = Some e' \<longrightarrow>
       content_bytes api (snd (handle_insert_remote api now ns k h from node)) ns h \<noteq> None)"
proof (intro conjI impI)
  note fields = handle_insert_remote_fields [of api now ns k h "from" node]
  show "node_inv (snd (handle_insert_remote api now ns k h from node))"
    using assms(2,3) by (rule handle_insert_remote_inv)
  show "is_tracked_for (content (snd (handle_insert_remote api now ns k h from node))) ns h"
    "hm_get (tracked (snd (handle_insert_remote api now ns k h from node))) h \<noteq> None"
    by (simp_all add: fields)
  show "hm_get (tracked (snd (handle_insert_remote api now ns k h from node))) h' = Some e"
    if "hm_get (tracked node) h' = Some e"
    using that by (auto simp: fields)
  show "content_bytes api (snd (handle_insert_remote api now ns k h from node)) ns h \<noteq> None"
    if e': "fst (handle_insert_remote api now ns k h from node) = Some e'"
  proof -
    have "store_has api (blobs node) h"
      using e' by (simp add: fields split: if_splits)
    then show ?thesis
      using store_has_get [OF assms(1)] by (simp add: fields content_bytes_def is_present_for_iff)
  qed
qed

text \<open>
  C20. An entry whose bytes arrived before its record is never announced. For a hash that is not yet
  tracked and whose bytes are in the store, the watch hands nothing over, and no later settle pass
  releases a wake for it.
\<close>

theorem early_bytes_never_announced:
  assumes "blob_laws api" "net_laws api net" "node_inv node" "is_known (registry node) ns"
    and "blob_has api (blobs node) h = Some True" "hm_get (tracked node) h = None"
  shows "fst (handle_insert_remote api now ns k h from node) = None \<and>
    (h, e, d) \<notin> set (fst (settle_runs api net nows (snd (handle_insert_remote api now ns k h from node))))"
proof
  note fields = handle_insert_remote_fields [of api now ns k h "from" node]
  show "fst (handle_insert_remote api now ns k h from node) = None"
    using assms(5,6) by (simp add: fields store_has_iff)
  have "settled_for (snd (handle_insert_remote api now ns k h from node)) h"
    using assms(5,6) by (simp add: settled_for_def fields store_has_iff)
  then show "(h, e, d) \<notin> set (fst (settle_runs api net nows (snd (handle_insert_remote api now ns k h from node))))"
    by (rule settle_runs_settled [OF assms(1,2) handle_insert_remote_inv [OF assms(3,4)]])
qed

text \<open>
  C21. A record received a second time can wake twice. If its bytes have come in while the settle
  loop has not yet noticed, the watch hands the entry over for a wake and the next pass releases
  the same hash again.
\<close>

theorem second_record_wakes_twice:
  assumes "blob_laws api" "net_laws api net" "node_inv node" "is_known (registry node) ns"
    and "blob_has api (blobs node) h = Some True" "hm_get (tracked node) h = Some e" "\<not> woken e"
  shows "fst (handle_insert_remote api now ns k h from node) \<noteq> None \<and>
    (h, e, False) \<in> set (fst (settle_once api net later (snd (handle_insert_remote api now ns k h from node))))"
proof
  let ?n = "snd (handle_insert_remote api now ns k h from node)"
  note fields = handle_insert_remote_fields [of api now ns k h "from" node]
  show "fst (handle_insert_remote api now ns k h from node) \<noteq> None"
    using assms(5,6,7) by (simp add: fields store_has_iff)
  have inv: "node_inv ?n"
    using assms(3,4) by (rule handle_insert_remote_inv)
  have e: "hm_get (tracked ?n) h = Some e" "blob_has api (blobs ?n) h = Some True"
    using assms(5,6) by (simp_all add: fields)
  have np: "\<not> content_present e"
    using node_invD(10) [OF assms(3,6)] assms(7) by blast
  show "(h, e, False) \<in> set (fst (settle_once api net later ?n))"
  proof (rule settle_once_at [OF assms(1,2) inv e(1) np, of later])
    fix mid present
    assume mid: "settle_le api ?n mid" "present = probe api net later h e mid"
      and due: "\<And>e' d. (h, e', d) \<in> set (fst (settle_once api net later ?n)) \<longleftrightarrow>
        settle_due later present e \<and> e' = e \<and> d = (\<not> present)"
    have "present"
      using settle_probe_laws(4) [OF assms(1,2) settle_le_dests(2) [OF mid(1) e(2)]]
      by (simp add: mid(2) probe_def)
    then show ?thesis
      unfolding due [of e False] using assms(7) by (simp add: settle_due_def)
  qed
qed

text \<open>
  A wake reaches every subscriber of the entry's namespace once and nobody else, provided the
  delivery service accepts the envelope; what it judges is the ciphertext the stash serves, or
  nothing for a degraded wake. A rejected envelope wakes nobody.
\<close>

lemma wake_reaches_subscribers:
  assumes "registry_inv (registry node)"
  shows "(delivery \<lparr>env_namespace = entry_namespace e, env_author = entry_author e, env_seq = entry_seq e,
        env_bytes = (if degraded then [] else unwrap_or [] (blob_get api (blobs node) h))\<rparr> = Accept \<longrightarrow>
      set (wake_for api delivery (HttpPushWaker cfg) creds node h e degraded) =
        wake_one cfg creds (entry_namespace e) `
          {s. (entry_namespace e, s) \<in> pairs (grants_of (registry node))} \<and>
      length (wake_for api delivery (HttpPushWaker cfg) creds node h e degraded) =
        card {s. (entry_namespace e, s) \<in> pairs (grants_of (registry node))}) \<and>
    (delivery \<lparr>env_namespace = entry_namespace e, env_author = entry_author e, env_seq = entry_seq e,
        env_bytes = (if degraded then [] else unwrap_or [] (blob_get api (blobs node) h))\<rparr> = Reject reason \<longrightarrow>
      wake_for api delivery (HttpPushWaker cfg) creds node h e degraded = [])"
  using wr.number_of_targets [OF assms, of "entry_namespace e"] wr.tgts_abs [of "registry node" "entry_namespace e"]
  by (auto simp: wake_for_def Let_def)

section \<open>Witnesses\<close>

text \<open>A network nobody answers on.\<close>

definition silent_net :: "(content_hash, bytes) hmap net_api" where
  "silent_net = \<lparr>endpoint_from_bytes = Some, download = \<lambda>h src s. (False, s)\<rparr>"

lemma silent_net_laws: "net_laws memory_store silent_net"
  by (simp add: net_laws_def silent_net_def)

definition waiting_entry :: tracked_entry where
  "waiting_entry = \<lparr>entry_namespace = [1], entry_author = [], delivered_by = [7], entry_seq = 0,
     first_seen_ms = 0, content_present = False, woken = False, next_attempt_ms = 0, attempts = 0\<rparr>"

text \<open>The node of \<open>Node_State\<close>, without and with the bytes of its entry in the store.\<close>

definition filled_node :: "(unit, (content_hash, bytes) hmap) stash_node" where
  "filled_node = one_entry_node\<lparr>blobs := [([9], [9])]\<rparr>"

lemma one_entry_get: "hm_get (tracked one_entry_node) h = (if h = [9] then Some waiting_entry else None)"
  by (simp add: one_entry_node_def waiting_entry_def)

lemma filled_simps:
  "hm_get (tracked filled_node) h = (if h = [9] then Some waiting_entry else None)"
  "registry filled_node = registry one_entry_node" "content filled_node = content one_entry_node"
  "blob_has memory_store (blobs filled_node) [9] = Some True"
  by (simp_all add: filled_node_def one_entry_get memory_store_def)

lemma filled_inv: "node_inv filled_node"
  by (rule node_invI) (use node_invD [OF one_entry_inv] in \<open>simp_all add: filled_node_def\<close>)

lemma waiting_simps:
  "\<not> content_present waiting_entry" "\<not> woken waiting_entry" "next_attempt_ms waiting_entry = 0"
  "first_seen_ms waiting_entry = 0" "attempts waiting_entry = 0" "entry_namespace waiting_entry = [1]"
  by (simp_all add: waiting_entry_def)


lemma one_entry_pass:
  "hm_get (tracked (snd (settle_once memory_store silent_net now one_entry_node))) [9] =
     Some (settle_live now waiting_entry False waiting_entry)"
  by (simp add: settle_once_def outstanding_def one_entry_node_def waiting_entry_def settle_entry_def
      settle_probe_def store_has_def memory_store_def settle_commit_eq silent_net_def fetch_content_def)

theorem settle_wakes_exactly_witness:
  "([9], waiting_entry, True) \<in> set (fst (settle_once memory_store silent_net 30000 one_entry_node))"
  using settle_wakes_exactly [OF memory_store_laws silent_net_laws one_entry_inv, of 30000 "[9]" waiting_entry True]
  by (simp add: one_entry_get waiting_simps one_entry_pass)

lemma filled_released: "([9], waiting_entry, False) \<in> set (fst (settle_once memory_store silent_net 5 filled_node))"
  by (simp add: settle_once_def outstanding_def filled_node_def one_entry_node_def waiting_entry_def
      settle_entry_def settle_probe_def store_has_def memory_store_def settle_commit_eq settle_due_def)

theorem wakes_fire_once_witness:
  "distinct (map fst (fst (settle_runs memory_store silent_net [5, 30000, 60000] filled_node)))"
  by (rule wakes_fire_once [OF memory_store_laws silent_net_laws filled_inv])

theorem early_bytes_never_announced_witness:
  "fst (handle_insert_remote memory_store 5 [1] [] [8] [7] (one_entry_node\<lparr>blobs := [([8], [8])]\<rparr>)) = None"
proof -
  have "node_inv (one_entry_node\<lparr>blobs := [([8], [8])]\<rparr>)"
    by (rule node_invI) (use node_invD [OF one_entry_inv] in simp_all)
  from early_bytes_never_announced [OF memory_store_laws silent_net_laws this, of "[1]" "[8]" 5 "[]" "[7]"]
  show ?thesis by (simp add: one_entry_known one_entry_get memory_store_def)
qed

theorem second_record_wakes_twice_witness:
  "fst (handle_insert_remote memory_store 5 [1] [] [9] [7] filled_node) \<noteq> None"
  using second_record_wakes_twice [OF memory_store_laws silent_net_laws filled_inv, of "[1]" "[9]" waiting_entry 5 "[]" "[7]"]
  by (simp add: filled_simps one_entry_known waiting_simps)

definition phone :: push_subscription where
  "phone = \<lparr>platform = Apns, token = ''t''\<rparr>"

definition subscribed_node :: "(unit, (content_hash, bytes) hmap) stash_node" where
  "subscribed_node = one_entry_node\<lparr>registry := snd (register [1] (Some phone) new_registry)\<rparr>"

lemma wake_reaches_subscribers_witness:
  "length (wake_for memory_store default_delivery
     (HttpPushWaker \<lparr>apns_host = ''a'', bundle_id = ''b'', fcm_project_id = ''f''\<rparr>)
     \<lparr>apns_bearer = Some ''k'', fcm_bearer = None\<rparr> subscribed_node [9] waiting_entry True) = 1"
proof -
  have "{s. ([1], s) \<in> pairs (grants_of (registry subscribed_node))} = {phone}"
    by (simp add: subscribed_node_def wr.abs_reg grant_def)
      (simp add: grants_of_def wake_targets_def new_registry_def)
  moreover have "registry_inv (registry subscribed_node)"
    by (simp add: subscribed_node_def inv_intros)
  ultimately show ?thesis
    using wake_reaches_subscribers [of subscribed_node default_delivery waiting_entry True memory_store "[9]"]
    by (simp add: default_delivery_def passthrough_delivery_def waiting_simps)
qed

end
