(* ===== verification/Node_Prune.thy ===== *)
theory Node_Prune
  imports Node_State
begin

text \<open>
  \<open>rust/src/node.rs\<close>, third part: the retention sweep. The docs query is the parameter
  \<open>get_many\<close>: for a document handle it fails, or gives a stream whose items may fail. \<open>order\<close> is the
  order in which the set of hashes to forget is walked, which the hash table leaves open.
\<close>

record doc_entry =
  entry_key :: bytes
  entry_hash :: content_hash
  entry_timestamp :: u64

record prune_candidate =
  cand_hash :: content_hash
  cand_key :: bytes
  cand_written_ms :: u64

type_synonym 'd docs_query = "'d \<Rightarrow> (string, (string, doc_entry) result list) result"

text \<open>What one sweep counts.\<close>

record sweep =
  released :: nat
  superseded :: nat
  expired :: nat

text \<open>Draining the stream: the first failed item ends the sweep.\<close>

fun collect_candidates :: "(string, doc_entry) result list \<Rightarrow> (string, prune_candidate list) result" where
  "collect_candidates [] = Ok []"
| "collect_candidates (Err e # _) = Err e"
| "collect_candidates (Ok d # items) =
     (case collect_candidates items of
        Err e \<Rightarrow> Err e
      | Ok cs \<Rightarrow> Ok (\<lparr>cand_hash = entry_hash d, cand_key = entry_key d,
          cand_written_ms = entry_written_ms (entry_timestamp d)\<rparr> # cs))"

definition entry_of :: "prune_candidate \<Rightarrow> retention_entry" where
  "entry_of c = \<lparr>key = cand_key c, written_ms = cand_written_ms c\<rparr>"

definition kept_hashes :: "(prune_candidate \<times> release_reason option) list \<Rightarrow> content_hash hset" where
  "kept_hashes decided =
     fold (\<lambda>(c, decision) s. if decision = None then snd (hs_insert (cand_hash c) s) else s) decided []"

text \<open>The second loop: count the reasons, collect the hashes that no kept entry names.\<close>

fun select_hashes :: "content_hash hset \<Rightarrow> (prune_candidate \<times> release_reason option) list \<Rightarrow>
    content_hash hset \<Rightarrow> sweep \<Rightarrow> content_hash hset \<times> sweep" where
  "select_hashes kept [] forgets acc = (forgets, acc)"
| "select_hashes kept ((c, decision) # rest) forgets acc =
     (case decision of
        None \<Rightarrow> select_hashes kept rest forgets acc
      | Some reason \<Rightarrow>
          (let acc1 = (if is_superseded reason then acc\<lparr>superseded := superseded acc + 1\<rparr> else acc);
               acc2 = (if reason_is_expired reason then acc1\<lparr>expired := expired acc1 + 1\<rparr> else acc1)
           in if cand_hash c \<in> set kept then select_hashes kept rest forgets acc2
              else select_hashes kept rest (snd (hs_insert (cand_hash c) forgets)) acc2))"

text \<open>The third loop: forget each of them for this namespace.\<close>

fun forget_hashes :: "namespace_id \<Rightarrow> content_hash list \<Rightarrow> sweep \<Rightarrow> ('d, 'b) stash_node \<Rightarrow>
    sweep \<times> ('d, 'b) stash_node" where
  "forget_hashes ns [] acc node = (acc, node)"
| "forget_hashes ns (hash # rest) acc node =
     (let (last_reference, index) = forget ns hash (content node);
          node1 = node\<lparr>content := index\<rparr>
      in if last_reference
         then forget_hashes ns rest (acc\<lparr>released := released acc + 1\<rparr>)
                (node1\<lparr>tracked := hm_remove hash (tracked node1)\<rparr>)
         else forget_hashes ns rest acc node1)"

definition prune_namespace :: "(content_hash list \<Rightarrow> content_hash list) \<Rightarrow> u64 \<Rightarrow> namespace_id \<Rightarrow>
    prune_candidate list \<Rightarrow> sweep \<Rightarrow> ('d, 'b) stash_node \<Rightarrow> sweep \<times> ('d, 'b) stash_node" where
  "prune_namespace order now ns candidates acc node =
     (let decisions = release_decisions (map entry_of candidates) (node_retention node) now;
          decided = zip candidates decisions;
          (forgets, acc1) = select_hashes (kept_hashes decided) decided [] acc
      in forget_hashes ns (order forgets) acc1 node)"

fun prune_loop :: "'d docs_query \<Rightarrow> (content_hash list \<Rightarrow> content_hash list) \<Rightarrow> u64 \<Rightarrow>
    namespace_id list \<Rightarrow> sweep \<Rightarrow> ('d, 'b) stash_node \<Rightarrow> (string, sweep) result \<times> ('d, 'b) stash_node" where
  "prune_loop get_many order now [] acc node = (Ok acc, node)"
| "prune_loop get_many order now (ns # rest) acc node =
     (case hm_get (handles node) ns of
        None \<Rightarrow> prune_loop get_many order now rest acc node
      | Some doc \<Rightarrow>
          (case get_many doc of
             Err e \<Rightarrow> (Err e, node)
           | Ok items \<Rightarrow>
               (case collect_candidates items of
                  Err e \<Rightarrow> (Err e, node)
                | Ok candidates \<Rightarrow>
                    (let (acc1, node1) = prune_namespace order now ns candidates acc node
                     in prune_loop get_many order now rest acc1 node1))))"

definition prune_once :: "'d docs_query \<Rightarrow> (content_hash list \<Rightarrow> content_hash list) \<Rightarrow> u64 \<Rightarrow>
    ('d, 'b) stash_node \<Rightarrow> (string, sweep) result \<times> ('d, 'b) stash_node" where
  "prune_once get_many order now node =
     prune_loop get_many order now (known_namespaces (registry node))
       \<lparr>released = 0, superseded = 0, expired = 0\<rparr> node"

text \<open>What the container guarantees of an iteration order: each element of the set, once.\<close>

definition iteration_order :: "(content_hash list \<Rightarrow> content_hash list) \<Rightarrow> bool" where
  "iteration_order order \<longleftrightarrow> (\<forall>xs. distinct xs \<longrightarrow> distinct (order xs) \<and> set (order xs) = set xs)"

section \<open>What a namespace may release\<close>

definition keeps :: "prune_candidate list \<Rightarrow> retention_policy \<Rightarrow> u64 \<Rightarrow> prune_candidate \<Rightarrow> bool" where
  "keeps candidates p now c \<longleftrightarrow> release_spec (set (map entry_of candidates)) p now (entry_of c) = None"

definition releasable :: "prune_candidate list \<Rightarrow> retention_policy \<Rightarrow> u64 \<Rightarrow> content_hash \<Rightarrow> bool" where
  "releasable candidates p now h \<longleftrightarrow>
     h \<in> cand_hash ` set candidates \<and> (\<forall>c \<in> set candidates. cand_hash c = h \<longrightarrow> \<not> keeps candidates p now c)"

lemma decided_map:
  "zip candidates (release_decisions (map entry_of candidates) p now) =
     map (\<lambda>c. (c, release_spec (set (map entry_of candidates)) p now (entry_of c))) candidates"
  by (simp add: release_decisions_spec zip_map2 zip_same_conv_map)

lemma kept_hashes_set:
  "set (kept_hashes decided) = cand_hash ` {c. (c, None) \<in> set decided}"
proof -
  have "set (fold (\<lambda>(c, decision) s. if decision = None then snd (hs_insert (cand_hash c) s) else s) decided s)
      = set s \<union> cand_hash ` {c. (c, None) \<in> set decided}" for s
    by (induction decided arbitrary: s) (auto split: if_splits)
  then show ?thesis by (simp add: kept_hashes_def)
qed

lemma select_hashes_set:
  "set (fst (select_hashes kept decided forgets acc)) =
     set forgets \<union> (cand_hash ` {c. \<exists>r. (c, Some r) \<in> set decided} - set kept)"
  "distinct forgets \<Longrightarrow> distinct (fst (select_hashes kept decided forgets acc))"
  "released (snd (select_hashes kept decided forgets acc)) = released acc"
  by (induction kept decided forgets acc rule: select_hashes.induct)
    (auto simp: Let_def split: option.splits if_splits)

lemma decided_hashes:
  fixes candidates p now
  defines "decided \<equiv> zip candidates (release_decisions (map entry_of candidates) p now)"
  shows "set (fst (select_hashes (kept_hashes decided) decided [] acc)) = {h. releasable candidates p now h}"
proof -
  have kept: "{c. (c, None) \<in> set decided} = {c \<in> set candidates. keeps candidates p now c}"
    by (auto simp: decided_def decided_map keeps_def)
  have dropped: "{c. \<exists>r. (c, Some r) \<in> set decided} = {c \<in> set candidates. \<not> keeps candidates p now c}"
    by (auto simp: decided_def decided_map keeps_def image_iff) metis+
  show ?thesis
    unfolding select_hashes_set kept_hashes_set kept dropped releasable_def
    by (auto simp: image_iff) metis
qed

section \<open>Forgetting\<close>

lemma forget_count:
  assumes "index_inv i"
  shows "tracked_count i = tracked_count (snd (forget ns h i)) + (if fst (forget ns h i) then 1 else 0)"
proof -
  let ?j = "snd (forget ns h i)"
  have card: "index_inv k \<Longrightarrow> tracked_count k = card {x. is_tracked k x}" for k
    using hm_length [OF index_invD(1), of k] by (simp add: tracked_count_def is_tracked_def dom_def)
  have fin: "finite {x. is_tracked i x}"
    using finite_dom_map_of [of "state i"] by (simp add: is_tracked_def dom_def)
  have set: "{x. is_tracked ?j x} = (if fst (forget ns h i) then {x. is_tracked i x} - {h} else {x. is_tracked i x})"
    using forget_simps(3) [OF index_invD(2) [OF assms], of ns h] by auto
  have "is_tracked i h" if "fst (forget ns h i)"
    using that forget_simps(2) [OF index_invD(2) [OF assms], of ns h] index_invD(3) [OF assms, of h] by blast
  then show ?thesis
    unfolding card [OF assms] card [OF forget_inv [OF assms, of ns h]] set
    using fin by (auto simp: card_Diff_singleton) (metis card_gt_0_iff empty_iff mem_Collect_eq Suc_pred)
qed

definition forget_one :: "namespace_id \<Rightarrow> content_hash \<Rightarrow> ('d, 'b) stash_node \<Rightarrow> ('d, 'b) stash_node" where
  "forget_one ns h node =
     node\<lparr>content := snd (forget ns h (content node)),
       tracked := (if fst (forget ns h (content node)) then hm_remove h (tracked node) else tracked node)\<rparr>"

lemma forget_hashes_Cons:
  "forget_hashes ns (h # hs) acc node =
     forget_hashes ns hs
       (if fst (forget ns h (content node)) then acc\<lparr>released := released acc + 1\<rparr> else acc)
       (forget_one ns h node)"
  by (cases node) (simp add: forget_one_def split_beta Let_def)

declare forget_hashes.simps(2) [simp del]
declare forget_hashes_Cons [simp]

lemma forget_one_fields [simp]:
  "registry (forget_one ns h node) = registry node" "handles (forget_one ns h node) = handles node"
  "watchers (forget_one ns h node) = watchers node" "blobs (forget_one ns h node) = blobs node"
  "node_retention (forget_one ns h node) = node_retention node"
  "content (forget_one ns h node) = snd (forget ns h (content node))"
  by (simp_all add: forget_one_def)

lemma forget_one_inv [inv_intros]:
  assumes "node_inv node"
  shows "node_inv (forget_one ns h node)"
proof (rule node_inv_content [OF assms])
  note inv = node_invD [OF assms]
  note wf = index_invD(2) [OF inv(1)]
  show "index_inv (content (forget_one ns h node))"
    using inv(1) by (simp add: inv_intros)
  show "hm_wf (tracked (forget_one ns h node))"
    using inv(4) by (simp add: forget_one_def)
  show "is_known (registry node) ns'" if "is_tracked_for (content (forget_one ns h node)) ns' x" for ns' x
    using that inv(9) [of ns' x] by (simp add: forget_simps [OF wf])
  show "hm_get (tracked (forget_one ns h node)) x \<noteq> None \<longleftrightarrow> is_tracked (content (forget_one ns h node)) x" for x
    using tracked_iff [OF assms, of x] by (auto simp: forget_one_def forget_simps(3) [OF wf])
  show "is_present (content (forget_one ns h node)) x \<and> woken t"
    if "hm_get (tracked (forget_one ns h node)) x = Some t" "content_present t" for x t
    using that inv(10) [of x t] by (auto simp: forget_one_def forget_simps(4) [OF wf] split: if_splits)
qed (simp_all add: forget_one_def)

text \<open>What the third loop leaves: the references are gone, the count is the drop of the tracked hashes.\<close>

lemma forget_hashes_result:
  assumes "node_inv node"
  shows "node_inv (snd (forget_hashes ns hs acc node)) \<and>
    registry (snd (forget_hashes ns hs acc node)) = registry node \<and>
    handles (snd (forget_hashes ns hs acc node)) = handles node \<and>
    blobs (snd (forget_hashes ns hs acc node)) = blobs node \<and>
    node_retention (snd (forget_hashes ns hs acc node)) = node_retention node \<and>
    (\<forall>ns' h. is_tracked_for (content (snd (forget_hashes ns hs acc node))) ns' h \<longleftrightarrow>
      is_tracked_for (content node) ns' h \<and> \<not> (ns' = ns \<and> h \<in> set hs)) \<and>
    (\<forall>h. is_present (content (snd (forget_hashes ns hs acc node))) h \<longleftrightarrow>
      is_present (content node) h \<and> is_tracked (content (snd (forget_hashes ns hs acc node))) h) \<and>
    released (fst (forget_hashes ns hs acc node)) + tracked_count (content (snd (forget_hashes ns hs acc node))) =
      released acc + tracked_count (content node)"
  using assms
proof (induction hs arbitrary: acc node)
  case Nil
  then show ?case using is_present_tracked by auto
next
  case (Cons h hs)
  note wf = index_invD(2) [OF node_invD(1) [OF Cons.prems]]
  let ?n = "forget_one ns h node"
  let ?acc = "if fst (forget ns h (content node)) then acc\<lparr>released := released acc + 1\<rparr> else acc"
  let ?m = "snd (forget_hashes ns hs ?acc ?n)"
  have IH: "node_inv ?m \<and> registry ?m = registry ?n \<and> handles ?m = handles ?n \<and> blobs ?m = blobs ?n \<and>
    node_retention ?m = node_retention ?n \<and>
    (\<forall>ns' x. is_tracked_for (content ?m) ns' x \<longleftrightarrow>
      is_tracked_for (content ?n) ns' x \<and> \<not> (ns' = ns \<and> x \<in> set hs)) \<and>
    (\<forall>x. is_present (content ?m) x \<longleftrightarrow> is_present (content ?n) x \<and> is_tracked (content ?m) x) \<and>
    released (fst (forget_hashes ns hs ?acc ?n)) + tracked_count (content ?m) =
      released ?acc + tracked_count (content ?n)"
    by (rule Cons.IH) (rule forget_one_inv [OF Cons.prems])
  have gone: "\<not> is_tracked (content ?m) h" if "fst (forget ns h (content node))"
  proof
    assume "is_tracked (content ?m) h"
    then obtain ns' where "is_tracked_for (content ?m) ns' h"
      using IH index_invD(3) [OF node_invD(1), of ?m h] by blast
    then have "is_tracked_for (content node) ns' h" "ns' \<noteq> ns"
      using IH forget_simps(1) [OF wf] by auto
    then show False
      using that forget_simps(2) [OF wf] by blast
  qed
  have "released ?acc + tracked_count (content ?n) = released acc + tracked_count (content node)"
    using forget_count [OF node_invD(1) [OF Cons.prems], of ns h] by simp
  then show ?case
    using IH gone by (auto simp: forget_simps(1,4) [OF wf])
qed

section \<open>One namespace, then all\<close>

lemma prune_namespace_result:
  fixes order now ns candidates acc and node :: "('d, 'b) stash_node"
  assumes "node_inv node" "iteration_order order"
  defines "m \<equiv> snd (prune_namespace order now ns candidates acc node)"
  shows "node_inv m \<and> registry m = registry node \<and> handles m = handles node \<and> blobs m = blobs node \<and>
    node_retention m = node_retention node \<and>
    (\<forall>ns' h. is_tracked_for (content m) ns' h \<longleftrightarrow> is_tracked_for (content node) ns' h \<and>
      \<not> (ns' = ns \<and> releasable candidates (node_retention node) now h)) \<and>
    (\<forall>h. is_present (content m) h \<longleftrightarrow> is_present (content node) h \<and> is_tracked (content m) h) \<and>
    released (fst (prune_namespace order now ns candidates acc node)) + tracked_count (content m) =
      released acc + tracked_count (content node)"
proof -
  let ?decided = "zip candidates (release_decisions (map entry_of candidates) (node_retention node) now)"
  define sel where "sel = select_hashes (kept_hashes ?decided) ?decided [] acc"
  have sel: "set (order (fst sel)) = {h. releasable candidates (node_retention node) now h}"
      "released (snd sel) = released acc"
    using assms(2) select_hashes_set(2) [of "[]" "kept_hashes ?decided" ?decided acc]
      decided_hashes [of candidates "node_retention node" now acc]
    by (simp_all add: iteration_order_def sel_def select_hashes_set(3))
  have run: "prune_namespace order now ns candidates acc node =
      forget_hashes ns (order (fst sel)) (snd sel) node"
    by (simp add: prune_namespace_def Let_def split_beta sel_def)
  show ?thesis
    using forget_hashes_result [OF assms(1), of ns "order (fst sel)" "snd sel"]
    unfolding m_def run sel by simp
qed

text \<open>The candidates of a namespace, when its handle and the query deliver them.\<close>

definition docs_of :: "'d docs_query \<Rightarrow> ('d, 'b) stash_node \<Rightarrow> namespace_id \<Rightarrow> prune_candidate list option" where
  "docs_of get_many node ns =
     (case hm_get (handles node) ns of None \<Rightarrow> None
      | Some doc \<Rightarrow> (case get_many doc of Err _ \<Rightarrow> None
        | Ok items \<Rightarrow> (case collect_candidates items of Err _ \<Rightarrow> None | Ok cs \<Rightarrow> Some cs)))"

definition may_release :: "'d docs_query \<Rightarrow> u64 \<Rightarrow> ('d, 'b) stash_node \<Rightarrow> namespace_id \<Rightarrow> content_hash \<Rightarrow> bool" where
  "may_release get_many now node ns h \<longleftrightarrow>
     (\<exists>cs. docs_of get_many node ns = Some cs \<and> releasable cs (node_retention node) now h)"

lemma prune_loop_step:
  obtains (skip) "docs_of get_many node ns = None" "hm_get (handles node) ns = None"
      "prune_loop get_many order now (ns # rest) acc node = prune_loop get_many order now rest acc node"
  | (stop) e where "docs_of get_many node ns = None" "hm_get (handles node) ns \<noteq> None"
      "prune_loop get_many order now (ns # rest) acc node = (Err e, node)"
  | (sweep) cs where "docs_of get_many node ns = Some cs"
      "prune_loop get_many order now (ns # rest) acc node =
         prune_loop get_many order now rest (fst (prune_namespace order now ns cs acc node))
           (snd (prune_namespace order now ns cs acc node))"
proof (cases "hm_get (handles node) ns")
  case None
  then show ?thesis by (intro skip) (simp_all add: docs_of_def)
next
  case h: (Some doc)
  show ?thesis
  proof (cases "get_many doc")
    case (Inl e)
    with h show ?thesis by (intro stop) (simp_all add: docs_of_def)
  next
    case g: (Inr items)
    show ?thesis
    proof (cases "collect_candidates items")
      case (Inl e)
      with h g show ?thesis by (intro stop) (simp_all add: docs_of_def)
    next
      case (Inr cs)
      with h g show ?thesis by (intro sweep) (simp_all add: docs_of_def split_beta Let_def)
    qed
  qed
qed

lemma docs_of_cong:
  "handles m = handles node \<Longrightarrow> docs_of get_many m ns = docs_of get_many node ns"
  by (simp add: docs_of_def)

lemma may_release_cong:
  "handles m = handles node \<Longrightarrow> node_retention m = node_retention node \<Longrightarrow>
   may_release get_many now m ns h = may_release get_many now node ns h"
  by (simp add: may_release_def docs_of_cong [of m node])

text \<open>
  The loop, from any point and whether or not it ends in an error: the namespaces visited release
  exactly what they may, all others nothing, and the count is the drop of the tracked hashes.
\<close>

lemma prune_loop_result:
  fixes get_many :: "'d docs_query" and order now nss acc and node :: "('d, 'b) stash_node"
  assumes "node_inv node" "iteration_order order"
  defines "m \<equiv> snd (prune_loop get_many order now nss acc node)"
  shows "node_inv m \<and> registry m = registry node \<and> handles m = handles node \<and> blobs m = blobs node \<and>
    node_retention m = node_retention node \<and>
    (\<forall>ns h. is_tracked_for (content m) ns h \<longrightarrow> is_tracked_for (content node) ns h) \<and>
    (\<forall>ns h. is_tracked_for (content node) ns h \<and> \<not> (ns \<in> set nss \<and> may_release get_many now node ns h) \<longrightarrow>
       is_tracked_for (content m) ns h) \<and>
    (\<forall>h. is_present (content m) h \<longleftrightarrow> is_present (content node) h \<and> is_tracked (content m) h) \<and>
    (\<forall>c. fst (prune_loop get_many order now nss acc node) = Ok c \<longrightarrow>
       (\<forall>ns h. ns \<in> set nss \<and> may_release get_many now node ns h \<longrightarrow> \<not> is_tracked_for (content m) ns h) \<and>
       released c + tracked_count (content m) = released acc + tracked_count (content node))"
  unfolding m_def using assms(1)
proof (induction nss arbitrary: acc node)
  case Nil
  then show ?case using is_present_tracked by auto
next
  case (Cons ns nss)
  show ?case
  proof (cases rule: prune_loop_step [of get_many node ns order now nss acc])
    case skip
    have "\<not> may_release get_many now node ns h" for h
      by (simp add: may_release_def skip(1))
    then show ?thesis
      using Cons.IH [OF Cons.prems, of acc] unfolding skip(3) by auto
  next
    case (stop e)
    then show ?thesis
      using Cons.prems is_present_tracked by auto
  next
    case (sweep cs)
    let ?n = "snd (prune_namespace order now ns cs acc node)"
    let ?acc = "fst (prune_namespace order now ns cs acc node)"
    let ?m = "snd (prune_loop get_many order now nss ?acc ?n)"
    have one: "may_release get_many now node ns h \<longleftrightarrow> releasable cs (node_retention node) now h" for h
      by (simp add: may_release_def sweep(1))
    note ns = prune_namespace_result [OF Cons.prems assms(2), of now ns cs acc]
    note IH = Cons.IH [of ?n ?acc]
    have same: "may_release get_many now ?n ns' h = may_release get_many now node ns' h" for ns' h
      using ns by (intro may_release_cong) blast+
    have n: "node_inv ?n" "registry ?n = registry node" "handles ?n = handles node" "blobs ?n = blobs node"
        "node_retention ?n = node_retention node"
        "is_tracked_for (content ?n) ns' h \<longleftrightarrow> is_tracked_for (content node) ns' h \<and>
          \<not> (ns' = ns \<and> may_release get_many now node ns h)"
        "is_present (content ?n) h \<longleftrightarrow> is_present (content node) h \<and> is_tracked (content ?n) h"
        "released ?acc + tracked_count (content ?n) = released acc + tracked_count (content node)" for ns' h
      using ns unfolding one by blast+
    have m: "node_inv ?m" "registry ?m = registry ?n" "handles ?m = handles ?n" "blobs ?m = blobs ?n"
        "node_retention ?m = node_retention ?n"
        "is_tracked_for (content ?m) ns' h \<Longrightarrow> is_tracked_for (content ?n) ns' h"
        "is_tracked_for (content ?n) ns' h \<Longrightarrow> \<not> (ns' \<in> set nss \<and> may_release get_many now node ns' h) \<Longrightarrow>
          is_tracked_for (content ?m) ns' h"
        "is_present (content ?m) h \<longleftrightarrow> is_present (content ?n) h \<and> is_tracked (content ?m) h"
        "fst (prune_loop get_many order now nss ?acc ?n) = Ok c \<Longrightarrow> ns' \<in> set nss \<Longrightarrow>
          may_release get_many now node ns' h \<Longrightarrow> \<not> is_tracked_for (content ?m) ns' h"
        "fst (prune_loop get_many order now nss ?acc ?n) = Ok c \<Longrightarrow>
          released c + tracked_count (content ?m) = released ?acc + tracked_count (content ?n)" for ns' h c
      using IH [OF n(1)] unfolding same by blast+
    have present: "is_present (content ?m) h \<longleftrightarrow> is_present (content node) h \<and> is_tracked (content ?m) h" for h
    proof -
      have "is_tracked (content ?n) h" if "is_tracked (content ?m) h"
        using that m(6) [of _ h] index_invD(3) [OF node_invD(1) [OF m(1)], of h]
          index_invD(3) [OF node_invD(1) [OF n(1)], of h] by metis
      then show ?thesis
        unfolding m(8) [of h] n(7) [of h] by blast
    qed
    show ?thesis
      unfolding sweep(2)
    proof (intro conjI allI impI)
      show "node_inv ?m" by (rule m(1))
      show "registry ?m = registry node" "handles ?m = handles node" "blobs ?m = blobs node"
        "node_retention ?m = node_retention node"
        using m(2-5) n(2-5) by simp_all
      show "is_tracked_for (content ?m) ns' h \<Longrightarrow> is_tracked_for (content node) ns' h" for ns' h
        using m(6) n(6) by blast
      show "is_tracked_for (content ?m) ns' h"
        if "is_tracked_for (content node) ns' h \<and> \<not> (ns' \<in> set (ns # nss) \<and> may_release get_many now node ns' h)"
        for ns' h
        using m(7) n(6) that by (metis list.set_intros)
      show "is_present (content ?m) h \<longleftrightarrow> is_present (content node) h \<and> is_tracked (content ?m) h" for h
        by (rule present)
      show "\<not> is_tracked_for (content ?m) ns' h"
        if "fst (prune_loop get_many order now nss ?acc ?n) = Ok c"
          "ns' \<in> set (ns # nss) \<and> may_release get_many now node ns' h" for c ns' h
        using m(6,9) n(6) that by (metis set_ConsD)
      show "released c + tracked_count (content ?m) = released acc + tracked_count (content node)"
        if "fst (prune_loop get_many order now nss ?acc ?n) = Ok c" for c
        using m(10) [OF that] n(8) by simp
    qed
  qed
qed

text \<open>The sweep succeeds just when every document it has a handle for can be read to the end.\<close>

lemma prune_loop_ok:
  assumes "node_inv node" "iteration_order order"
  shows "(\<exists>c. fst (prune_loop get_many order now nss acc node) = Ok c) \<longleftrightarrow>
    (\<forall>ns \<in> set nss. hm_get (handles node) ns = None \<or> docs_of get_many node ns \<noteq> None)"
  using assms(1)
proof (induction nss arbitrary: acc node)
  case (Cons ns nss)
  show ?case
  proof (cases rule: prune_loop_step [of get_many node ns order now nss acc])
    case skip
    then show ?thesis using Cons.IH [OF Cons.prems, of acc] by simp
  next
    case (stop e)
    then show ?thesis by auto
  next
    case (sweep cs)
    note n = prune_namespace_result [OF Cons.prems assms(2), of now ns cs acc]
    then have same: "handles (snd (prune_namespace order now ns cs acc node)) = handles node"
      by blast
    have "node_inv (snd (prune_namespace order now ns cs acc node))"
      using n by blast
    from Cons.IH [OF this, of "fst (prune_namespace order now ns cs acc node)"] show ?thesis
      by (simp add: sweep same docs_of_cong [OF same] del: prune_loop.simps)
  qed
qed simp

lemma tracked_known:
  "node_inv node \<Longrightarrow> is_tracked_for (content node) ns h \<Longrightarrow> ns \<in> set (known_namespaces (registry node))"
  using node_invD(9) [of node ns h] by (simp add: is_known_def known_namespaces_def)

lemma prune_once_result:
  fixes get_many :: "'d docs_query" and order now and node :: "('d, 'b) stash_node"
  assumes "node_inv node" "iteration_order order"
  defines "m \<equiv> snd (prune_once get_many order now node)"
  shows "node_inv m" "registry m = registry node" "handles m = handles node" "blobs m = blobs node"
    "node_retention m = node_retention node"
    "is_tracked_for (content m) ns h \<Longrightarrow> is_tracked_for (content node) ns h"
    "is_tracked_for (content node) ns h \<Longrightarrow> \<not> may_release get_many now node ns h \<Longrightarrow>
      is_tracked_for (content m) ns h"
    "is_present (content m) h \<longleftrightarrow> is_present (content node) h \<and> is_tracked (content m) h"
    "fst (prune_once get_many order now node) = Ok c \<Longrightarrow> may_release get_many now node ns h \<Longrightarrow>
      \<not> is_tracked_for (content m) ns h"
    "fst (prune_once get_many order now node) = Ok c \<Longrightarrow>
      released c + tracked_count (content m) = tracked_count (content node)"
proof -
  note res = prune_loop_result [OF assms(1,2), of get_many now "known_namespaces (registry node)"
      "\<lparr>released = 0, superseded = 0, expired = 0\<rparr>", folded prune_once_def m_def]
  show "node_inv m" "registry m = registry node" "handles m = handles node" "blobs m = blobs node"
    "node_retention m = node_retention node"
    "is_present (content m) h \<longleftrightarrow> is_present (content node) h \<and> is_tracked (content m) h"
    using res by blast+
  show sub: "is_tracked_for (content m) ns h \<Longrightarrow> is_tracked_for (content node) ns h" for ns h
    using res by blast
  show "is_tracked_for (content node) ns h \<Longrightarrow> \<not> may_release get_many now node ns h \<Longrightarrow>
      is_tracked_for (content m) ns h"
    using res by blast
  show "\<not> is_tracked_for (content m) ns h"
    if "fst (prune_once get_many order now node) = Ok c" "may_release get_many now node ns h"
  proof
    assume t: "is_tracked_for (content m) ns h"
    have "ns \<in> set (known_namespaces (registry node))"
      using tracked_known [OF assms(1) sub [OF t]] .
    then show False using res that t by blast
  qed
  show "released c + tracked_count (content m) = tracked_count (content node)"
    if "fst (prune_once get_many order now node) = Ok c"
    using res that by auto
qed

section \<open>Properties\<close>

text \<open>
  C4. A completed sweep drops exactly the references the policy releases: a namespace stops
  referencing a hash just when its document names the hash and every entry naming it is superseded
  or expired. The number it returns is the number of hashes nobody references any more, and the
  node stays well formed, so the settle loop has stopped chasing exactly those.
\<close>

theorem sweep_exact:
  assumes "node_inv node" "iteration_order order" "prune_once get_many order now node = (Ok c, node')"
  shows "node_inv node' \<and>
    (is_tracked_for (content node') ns h \<longleftrightarrow>
      is_tracked_for (content node) ns h \<and> \<not> may_release get_many now node ns h) \<and>
    released c + tracked_count (content node') = tracked_count (content node)"
  using prune_once_result [OF assms(1,2), where get_many = get_many and now = now] unfolding assms(3) by auto

text \<open>
  C13. No sweep, not even one that fails half-way, takes away what a kept entry needs: the bytes
  named by an entry the policy keeps, and everything of a namespace whose document cannot be read,
  stay readable as they were.
\<close>

theorem sweep_spares_kept:
  assumes "node_inv node" "iteration_order order"
    and "docs_of get_many node ns = None \<or>
      (\<exists>cs c. docs_of get_many node ns = Some cs \<and> c \<in> set cs \<and> cand_hash c = h \<and>
         keeps cs (node_retention node) now c)"
  shows "content_bytes api (snd (prune_once get_many order now node)) ns h = content_bytes api node ns h"
proof -
  let ?m = "snd (prune_once get_many order now node)"
  note res = prune_once_result [OF assms(1,2), where get_many = get_many and now = now]
  have "\<not> may_release get_many now node ns h"
    using assms(3) by (auto simp: may_release_def releasable_def)
  then have same: "is_tracked_for (content ?m) ns h \<longleftrightarrow> is_tracked_for (content node) ns h"
    using res(6,7) by blast
  have "is_present (content ?m) h \<longleftrightarrow> is_present (content node) h" if "is_tracked_for (content ?m) ns h"
    using that res(8) index_invD(3) [OF node_invD(1) [OF res(1)], of h] by blast
  then show ?thesis
    using same by (auto simp: content_bytes_def is_present_for_iff res(4))
qed

text \<open>
  Latest only: after a completed sweep the ciphertext of a fix is gone for its namespace as soon
  as the document holds a fix of the same author with a higher sequence number, unless another
  entry that is kept names the very same bytes.
\<close>

lemma superseded_fix_released:
  assumes "node_inv node" "iteration_order order" "prune_once get_many order now node = (Ok c, node')"
    and "docs_of get_many node ns = Some cs" "old \<in> set cs" "newer \<in> set cs"
    and "decode_fix_key (cand_key old) = Some f" "decode_fix_key (cand_key newer) = Some g"
    and "author f = author g" "seq f < seq g"
    and "\<And>d. d \<in> set cs \<Longrightarrow> cand_hash d = cand_hash old \<Longrightarrow> keeps cs (node_retention node) now d \<Longrightarrow> d = old"
  shows "\<not> is_tracked_for (content node') ns (cand_hash old) \<and>
    content_bytes api node' ns (cand_hash old) = None"
proof -
  have "superseded_in (set (map entry_of cs)) (entry_of old)"
    using assms(6-10) by (auto simp: superseded_in_def entry_of_def)
  then have "\<not> keeps cs (node_retention node) now old"
    by (simp add: keeps_def release_spec_None)
  then have "may_release get_many now node ns (cand_hash old)"
    using assms(4,5,11) unfolding may_release_def releasable_def by blast
  then have "\<not> is_tracked_for (content node') ns (cand_hash old)"
    using prune_once_result(9) [OF assms(1,2), where get_many = get_many and now = now] unfolding assms(3) by simp
  then show ?thesis
    by (simp add: content_bytes_def is_present_for_iff)
qed

text \<open>
  A second sweep at the same time over the same documents succeeds, releases nothing and
  leaves every reference alone.
\<close>

lemma sweep_idempotent:
  assumes "node_inv node" "iteration_order order" "iteration_order order'"
    and "prune_once get_many order now node = (Ok c, node')"
  shows "\<exists>c'. fst (prune_once get_many order' now node') = Ok c' \<and> released c' = 0 \<and>
    (is_tracked_for (content (snd (prune_once get_many order' now node'))) ns h \<longleftrightarrow>
      is_tracked_for (content node') ns h)"
proof -
  note res = prune_once_result [OF assms(1,2), where get_many = get_many and now = now, unfolded assms(4) snd_conv fst_conv]
  note again = prune_once_result [OF res(1) assms(3), where get_many = get_many and now = now]
  have may: "may_release get_many now node' ns h = may_release get_many now node ns h" for ns h
    using res(3,5) by (rule may_release_cong)
  let ?m = "snd (prune_once get_many order' now node')"
  have same: "is_tracked_for (content ?m) ns h \<longleftrightarrow> is_tracked_for (content node') ns h" for ns h
    using again(6,7) res(9) [OF refl] unfolding may by blast
  have "\<exists>c. fst (prune_once get_many order now node) = Ok c"
    by (simp add: assms(4))
  then have "\<exists>c'. fst (prune_once get_many order' now node') = Ok c'"
    unfolding prune_once_def prune_loop_ok [OF assms(1,2)] prune_loop_ok [OF res(1) assms(3)] res(2)
      docs_of_cong [OF res(3)] res(3) .
  then obtain c' where c': "fst (prune_once get_many order' now node') = Ok c'" ..
  have "snd ` refs (ledger_of (content ?m)) = snd ` refs (ledger_of (content node'))"
    by (simp add: ledger_of_def same)
  then have "tracked_count (content ?m) = tracked_count (content node')"
    using hm_length [OF index_invD(1) [OF node_invD(1) [OF again(1)]]]
      hm_length [OF index_invD(1) [OF node_invD(1) [OF res(1)]]]
      hm_keys [OF index_invD(1) [OF node_invD(1) [OF again(1)]]]
      hm_keys [OF index_invD(1) [OF node_invD(1) [OF res(1)]]]
      referenced_set [OF node_invD(1) [OF again(1)]] referenced_set [OF node_invD(1) [OF res(1)]]
    by (simp add: tracked_count_def referenced_def)
  then have "released c' = 0"
    using again(10) [OF c'] by simp
  then show ?thesis
    using c' same by blast
qed

text \<open>
  C22. What the sweep cannot see it never frees. A hash that no current entry of the document names,
  such as the old value of an overwritten control slot, stays referenced through every sweep at any
  time, and so stays protected from the collector.
\<close>

theorem unnamed_hash_never_released:
  assumes "node_inv node" "iteration_order order" "is_tracked_for (content node) ns h"
    and "\<And>cs c. docs_of get_many node ns = Some cs \<Longrightarrow> c \<in> set cs \<Longrightarrow> cand_hash c \<noteq> h"
  shows "is_tracked_for (content (snd (prune_once get_many order now node))) ns h \<and>
    h \<in> set (protect (snd (prune_once get_many order now node)) [])"
proof -
  note res = prune_once_result [OF assms(1,2), where get_many = get_many and now = now]
  have "\<not> may_release get_many now node ns h"
    using assms(4) by (force simp: may_release_def releasable_def)
  then have "is_tracked_for (content (snd (prune_once get_many order now node))) ns h"
    using res(7) assms(3) by blast
  then show ?thesis
    using protect_set [OF res(1), of "[]"] by auto
qed

section \<open>Witnesses\<close>

text \<open>One author's two fixes; the node of \<open>Node_State\<close> still references the older one.\<close>

definition old_fix :: prune_candidate where
  "old_fix = \<lparr>cand_hash = [9], cand_key = encode_fix_key [0xA1] 1, cand_written_ms = 5\<rparr>"

definition new_fix :: prune_candidate where
  "new_fix = \<lparr>cand_hash = [8], cand_key = encode_fix_key [0xA1] 2, cand_written_ms = 5\<rparr>"

definition two_fix_docs :: "unit docs_query" where
  "two_fix_docs doc = Ok
     [Ok \<lparr>entry_key = encode_fix_key [0xA1] 1, entry_hash = [9], entry_timestamp = 5000\<rparr>,
      Ok \<lparr>entry_key = encode_fix_key [0xA1] 2, entry_hash = [8], entry_timestamp = 5000\<rparr>]"

lemma two_fix_docs_of: "docs_of two_fix_docs one_entry_node ns = (if ns = [1] then Some [old_fix, new_fix] else None)"
  by (simp add: docs_of_def one_entry_node_def two_fix_docs_def old_fix_def new_fix_def entry_written_ms_def)

lemma two_fix_decode:
  "decode_fix_key (cand_key old_fix) = Some \<lparr>author = [0xA1], seq = 1\<rparr>"
  "decode_fix_key (cand_key new_fix) = Some \<lparr>author = [0xA1], seq = 2\<rparr>"
  by (simp_all add: old_fix_def new_fix_def)

lemma two_fix_hashes: "cand_hash old_fix = [9]" "cand_hash new_fix = [8]"
  by (simp_all add: old_fix_def new_fix_def)

lemma two_fix_keeps:
  "\<not> keeps [old_fix, new_fix] p now old_fix"
  "keeps [old_fix, new_fix] (from_hours 1) 10 new_fix"
  using two_fix_decode
  by (auto simp: keeps_def release_spec_None superseded_in_def entry_of_def is_expired_iff hour_window)

lemma one_entry_retention: "node_retention one_entry_node = from_hours 1"
  by (simp add: one_entry_node_def)

lemma identity_order: "iteration_order (\<lambda>xs. xs)"
  by (simp add: iteration_order_def)

lemma two_fix_may: "may_release two_fix_docs 10 one_entry_node [1] [9]"
  using two_fix_keeps(1) by (auto simp: may_release_def two_fix_docs_of releasable_def two_fix_hashes)

lemma two_fix_sweep:
  obtains c node' where "prune_once two_fix_docs (\<lambda>xs. xs) 10 one_entry_node = (Ok c, node')"
proof -
  have "\<exists>c. fst (prune_once two_fix_docs (\<lambda>xs. xs) 10 one_entry_node) = Ok c"
    unfolding prune_once_def prune_loop_ok [OF one_entry_inv identity_order]
    by (simp add: two_fix_docs_of known_namespaces_def) (simp add: one_entry_node_def)
  then show ?thesis using that by (metis prod.collapse)
qed

theorem sweep_exact_witness:
  "\<not> is_tracked_for (content (snd (prune_once two_fix_docs (\<lambda>xs. xs) 10 one_entry_node))) [1] [9]"
proof -
  obtain c node' where run: "prune_once two_fix_docs (\<lambda>xs. xs) 10 one_entry_node = (Ok c, node')"
    by (rule two_fix_sweep)
  show ?thesis
    using sweep_exact [OF one_entry_inv identity_order run, of "[1]" "[9]"] two_fix_may by (simp add: run)
qed

theorem sweep_spares_kept_witness:
  "content_bytes memory_store (snd (prune_once two_fix_docs (\<lambda>xs. xs) 10 one_entry_node)) [1] [8]
     = content_bytes memory_store one_entry_node [1] [8]"
proof (rule sweep_spares_kept [OF one_entry_inv identity_order], intro disjI2 exI conjI)
  show "docs_of two_fix_docs one_entry_node [1] = Some [old_fix, new_fix]"
    by (simp add: two_fix_docs_of)
qed (use two_fix_keeps(2) in \<open>auto simp: two_fix_hashes one_entry_retention\<close>)

theorem unnamed_hash_never_released_witness:
  "is_tracked_for (content (snd (prune_once (\<lambda>doc. Ok []) (\<lambda>xs. xs) 10 one_entry_node))) [1] [9]"
  by (rule conjunct1 [OF unnamed_hash_never_released [OF one_entry_inv identity_order]])
    (auto simp: one_entry_tracked docs_of_def split: option.splits)

end
