(* ===== verification/Auth.thy ===== *)
theory Auth
  imports Rust_Std
begin

text \<open>
  \<open>rust/src/auth.rs\<close>: the pre-shared-key gate of the control API. The lemmas show that the
  constant-time comparison is equality, that the gate admits exactly the matching bearer, and that
  the header a client writes for a key is read back as that key.
\<close>

datatype auth_outcome = Disabled | AuthOk | Denied

fun is_allowed :: "auth_outcome \<Rightarrow> bool" where
  "is_allowed Disabled = True"
| "is_allowed AuthOk = True"
| "is_allowed Denied = False"

text \<open>The loop accumulates the differing bits of all positions and never stops early.\<close>

definition ct_eq :: "bytes \<Rightarrow> bytes \<Rightarrow> bool" where
  "ct_eq a b =
     (if length a \<noteq> length b then False
      else foldl (\<lambda>diff (x, y). diff OR (x XOR y)) 0 (zip a b) = 0)"

definition authorize :: "string option \<Rightarrow> string option \<Rightarrow> auth_outcome" where
  "authorize expected provided =
     (case expected of
        None \<Rightarrow> Disabled
      | Some psk \<Rightarrow>
          (case provided of
             Some tok \<Rightarrow> if ct_eq (as_bytes psk) (as_bytes tok) then AuthOk else Denied
           | None \<Rightarrow> Denied))"

definition bearer_token :: "string option \<Rightarrow> string option" where
  "bearer_token header_value = do {
     h \<leftarrow> header_value;
     let v = trim h;
     (scheme, token) \<leftarrow> split_once (CHR '' '') v;
     (if eq_ignore_ascii_case scheme ''bearer'' \<and> trim token \<noteq> [] then Some (trim token) else None)
   }"

section \<open>The comparison is equality\<close>

lemma or_eq_zero: "(a :: 'a::len word) OR b = 0 \<longleftrightarrow> a = 0 \<and> b = 0"
  by (auto simp: bit_eq_iff bit_or_iff)

lemma xor_eq_zero: "(a :: 'a::len word) XOR b = 0 \<longleftrightarrow> a = b"
  by (auto simp: bit_eq_iff bit_xor_iff)

lemma foldl_diff_zero:
  "foldl (\<lambda>diff (x, y). diff OR (x XOR y)) d zs = (0 :: u8) \<longleftrightarrow> d = 0 \<and> (\<forall>(x, y) \<in> set zs. x = y)"
  by (induction zs arbitrary: d) (auto simp: or_eq_zero xor_eq_zero)

lemma ct_eq_iff: "ct_eq a b \<longleftrightarrow> a = b"
proof (cases "length a = length b")
  case True
  have "(\<forall>(x, y) \<in> set (zip a b). x = y) \<longleftrightarrow> a = b"
    using True by (induction a b rule: list_induct2) auto
  with True show ?thesis by (simp add: ct_eq_def foldl_diff_zero)
next
  case False
  then show ?thesis by (auto simp: ct_eq_def)
qed

lemma authorize_simps [simp]:
  "authorize None p = Disabled"
  "authorize (Some k) None = Denied"
  "authorize (Some k) (Some t) = (if k = t then AuthOk else Denied)"
  by (simp_all add: authorize_def ct_eq_iff)

section \<open>The bearer header\<close>

lemma trim_fixed_ends:
  assumes "trim k = k"
  shows "trim_start k = k" "trim_end k = k"
proof -
  show s: "trim_start k = k" using trim_start_trim [of k] assms by simp
  show "trim_end k = k" using assms s by (simp add: trim_def)
qed

lemma trim_bearer:
  assumes "trim k = k" "k \<noteq> []"
  shows "trim (''Bearer '' @ k) = ''Bearer '' @ k"
proof -
  let ?P = "\<lambda>b a. ws2 a b" and ?Q = "\<lambda>c b a. ws3 a b c"
  obtain c s where k: "rev k = c # s"
    using assms(2) by (cases "rev k") auto
  have "strip_ws ?P ?Q (c # s) = c # s"
    using trim_fixed_ends(2) [OF assms(1)] k by (simp add: trim_end_def rev_swap del: strip_ws.simps)
  then have "strip_ws ?P ?Q (c # s @ rev ''Bearer '') = c # s @ rev ''Bearer ''"
    unfolding strip_ws_fixed
    by (cases s; cases "tl s") (auto simp: ws2_def ws3_def chr_byte_def Let_def)
  then have "trim_end (''Bearer '' @ k) = ''Bearer '' @ k"
    using k by (simp add: trim_end_def rev_swap del: strip_ws.simps)
  moreover have "trim_start (''Bearer '' @ k) = ''Bearer '' @ k"
    by (simp add: trim_start_def ws1_def ws2_def ws3_def chr_byte_def Let_def split: list.split)
  ultimately show ?thesis by (simp add: trim_def)
qed

lemma bearer_token_bearer:
  assumes "trim k = k" "k \<noteq> []"
  shows "bearer_token (Some (''Bearer '' @ k)) = Some k"
proof -
  have "split_once (CHR '' '') (''Bearer '' @ k) = Some (''Bearer'', k)"
    using split_once_append [of "CHR '' ''" "''Bearer''" k] by simp
  moreover have "eq_ignore_ascii_case ''Bearer'' ''bearer''"
    by (simp add: eq_ignore_ascii_case_def ascii_lower_def chr_byte_def)
  ultimately show ?thesis
    using trim_bearer [OF assms] assms by (simp add: bearer_token_def del: append.simps)
qed

lemma bearer_token_Some:
  assumes "bearer_token h = Some t"
  shows "t \<noteq> [] \<and> trim t = t"
  using assms by (auto simp: bearer_token_def Let_def split: Option.bind_splits if_splits)

section \<open>Properties\<close>

text \<open>
  The gate admits a request just when no key is configured or the presented bearer is exactly
  the configured key: the constant-time comparison that ORs up all differing bits is equality, with
  neither a prefix nor a length accident let through.
\<close>

lemma gate_admits_exactly_the_key:
  "is_allowed (authorize expected provided) \<longleftrightarrow>
     expected = None \<or> (\<exists>key. expected = Some key \<and> provided = Some key)"
  by (cases expected; cases provided) auto

text \<open>
  A client that sends its key as \<open>Bearer <key>\<close>, with any white space around the header value,
  is admitted: for every key without white space at its ends (which is what the configuration
  yields), reading the header gives back the key and the gate opens.
\<close>

lemma bearer_header_opens_gate:
  assumes "trim key = key" "key \<noteq> []" "trim header = ''Bearer '' @ key"
  shows "bearer_token (Some header) = Some key \<and>
    authorize (Some key) (bearer_token (Some header)) = AuthOk"
proof -
  have "bearer_token (Some header) = bearer_token (Some (''Bearer '' @ key))"
    using trim_bearer [OF assms(1,2)] assms(3) by (simp add: bearer_token_def del: append.simps)
  then show ?thesis
    using bearer_token_bearer [OF assms(1,2)] by simp
qed

end
