(* ===== verification/Node_Http.thy ===== *)
theory Node_Http
  imports Node_Watch Auth
begin

text \<open>
  \<open>rust/src/node.rs\<close>, last part: the HTTP handlers, the key guard in front of the \<open>/v1\<close> routes and
  their composition. A request carries the decoded path segments, the \<open>Authorization\<close> header when it
  is readable text, and the body. The parameter \<open>http_api\<close> holds what axum, serde and iroh do: JSON
  decoding of the two bodies (with the rejection axum answers), the parser of content hashes, and
  the answer to requests that match no route.
\<close>

datatype payload = Empty | Text string | Octets bytes | Health (content_missing: nat) (content_tracked: nat)

record response =
  status :: nat
  payload :: payload

datatype http_method = GET | POST | PUT | DELETE | OtherMethod string

record request =
  http_method :: http_method
  path :: "string list"
  authorization :: "string option"
  body :: bytes

record unsubscribe_request =
  unsub_token :: string
  unsub_platform :: string

record http_api =
  parse_hash :: "string \<Rightarrow> content_hash option"
  json_register :: "bytes \<Rightarrow> (response, register_request) result"
  json_unsubscribe :: "bytes \<Rightarrow> (response, unsubscribe_request) result"
  unrouted :: "request \<Rightarrow> response"

definition respond :: "nat \<Rightarrow> response" where
  "respond code = \<lparr>status = code, payload = Empty\<rparr>"

definition respond_text :: "nat \<Rightarrow> string \<Rightarrow> response" where
  "respond_text code msg = \<lparr>status = code, payload = Text msg\<rparr>"

section \<open>Handlers\<close>

definition healthz :: "('d, 'b) stash_node \<Rightarrow> response" where
  "healthz node =
     (let (missing, total) = content_stats node in \<lparr>status = 200, payload = Health missing total\<rparr>)"

definition register_handler :: "'d docs_api \<Rightarrow> register_request \<Rightarrow> ('d, 'b) stash_node \<Rightarrow>
    response \<times> ('d, 'b) stash_node" where
  "register_handler docs req node =
     (case validate_register req of
        Err e \<Rightarrow> (respond_text 400 (api_error_string e), node)
      | Ok valid \<Rightarrow>
          (let (result, node1) = node_register docs (valid_ticket valid) (subscription valid) node
           in (case result of
                 Ok _ \<Rightarrow> (respond 201, node1)
               | Err msg \<Rightarrow>
                   if str_contains msg ''parse doc ticket'' then (respond_text 400 msg, node1)
                   else (respond_text 502 msg, node1))))"

definition content_handler :: "http_api \<Rightarrow> 'b blob_api \<Rightarrow> string \<Rightarrow> string \<Rightarrow> ('d, 'b) stash_node \<Rightarrow>
    response" where
  "content_handler http api ident hash node =
     (case parse_namespace_hex ident of
        Err e \<Rightarrow> respond_text 400 (api_error_string e)
      | Ok ns \<Rightarrow>
          (case parse_hash http hash of
             None \<Rightarrow> respond_text 400 ''content hash is malformed''
           | Some h \<Rightarrow>
               (case content_bytes api node ns h of
                  Some b \<Rightarrow> \<lparr>status = 200, payload = Octets b\<rparr>
                | None \<Rightarrow> respond 404)))"

definition put_content_handler :: "http_api \<Rightarrow> 'b blob_api \<Rightarrow> string \<Rightarrow> string \<Rightarrow> bytes \<Rightarrow>
    ('d, 'b) stash_node \<Rightarrow> response \<times> ('d, 'b) stash_node" where
  "put_content_handler http api ident hash b node =
     (case parse_namespace_hex ident of
        Err e \<Rightarrow> (respond_text 400 (api_error_string e), node)
      | Ok ns \<Rightarrow>
          (case parse_hash http hash of
             None \<Rightarrow> (respond_text 400 ''content hash is malformed'', node)
           | Some h \<Rightarrow>
               (let (outcome, node1) = put_content api ns h b node
                in (case outcome of
                      Ok Stored \<Rightarrow> respond 204
                    | Ok UnknownNamespace \<Rightarrow> respond 404
                    | Ok UntrackedHash \<Rightarrow> respond 409
                    | Ok HashMismatch \<Rightarrow> respond_text 400 ''content does not match its hash''
                    | Err e \<Rightarrow> respond_text 502 e, node1))))"

definition unsubscribe_handler :: "string \<Rightarrow> unsubscribe_request \<Rightarrow> ('d, 'b) stash_node \<Rightarrow>
    response \<times> ('d, 'b) stash_node" where
  "unsubscribe_handler ident req node =
     (case parse_namespace_hex ident of
        Err e \<Rightarrow> (respond_text 400 (api_error_string e), node)
      | Ok ns \<Rightarrow>
          (case parse_platform (unsub_platform req) of
             None \<Rightarrow> (respond_text 400 (api_error_string BadPlatform), node)
           | Some p \<Rightarrow>
               (respond 204, snd (node_unsubscribe ns \<lparr>platform = p, token = unsub_token req\<rparr> node))))"

section \<open>Routing\<close>

definition psk_guard :: "string option \<Rightarrow> (request \<Rightarrow> ('d, 'b) stash_node \<Rightarrow> response \<times> ('d, 'b) stash_node) \<Rightarrow>
    request \<Rightarrow> ('d, 'b) stash_node \<Rightarrow> response \<times> ('d, 'b) stash_node" where
  "psk_guard psk run req node =
     (if is_allowed (authorize psk (bearer_token (authorization req))) then run req node
      else (respond_text 401 ''missing or invalid pre-shared key'', node))"

datatype route =
    Namespaces
  | Subscription string
  | Content string string

text \<open>The three routes the guard is layered over.\<close>

definition v1_route :: "string list \<Rightarrow> route option" where
  "v1_route p =
     (case p of
        [v, n] \<Rightarrow> if v = ''v1'' \<and> n = ''namespaces'' then Some Namespaces else None
      | [v, n, ident, s] \<Rightarrow>
          if v = ''v1'' \<and> n = ''namespaces'' \<and> s = ''subscription'' then Some (Subscription ident) else None
      | [v, n, ident, c, hash] \<Rightarrow>
          if v = ''v1'' \<and> n = ''namespaces'' \<and> c = ''content'' then Some (Content ident hash) else None
      | _ \<Rightarrow> None)"

definition v1_run :: "http_api \<Rightarrow> 'b blob_api \<Rightarrow> 'd docs_api \<Rightarrow> route \<Rightarrow> request \<Rightarrow> ('d, 'b) stash_node \<Rightarrow>
    response \<times> ('d, 'b) stash_node" where
  "v1_run http api docs r req node =
     (case (r, http_method req) of
        (Namespaces, POST) \<Rightarrow>
          (case json_register http (body req) of
             Err rejection \<Rightarrow> (rejection, node)
           | Ok json \<Rightarrow> register_handler docs json node)
      | (Subscription ident, DELETE) \<Rightarrow>
          (case json_unsubscribe http (body req) of
             Err rejection \<Rightarrow> (rejection, node)
           | Ok json \<Rightarrow> unsubscribe_handler ident json node)
      | (Content ident hash, GET) \<Rightarrow> (content_handler http api ident hash node, node)
      | (Content ident hash, PUT) \<Rightarrow> put_content_handler http api ident hash (body req) node
      | _ \<Rightarrow> (unrouted http req, node))"

definition control_api :: "http_api \<Rightarrow> 'b blob_api \<Rightarrow> 'd docs_api \<Rightarrow> string option \<Rightarrow> request \<Rightarrow>
    ('d, 'b) stash_node \<Rightarrow> response \<times> ('d, 'b) stash_node" where
  "control_api http api docs psk req node =
     (case v1_route (path req) of
        Some r \<Rightarrow> psk_guard psk (v1_run http api docs r) req node
      | None \<Rightarrow>
          if path req = [''healthz''] \<and> http_method req = GET then (healthz node, node)
          else (unrouted http req, node))"

section \<open>Invariants of the handlers\<close>

lemma register_handler_inv [inv_intros]:
  "node_inv node \<Longrightarrow> node_inv (snd (register_handler docs req node))"
  by (auto simp: register_handler_def split_beta intro: inv_intros split: sum.split)

lemma put_content_handler_inv [inv_intros]:
  "node_inv node \<Longrightarrow> node_inv (snd (put_content_handler http api ident hash b node))"
  by (auto simp: put_content_handler_def split_beta intro: inv_intros split: sum.split option.split)

lemma unsubscribe_handler_inv [inv_intros]:
  "node_inv node \<Longrightarrow> node_inv (snd (unsubscribe_handler ident req node))"
  by (auto simp: unsubscribe_handler_def intro: inv_intros split: sum.split option.split)

lemma v1_run_inv [inv_intros]:
  "node_inv node \<Longrightarrow> node_inv (snd (v1_run http api docs r req node))"
  by (auto simp: v1_run_def intro: inv_intros split: route.split http_method.split sum.split)

lemma control_api_inv [inv_intros]:
  "node_inv node \<Longrightarrow> node_inv (snd (control_api http api docs psk req node))"
  by (auto simp: control_api_def psk_guard_def intro: inv_intros split: option.split)

lemma node_register_content:
  "content (snd (node_register docs ticket sub node)) = content node"
  "blobs (snd (node_register docs ticket sub node)) = blobs node"
  by (cases rule: node_register_cases [of docs ticket sub node]; simp add: finish_register_fields)+

lemma node_unsubscribe_content:
  "content (snd (node_unsubscribe ns sub node)) = content node"
  "blobs (snd (node_unsubscribe ns sub node)) = blobs node"
  by (simp_all add: node_unsubscribe_def split_beta)

lemma servable_cong: "content m = content n \<Longrightarrow> blobs m = blobs n \<Longrightarrow> servable api m = servable api n"
  by (simp add: servable_def)

lemma control_api_servable [inv_intros]:
  assumes "blob_laws api" "servable api node"
  shows "servable api (snd (control_api http api docs psk req node))"
proof -
  have "servable api (snd (register_handler docs json node))" for json
    using assms(2)
    by (auto simp: register_handler_def split_beta servable_cong [OF node_register_content] split: sum.split)
  moreover have "servable api (snd (put_content_handler http api ident hash b node))" for ident hash b
    using assms put_content_servable [OF assms]
    by (auto simp: put_content_handler_def split_beta split: sum.split option.split)
  moreover have "servable api (snd (unsubscribe_handler ident json node))" for ident json
    using assms(2)
    by (auto simp: unsubscribe_handler_def servable_cong [OF node_unsubscribe_content] split: sum.split option.split)
  ultimately show ?thesis
    using assms(2)
    by (auto simp: control_api_def psk_guard_def v1_run_def split: option.split route.split http_method.split sum.split)
qed

lemma v1_route_path:
  "v1_route p = Some Namespaces \<longleftrightarrow> p = [''v1'', ''namespaces'']"
  "v1_route p = Some (Subscription i) \<longleftrightarrow> p = [''v1'', ''namespaces'', i, ''subscription'']"
  "v1_route p = Some (Content i h) \<longleftrightarrow> p = [''v1'', ''namespaces'', i, ''content'', h]"
  "v1_route [''v1'', ''namespaces''] = Some Namespaces"
  "v1_route [''v1'', ''namespaces'', i, ''subscription''] = Some (Subscription i)"
  "v1_route [''v1'', ''namespaces'', i, ''content'', h] = Some (Content i h)"
  "v1_route [''healthz''] = None"
  by (auto simp: v1_route_def split: list.splits if_splits)

lemma parse_fmt_hex: "length ns = 32 \<Longrightarrow> parse_namespace_hex (fmt_hex ns) = Ok ns"
  by (simp add: parse_namespace_hex_iff)

section \<open>Properties\<close>

text \<open>
  Nothing under \<open>/v1\<close> happens without the key. When a key is configured, a request to one of
  the guarded routes whose header does not carry exactly that key is answered 401 whatever its
  method and body, and the node is untouched; the health check is answered in any case.
\<close>

lemma wrong_key_changes_nothing:
  assumes "bearer_token (authorization req) \<noteq> Some secret"
  shows "(v1_route (path req) \<noteq> None \<longrightarrow>
      control_api http api docs (Some secret) req node =
        (\<lparr>status = 401, payload = Text ''missing or invalid pre-shared key''\<rparr>, node)) \<and>
    (path req = [''healthz''] \<and> http_method req = GET \<longrightarrow>
      control_api http api docs (Some secret) req node = (healthz node, node))"
proof -
  have "\<not> is_allowed (authorize (Some secret) (bearer_token (authorization req)))"
    using assms by (cases "bearer_token (authorization req)") auto
  then show ?thesis
    by (auto simp: control_api_def psk_guard_def respond_text_def v1_route_path(7))
qed


text \<open>
  Each answer of an upload means one thing, and 204 is a delivery receipt: from then on a GET of
  the same path returns the very bytes that were sent.
\<close>

lemma put_answers:
  assumes "blob_laws api" "node_inv node" "length ns = 32" "parse_hash http hash = Some h"
  shows "(status (fst (put_content_handler http api (fmt_hex ns) hash b node)) = 404 \<longleftrightarrow>
      \<not> is_known (registry node) ns) \<and>
    (status (fst (put_content_handler http api (fmt_hex ns) hash b node)) = 409 \<longleftrightarrow>
      is_known (registry node) ns \<and> \<not> is_tracked_for (content node) ns h) \<and>
    (status (fst (put_content_handler http api (fmt_hex ns) hash b node)) = 400 \<longleftrightarrow>
      is_known (registry node) ns \<and> is_tracked_for (content node) ns h \<and> hash_new api b \<noteq> h) \<and>
    (status (fst (put_content_handler http api (fmt_hex ns) hash b node)) = 204 \<longrightarrow>
      content_handler http api (fmt_hex ns) hash (snd (put_content_handler http api (fmt_hex ns) hash b node)) =
        \<lparr>status = 200, payload = Octets b\<rparr>)"
proof -
  have run: "put_content_handler http api (fmt_hex ns) hash b node =
      ((case fst (put_content api ns h b node) of
          Ok Stored \<Rightarrow> respond 204 | Ok UnknownNamespace \<Rightarrow> respond 404 | Ok UntrackedHash \<Rightarrow> respond 409
        | Ok HashMismatch \<Rightarrow> respond_text 400 ''content does not match its hash''
        | Err e \<Rightarrow> respond_text 502 e), snd (put_content api ns h b node))"
    using assms(3,4) by (simp add: put_content_handler_def parse_fmt_hex split_beta)
  have code: "status (fst (put_content_handler http api (fmt_hex ns) hash b node)) =
      (case fst (put_content api ns h b node) of
          Ok Stored \<Rightarrow> 204 | Ok UnknownNamespace \<Rightarrow> 404 | Ok UntrackedHash \<Rightarrow> 409
        | Ok HashMismatch \<Rightarrow> 400 | Err e \<Rightarrow> 502)"
    unfolding run by (simp add: respond_def respond_text_def split: sum.split put_outcome.split)
  have codes: "(case fst (put_content api ns h b node) of
          Ok Stored \<Rightarrow> 204 | Ok UnknownNamespace \<Rightarrow> 404 | Ok UntrackedHash \<Rightarrow> 409
        | Ok HashMismatch \<Rightarrow> 400 | Err e \<Rightarrow> 502) = (n :: nat) \<longleftrightarrow>
      n = 204 \<and> fst (put_content api ns h b node) = Ok Stored \<or>
      n = 404 \<and> fst (put_content api ns h b node) = Ok UnknownNamespace \<or>
      n = 409 \<and> fst (put_content api ns h b node) = Ok UntrackedHash \<or>
      n = 400 \<and> fst (put_content api ns h b node) = Ok HashMismatch \<or>
      n = 502 \<and> (\<exists>e. fst (put_content api ns h b node) = Err e)" for n
    by (auto split: sum.splits put_outcome.splits)
  have get: "content_handler http api (fmt_hex ns) hash (snd (put_content api ns h b node)) =
      \<lparr>status = 200, payload = Octets b\<rparr>" if "fst (put_content api ns h b node) = Ok Stored"
    using put_content_reads_back [OF assms(1,2) that] assms(3,4)
    by (simp add: content_handler_def parse_fmt_hex)
  show ?thesis
    unfolding code codes using put_content_rejections [OF assms(1), of ns h b node] get
    by (simp add: run)
qed

text \<open>
  Opting in and out over the wire. A registration answered 201 makes the namespace known with
  one watch task and adds the device; and the answer is 204 to every well-formed unsubscribe,
  whether or not the device was there, after which it is no wake target and the grant remains.
\<close>

lemma subscription_lifecycle:
  assumes "node_inv node" "length ns = 32"
  shows "(register_handler docs req node = (\<lparr>status = 201, payload = Empty\<rparr>, node') \<longrightarrow>
      (\<exists>v ns'. validate_register req = Ok v \<and> parse_ticket docs (valid_ticket v) = Ok ns' \<and>
         is_known (registry node') ns' \<and> count_list (watchers node') ns' = 1 \<and>
         grants_of (registry node') = grant ns' (subscription v) (grants_of (registry node)))) \<and>
    (fst (unsubscribe_handler (fmt_hex ns) \<lparr>unsub_token = t, unsub_platform = platform_as_str p\<rparr> node) =
       \<lparr>status = 204, payload = Empty\<rparr>) \<and>
    grants_of (registry (snd (unsubscribe_handler (fmt_hex ns)
       \<lparr>unsub_token = t, unsub_platform = platform_as_str p\<rparr> node))) =
      revoke ns \<lparr>platform = p, token = t\<rparr> (grants_of (registry node))"
proof (intro conjI impI)
  assume r: "register_handler docs req node = (\<lparr>status = 201, payload = Empty\<rparr>, node')"
  then obtain v ns' where v: "validate_register req = Ok v"
      "node_register docs (valid_ticket v) (subscription v) node = (Ok ns', node')"
    by (auto simp: register_handler_def split_beta respond_text_def prod_eq_iff
        split: sum.splits if_splits)
  have inv: "node_inv node'"
    using node_register_inv [OF assms(1), of docs "valid_ticket v" "subscription v"] by (simp add: v(2))
  have *: "parse_ticket docs (valid_ticket v) = Ok ns' \<and> is_known (registry node') ns' \<and>
      grants_of (registry node') = grant ns' (subscription v) (grants_of (registry node))"
    using v(2) by (cases rule: node_register_cases [of docs "valid_ticket v" "subscription v" node])
      (auto simp: finish_register_fields wr.abs_reg)
  have "count_list (watchers node') ns' = 1"
    using node_invD(5,6) [OF inv] * by (simp add: is_known_def distinct_count_one)
  then show "\<exists>v ns'. validate_register req = Ok v \<and> parse_ticket docs (valid_ticket v) = Ok ns' \<and>
      is_known (registry node') ns' \<and> count_list (watchers node') ns' = 1 \<and>
      grants_of (registry node') = grant ns' (subscription v) (grants_of (registry node))"
    using v(1) * by blast
next
  have p: "parse_platform (platform_as_str p) = Some p"
    by (simp add: parse_platform_Some)
  show "fst (unsubscribe_handler (fmt_hex ns) \<lparr>unsub_token = t, unsub_platform = platform_as_str p\<rparr> node) =
      \<lparr>status = 204, payload = Empty\<rparr>"
    using assms(2) by (simp add: unsubscribe_handler_def parse_fmt_hex p respond_def)
  show "grants_of (registry (snd (unsubscribe_handler (fmt_hex ns)
       \<lparr>unsub_token = t, unsub_platform = platform_as_str p\<rparr> node))) =
      revoke ns \<lparr>platform = p, token = t\<rparr> (grants_of (registry node))"
    using assms(2) by (simp add: unsubscribe_handler_def parse_fmt_hex p node_unsubscribe_def split_beta wr.abs_unsub)
qed

text \<open>
  C27. A client that pads its push token cannot unsubscribe with it. Registration stores the trimmed
  token, unsubscribing compares the raw one, so for a token with white space at an end the device
  that registered and then unsubscribed with the same string is still woken.
\<close>

theorem padded_token_stays_subscribed:
  assumes "register_handler docs \<lparr>read_ticket = ticket, push_token = Some t,
      req_platform = Some (platform_as_str p)\<rparr> node = (\<lparr>status = 201, payload = Empty\<rparr>, node')"
    and "parse_ticket docs (trim ticket) = Ok ns" "length ns = 32" "trim t \<noteq> t"
  shows "\<lparr>platform = p, token = trim t\<rparr> \<in> set (wake_targets (registry (snd (unsubscribe_handler (fmt_hex ns)
      \<lparr>unsub_token = t, unsub_platform = platform_as_str p\<rparr> node'))) ns)"
proof -
  have p: "parse_platform (platform_as_str p) = Some p"
    by (simp add: parse_platform_Some)
  obtain v where v: "node_register docs (trim ticket) (Some \<lparr>platform = p, token = trim t\<rparr>) node = (Ok v, node')"
    using assms(1)
    by (auto simp: register_handler_def validate_register_def p Let_def split_beta respond_text_def prod_eq_iff
        split: sum.splits if_splits)
  have "\<lparr>platform = p, token = trim t\<rparr> \<in> set (wake_targets (registry node') ns)"
    using v by (cases rule: node_register_cases [of docs "trim ticket" "Some \<lparr>platform = p, token = trim t\<rparr>" node])
      (auto simp: finish_register_fields register_targets assms(2))
  then show ?thesis
    using assms(3,4)
    by (simp add: unsubscribe_handler_def parse_fmt_hex p node_unsubscribe_def split_beta unsubscribe_targets)
qed

section \<open>Witnesses\<close>

text \<open>A node that registered one namespace and received one record of it, reached by its operations.\<close>

definition trail_ticket :: string where
  "trail_ticket = replicate 32 (CHR ''a'')"

definition trail_ns :: namespace_id where
  "trail_ns = replicate 32 97"

definition trail_node :: "(unit, (content_hash, bytes) hmap) stash_node" where
  "trail_node = snd (handle_insert_remote memory_store 0 trail_ns [] [9] [7]
     (snd (node_register memory_docs trail_ticket None (spawn (from_hours 1) []))))"

definition plain_http :: http_api where
  "plain_http =
     \<lparr>parse_hash = \<lambda>s. if s = ''nine'' then Some [9] else None,
      json_register = \<lambda>_. Err \<lparr>status = 422, payload = Empty\<rparr>,
      json_unsubscribe = \<lambda>_. Err \<lparr>status = 422, payload = Empty\<rparr>,
      unrouted = \<lambda>_. \<lparr>status = 404, payload = Empty\<rparr>\<rparr>"

lemma plain_hash: "parse_hash plain_http ''nine'' = Some [9]"
  by (simp add: plain_http_def)

lemma trail_register:
  "node_register memory_docs trail_ticket sub (spawn p s) =
     (Ok trail_ns, finish_register trail_ns sub (spawn p s\<lparr>handles := [(trail_ns, ())]\<rparr>))"
  by (simp add: node_register_def memory_docs_def trail_ticket_def trail_ns_def hm_insert_def
      chr_byte_def as_bytes_def)

lemma trail_length: "length trail_ns = 32"
  by (simp add: trail_ns_def)

lemma trail_known: "is_known (registry trail_node) ns \<longleftrightarrow> ns = trail_ns"
  by (simp add: trail_node_def handle_insert_remote_fields trail_register finish_register_fields)
    (simp add: new_registry_def is_known_def)

lemma trail_tracked: "is_tracked_for (content trail_node) ns h \<longleftrightarrow> ns = trail_ns \<and> h = [9]"
  by (simp add: trail_node_def handle_insert_remote_fields trail_register finish_register_fields)

lemma trail_inv: "node_inv trail_node"
proof -
  have "node_inv (snd (node_register memory_docs trail_ticket None (spawn (from_hours 1) [] :: (unit, (content_hash, bytes) hmap) stash_node)))"
    by (intro inv_intros)
  moreover have "is_known (registry (snd (node_register memory_docs trail_ticket None (spawn (from_hours 1) [] :: (unit, (content_hash, bytes) hmap) stash_node)))) trail_ns"
    by (simp add: trail_register finish_register_fields)
  ultimately show ?thesis
    unfolding trail_node_def by (rule handle_insert_remote_inv)
qed

lemma put_answers_witness:
  "content_handler plain_http memory_store (fmt_hex trail_ns) ''nine''
     (snd (put_content_handler plain_http memory_store (fmt_hex trail_ns) ''nine'' [9] trail_node))
   = \<lparr>status = 200, payload = Octets [9]\<rparr>"
proof -
  have "status (fst (put_content_handler plain_http memory_store (fmt_hex trail_ns) ''nine'' [9] trail_node)) = 204"
    by (simp add: put_content_handler_def parse_fmt_hex trail_length plain_http_def put_content_def
        trail_known trail_tracked memory_store_def respond_def)
  then show ?thesis
    using put_answers [OF memory_store_laws trail_inv trail_length, of plain_http "''nine''" "[9]" "[9]"]
    by (simp add: plain_http_def)
qed


lemma trim_letters: "trim (replicate (Suc n) (CHR ''a'')) = replicate (Suc n) (CHR ''a'')"
proof -
  have strip: "strip_ws p q (CHR ''a'' # s) = CHR ''a'' # s"
    if "\<And>b. \<not> p (CHR ''a'') b" "\<And>b c. \<not> q (CHR ''a'') b c" for p q s
    using that by (auto simp: ws1_def chr_byte_def Let_def split: list.split)
  have s: "strip_ws ws2 ws3 (replicate (Suc n) (CHR ''a'')) = replicate (Suc n) (CHR ''a'')"
    unfolding replicate.simps by (rule strip) (simp_all add: ws2_def ws3_def chr_byte_def Let_def)
  have e: "strip_ws (\<lambda>b a. ws2 a b) (\<lambda>c b a. ws3 a b c) (replicate (Suc n) (CHR ''a'')) = replicate (Suc n) (CHR ''a'')"
    unfolding replicate.simps by (rule strip) (simp_all add: ws2_def ws3_def chr_byte_def Let_def)
  show ?thesis
    by (simp only: trim_def trim_start_def trim_end_def s e rev_replicate)
qed

lemma trail_trim: "trim trail_ticket = trail_ticket"
  using trim_letters [of 31] by (simp add: trail_ticket_def del: replicate.simps)

lemma padded_trim: "trim '' t'' = ''t''"
  by (simp add: std_defs chr_byte_def)

lemma trail_valid:
  "validate_register \<lparr>read_ticket = trail_ticket, push_token = Some '' t'', req_platform = Some ''apns''\<rparr> =
     Ok \<lparr>valid_ticket = trail_ticket, subscription = Some \<lparr>platform = Apns, token = ''t''\<rparr>\<rparr>"
proof -
  have "looks_like_ticket trail_ticket"
    unfolding looks_like_ticket_def trail_ticket_def as_bytes_def
    by (simp add: MIN_TICKET_LEN_def MAX_TICKET_LEN_def list_all_iff is_ascii_alphanumeric_def chr_byte_def)
  then show ?thesis
    by (simp add: validate_register_def trail_trim padded_trim parse_platform_def MAX_TOKEN_LEN_def)
qed

lemma trail_registered:
  "register_handler memory_docs \<lparr>read_ticket = trail_ticket, push_token = Some '' t'', req_platform = Some ''apns''\<rparr>
     (spawn p s) = (\<lparr>status = 201, payload = Empty\<rparr>,
       snd (node_register memory_docs trail_ticket (Some \<lparr>platform = Apns, token = ''t''\<rparr>) (spawn p s)))"
  by (simp add: register_handler_def trail_valid trail_register respond_def)

lemma trail_parse: "parse_ticket memory_docs trail_ticket = Ok trail_ns"
  by (simp add: memory_docs_def trail_ticket_def trail_ns_def chr_byte_def as_bytes_def)

lemma subscription_lifecycle_witness:
  "\<exists>ns. is_known (registry (snd (register_handler memory_docs
     \<lparr>read_ticket = trail_ticket, push_token = Some '' t'', req_platform = Some ''apns''\<rparr>
     (spawn (from_hours 1) ([] :: (content_hash, bytes) hmap))))) ns"
  using subscription_lifecycle [OF spawn_inv trail_length, THEN conjunct1, THEN mp,
      OF trail_registered [of "from_hours 1" "[] :: (content_hash, bytes) hmap"]]
  unfolding trail_registered by auto

theorem padded_token_stays_subscribed_witness:
  "\<lparr>platform = Apns, token = ''t''\<rparr> \<in> set (wake_targets (registry (snd (unsubscribe_handler (fmt_hex trail_ns)
     \<lparr>unsub_token = '' t'', unsub_platform = ''apns''\<rparr>
     (snd (node_register memory_docs trail_ticket (Some \<lparr>platform = Apns, token = ''t''\<rparr>)
       (spawn (from_hours 1) ([] :: (content_hash, bytes) hmap))))))) trail_ns)"
  using padded_token_stays_subscribed [of memory_docs trail_ticket "'' t''" Apns _ _ trail_ns,
      OF _ _ trail_length] trail_registered [of "from_hours 1" "[] :: (content_hash, bytes) hmap"]
  by (simp add: trail_trim padded_trim trail_parse)

end
