(* ===== verification/Node_System.thy ===== *)
theory Node_System
  imports Node_Watch Node_Prune Node_Http
begin

text \<open>
  The node at work. Its tasks (the HTTP server, one watch per namespace, the settle loop, the sweep)
  and the two engines it shares the store with (the downloader of iroh-docs and the collector) run
  interleaved; each critical section is one labelled step. The settle loop steps entry by entry,
  on a snapshot that may be stale; the sweep steps hash by hash. The lemmas show what every
  interleaving keeps.
\<close>

record ('d, 'b) env =
  env_api :: "'b blob_api"
  env_net :: "'b net_api"
  env_http :: http_api
  env_docs :: "'d docs_api"
  env_psk :: "string option"

definition env_laws :: "('d, 'b) env \<Rightarrow> bool" where
  "env_laws env \<longleftrightarrow> blob_laws (env_api env) \<and> net_laws (env_api env) (env_net env)"

datatype label =
    Http request
  | Record u64 namespace_id bytes content_hash endpoint_id
  | Settle u64 content_hash tracked_entry
  | Release namespace_id content_hash
  | Engine
  | Collect

inductive step :: "('d, 'b) env \<Rightarrow> label \<Rightarrow> ('d, 'b) stash_node \<Rightarrow> ('d, 'b) stash_node \<Rightarrow> bool"
  for env where
  http: "step env (Http req) node
      (snd (control_api (env_http env) (env_api env) (env_docs env) (env_psk env) req node))"
| receive: "ns \<in> set (watchers node) \<Longrightarrow>
    step env (Record now ns k h from) node (snd (handle_insert_remote (env_api env) now ns k h from node))"
| settle: "step env (Settle now h entry) node (snd (settle_entry (env_api env) (env_net env) now h entry node))"
| release: "step env (Release ns h) node (forget_one ns h node)"
| engine: "(\<And>h. blob_get (env_api env) (blobs node) h \<noteq> None \<Longrightarrow> blob_get (env_api env) store h \<noteq> None) \<Longrightarrow>
    step env Engine node (node\<lparr>blobs := store\<rparr>)"
| collect: "(\<And>h. h \<in> set (protect node []) \<Longrightarrow> blob_get (env_api env) (blobs node) h \<noteq> None \<Longrightarrow>
      blob_get (env_api env) store h \<noteq> None) \<Longrightarrow>
    step env Collect node (node\<lparr>blobs := store\<rparr>)"

inductive_simps step_http_iff: "step env (Http req) node m"
inductive_simps step_record_iff: "step env (Record now ns k h from) node m"
inductive_simps step_settle_iff: "step env (Settle now h entry) node m"
inductive_simps step_release_iff: "step env (Release ns h) node m"
inductive_cases step_store_cases: "step env Engine node m" "step env Collect node m"

inductive run :: "('d, 'b) env \<Rightarrow> label list \<Rightarrow> ('d, 'b) stash_node \<Rightarrow> ('d, 'b) stash_node \<Rightarrow> bool"
  for env where
  start: "run env [] node node"
| more: "step env l node node1 \<Longrightarrow> run env ls node1 node2 \<Longrightarrow> run env (l # ls) node node2"

definition reachable :: "('d, 'b) env \<Rightarrow> ('d, 'b) stash_node \<Rightarrow> bool" where
  "reachable env node \<longleftrightarrow> (\<exists>policy store ls. run env ls (spawn policy store) node)"

lemma blobs_inv: "node_inv node \<Longrightarrow> node_inv (node\<lparr>blobs := s\<rparr>)"
  by (rule node_invI) (use node_invD [of node] in simp_all)

lemma forget_one_servable: "index_inv (content node) \<Longrightarrow> servable api node \<Longrightarrow> servable api (forget_one ns h node)"
  using forget_simps(4) [OF index_invD(2), of "content node" ns h] by (auto simp: servable_def)

lemma present_protected:
  assumes "node_inv node" "is_present (content node) h"
  shows "h \<in> set (protect node [])"
proof -
  have "\<exists>ns. is_tracked_for (content node) ns h"
    using is_present_tracked [OF assms(2)] index_invD(3) [OF node_invD(1) [OF assms(1)], of h] by blast
  then show ?thesis
    by (simp add: protect_set [OF assms(1)])
qed

lemma step_inv:
  assumes "env_laws env" "step env l node m" "node_inv node" "servable (env_api env) node"
  shows "node_inv m \<and> servable (env_api env) m"
  using assms(2)
proof cases
  case (http req)
  then show ?thesis
    using assms by (auto simp: env_laws_def intro: inv_intros)
next
  case (receive ns now k h "from")
  have "is_known (registry node) ns"
    using receive(3) node_invD(6) [OF assms(3)] by (simp add: is_known_def)
  then show ?thesis
    using assms receive by (auto simp: env_laws_def intro: inv_intros)
next
  case (settle now h entry)
  then show ?thesis
    using assms by (auto simp: env_laws_def intro: inv_intros)
next
  case (release ns h)
  then show ?thesis
    using assms forget_one_servable [OF node_invD(1) [OF assms(3)]] by (auto intro: inv_intros)
next
  case (engine store)
  then show ?thesis
    using assms(3,4) blobs_inv by (auto simp: servable_def)
next
  case (collect store)
  then show ?thesis
    using assms(3,4) blobs_inv present_protected [OF assms(3)] by (auto simp: servable_def)
qed

lemma run_inv:
  assumes "env_laws env" "run env ls node m" "node_inv node" "servable (env_api env) node"
  shows "node_inv m \<and> servable (env_api env) m"
  using assms(2,3,4) by (induction rule: run.induct) (use step_inv [OF assms(1)] in blast)+

lemma reachable_inv:
  assumes "env_laws env" "reachable env node"
  shows "node_inv node" "servable (env_api env) node"
proof -
  obtain policy store ls where r: "run env ls (spawn policy store) node"
    using assms(2) by (auto simp: reachable_def)
  show "node_inv node" "servable (env_api env) node"
    using run_inv [OF assms(1) r spawn_inv] by (simp_all add: servable_def)
qed

section \<open>Grants\<close>

lemma step_grants:
  assumes "step env l node m" "is_known (registry node) ns"
  shows "is_known (registry m) ns"
  using assms
proof cases
  case (http req)
  have reg: "is_known (registry (snd (node_register docs t sub node))) ns" for docs t sub
    using assms(2) by (cases rule: node_register_cases [of docs t sub node]) (simp_all add: finish_register_fields)
  have put: "is_known (registry (snd (put_content api' n h b node))) ns" for api' n h b
    using assms(2) by (cases rule: put_content_cases [of api' n h b node]) simp_all
  have unsub: "is_known (registry (snd (node_unsubscribe n s node))) ns" for n s
    using assms(2) by (simp add: node_unsubscribe_def split_beta)
  show ?thesis
    unfolding http(2) control_api_def psk_guard_def v1_run_def register_handler_def put_content_handler_def
      unsubscribe_handler_def
    using assms(2) reg put unsub
    by (auto simp: split_beta split: option.split route.split http_method.split sum.split)
qed (simp_all add: handle_insert_remote_fields settle_entry_eq settle_commit_fields)

lemma run_grants: "run env ls node m \<Longrightarrow> is_known (registry node) ns \<Longrightarrow> is_known (registry m) ns"
  by (induction rule: run.induct) (use step_grants in blast)+

section \<open>Whole passes\<close>

lemma run_append: "run env ls n m \<Longrightarrow> run env ls' m k \<Longrightarrow> run env (ls @ ls') n k"
  by (induction rule: run.induct) (auto intro: run.intros)

lemma settle_list_run:
  "\<exists>ls. run env ls node (snd (settle_list (env_api env) (env_net env) now xs node)) \<and>
     (\<forall>l. l \<in> set ls \<longleftrightarrow> (\<exists>h e. (h, e) \<in> set xs \<and> l = Settle now h e))"
proof (induction xs arbitrary: node)
  case Nil
  show ?case
    by (rule exI [of _ "[]"]) (simp add: run.start)
next
  case (Cons x xs)
  obtain h e where x: "x = (h, e)" by (cases x)
  let ?n = "snd (settle_entry (env_api env) (env_net env) now h e node)"
  obtain ls where ls: "run env ls ?n (snd (settle_list (env_api env) (env_net env) now xs ?n))"
    "\<And>l. l \<in> set ls \<longleftrightarrow> (\<exists>h e. (h, e) \<in> set xs \<and> l = Settle now h e)"
    using Cons.IH [of ?n] by blast
  show ?case
    by (rule exI [of _ "Settle now h e # ls"]) (auto simp: x Let_def ls(2) intro: run.more [OF step.settle ls(1)])
qed

lemma forget_hashes_run:
  "\<exists>ls. run env ls node (snd (forget_hashes ns hs acc node)) \<and> set ls \<subseteq> {Release ns h |h. True}"
proof (induction hs arbitrary: acc node)
  case Nil
  show ?case
    by (rule exI [of _ "[]"]) (simp add: run.start)
next
  case (Cons h hs)
  let ?acc = "if fst (forget ns h (content node)) then acc\<lparr>released := released acc + 1\<rparr> else acc"
  obtain ls where "run env ls (forget_one ns h node) (snd (forget_hashes ns hs ?acc (forget_one ns h node)))"
    "set ls \<subseteq> {Release ns h |h. True}"
    using Cons.IH [of "forget_one ns h node" ?acc] by blast
  then show ?case
    by (intro exI [of _ "Release ns h # ls"]) (auto intro: run.more step.release)
qed

lemma prune_loop_run:
  "\<exists>ls. run env ls node (snd (prune_loop get_many order now nss acc node)) \<and>
     set ls \<subseteq> {Release ns h |ns h. ns \<in> set nss}"
proof (induction nss arbitrary: acc node)
  case Nil
  show ?case
    by (rule exI [of _ "[]"]) (simp add: run.start)
next
  case (Cons ns nss)
  show ?case
  proof (cases rule: prune_loop_step [of get_many node ns order now nss acc])
    case skip
    have "{Release ns h |ns h. ns \<in> set nss} \<subseteq> {Release n h |n h. n \<in> set (ns # nss)}"
      by auto
    then show ?thesis
      unfolding skip(3) using Cons.IH [of node acc] by (meson subset_trans)
  next
    case (stop e)
    then show ?thesis
      by (intro exI [of _ "[]"]) (simp add: run.start)
  next
    case (sweep cs)
    let ?out = "prune_namespace order now ns cs acc node"
    obtain ls where ls: "run env ls node (snd ?out)" "set ls \<subseteq> {Release ns h |h. True}"
      using forget_hashes_run by (simp add: prune_namespace_def split_beta Let_def) blast
    obtain ls' where ls': "run env ls' (snd ?out) (snd (prune_loop get_many order now nss (fst ?out) (snd ?out)))"
      "set ls' \<subseteq> {Release ns h |ns h. ns \<in> set nss}"
      using Cons.IH by blast
    show ?thesis
      unfolding sweep(2) using run_append [OF ls(1) ls'(1)] ls(2) ls'(2)
      by (intro exI [of _ "ls @ ls'"]) auto
  qed
qed

section \<open>Requests without the key\<close>

definition without_key :: "string \<Rightarrow> label \<Rightarrow> bool" where
  "without_key secret l \<longleftrightarrow> (\<forall>req. l = Http req \<longrightarrow> bearer_token (authorization req) \<noteq> Some secret)"

lemma guard_denies:
  assumes "bearer_token (authorization req) \<noteq> Some secret"
  shows "snd (control_api http api docs (Some secret) req node) = node"
proof -
  have "\<not> is_allowed (authorize (Some secret) (bearer_token (authorization req)))"
    using assms by (cases "bearer_token (authorization req)") auto
  then show ?thesis
    by (auto simp: control_api_def psk_guard_def split: option.split)
qed

definition untouched :: "('d, 'b) stash_node \<Rightarrow> bool" where
  "untouched node \<longleftrightarrow> registry node = new_registry \<and> watchers node = [] \<and> tracked node = [] \<and>
     content node = new_index \<and> handles node = []"

lemma step_without_key:
  assumes "env_psk env = Some secret" "step env l node m" "without_key secret l" "untouched node"
  shows "untouched m"
  using assms(2)
proof cases
  case (http req)
  have "bearer_token (authorization req) \<noteq> Some secret"
    using assms(3) by (simp add: without_key_def http(1))
  then show ?thesis
    using assms(1,4) by (simp add: http(2) guard_denies)
next
  case (settle now h entry)
  then show ?thesis
    using assms(4) by (simp add: untouched_def settle_entry_eq settle_commit_eq)
next
  case (release ns h)
  then show ?thesis
    using assms(4) by (simp add: untouched_def forget_one_def new_index_def forget_def)
qed (use assms(4) in \<open>simp_all add: untouched_def\<close>)

section \<open>Properties\<close>


text \<open>
  The health readout tells the truth: in every reachable state \<open>content_tracked\<close> less
  \<open>content_missing\<close> is the number of hashes the stash can serve to some namespace.
\<close>

lemma health_counts_servable:
  assumes "env_laws env" "reachable env node"
  shows "content_tracked (payload (healthz node)) = content_missing (payload (healthz node)) +
    card {h. \<exists>ns. content_bytes (env_api env) node ns h \<noteq> None}"
proof -
  let ?i = "content node"
  note inv = reachable_inv [OF assms]
  note idx = node_invD(1) [OF inv(1)]
  have served: "{h. \<exists>ns. content_bytes (env_api env) node ns h \<noteq> None} = {h. is_present ?i h}"
    using inv(2) is_present_tracked [of ?i] index_invD(3) [OF idx]
    by (auto simp: content_bytes_def is_present_for_iff servable_def)
  have split: "dom (hm_get (state ?i)) = {h. is_present ?i h} \<union> {h. \<exists>s. hm_get (state ?i) h = Some s \<and> s = Wanted}"
    by (auto simp: is_present_def) (metis state.exhaust)
  have "tracked_count ?i = card {h. is_present ?i h} + card {h. \<exists>s. hm_get (state ?i) h = Some s \<and> s = Wanted}"
    unfolding tracked_count_def hm_length [OF index_invD(1) [OF idx]] split
    by (rule card_Un_disjoint) (auto simp: is_present_def intro: finite_subset [OF _ finite_dom_map_of [of "state ?i"]])
  moreover have "missing_count ?i = card {h. \<exists>s. hm_get (state ?i) h = Some s \<and> s = Wanted}"
    unfolding missing_count_def by (rule hm_count [OF index_invD(1) [OF idx]])
  ultimately show ?thesis
    unfolding served by (simp add: healthz_def content_stats_def)
qed

text \<open>
  C6. Opt-in is enforced end to end: when a key is configured and no request carries it, then
  whatever else happens, nothing is ever granted, watched, tracked or referenced.
\<close>

theorem no_key_no_state:
  assumes "env_psk env = Some secret" "run env ls (spawn policy store) node"
    and "list_all (without_key secret) ls"
  shows "known_namespaces (registry node) = [] \<and> watchers node = [] \<and> tracked node = [] \<and>
    content node = new_index"
proof -
  have "untouched m" if "run env ls n m" "list_all (without_key secret) ls" "untouched n" for n m
    using that by (induction rule: run.induct) (auto intro: step_without_key [OF assms(1)])
  then have "untouched node"
    using assms(2,3) by (simp add: untouched_def)
  then show ?thesis
    by (simp add: untouched_def known_namespaces_def new_registry_def)
qed

text \<open>
  A grant lasts until the process ends, with exactly one watch task behind it: no step withdraws
  a namespace, in every reachable state each granted namespace is watched once, and nothing is
  referenced for a namespace that was not granted.
\<close>

lemma grants_are_permanent:
  assumes "env_laws env" "reachable env node" "run env ls node m"
  shows "(is_known (registry node) ns \<longrightarrow> is_known (registry m) ns) \<and>
    count_list (watchers m) ns = (if is_known (registry m) ns then 1 else 0) \<and>
    (is_tracked_for (content m) ns h \<longrightarrow> is_known (registry m) ns)"
proof -
  have inv: "node_inv m"
    using run_inv [OF assms(1,3)] reachable_inv [OF assms(1,2)] by blast
  have "count_list (watchers m) ns = (if is_known (registry m) ns then 1 else 0)"
    using node_invD(5,6) [OF inv] distinct_count_one [of "watchers m" ns]
    by (auto simp: is_known_def count_list_0_iff)
  then show ?thesis
    using run_grants [OF assms(3)] node_invD(9) [OF inv] by blast
qed

text \<open>
  The step relation is the code's: a whole settle pass is a run of settle steps, and a whole
  sweep, complete or cut short by an error, is a run of release steps.
\<close>

lemma passes_are_runs:
  "(\<exists>ls. run env ls node (snd (settle_once (env_api env) (env_net env) now node)) \<and>
      (\<forall>l. l \<in> set ls \<longleftrightarrow> (\<exists>h e. (h, e) \<in> set (outstanding node) \<and> l = Settle now h e))) \<and>
   (\<exists>ls. run env ls node (snd (prune_once get_many order now node)) \<and>
      set ls \<subseteq> {Release ns h |ns h. ns \<in> set (known_namespaces (registry node))})"
  unfolding settle_once_def prune_once_def by (intro conjI settle_list_run prune_loop_run)

section \<open>Witnesses\<close>

text \<open>
  An open node (no key) whose clients register the namespace of \<open>Node_Http\<close> and upload its one hash;
  \<open>loaded_node\<close> is the state after the registration, the record and the upload.
\<close>

definition trail_env :: "string option \<Rightarrow> (unit, (content_hash, bytes) hmap) env" where
  "trail_env psk = \<lparr>env_api = memory_store, env_net = silent_net,
     env_http = plain_http\<lparr>json_register :=
       \<lambda>_. Ok \<lparr>read_ticket = trail_ticket, push_token = None, req_platform = None\<rparr>\<rparr>,
     env_docs = memory_docs, env_psk = psk\<rparr>"

definition post_namespace :: request where
  "post_namespace = \<lparr>http_method = POST, path = [''v1'', ''namespaces''], authorization = None, body = []\<rparr>"

definition put_nine :: request where
  "put_nine = \<lparr>http_method = PUT, path = [''v1'', ''namespaces'', fmt_hex trail_ns, ''content'', ''nine''],
     authorization = None, body = [9]\<rparr>"

definition loaded_node :: "(unit, (content_hash, bytes) hmap) stash_node" where
  "loaded_node = snd (put_content memory_store trail_ns [9] [9] trail_node)"

lemma trail_env_laws: "env_laws (trail_env psk)"
  by (simp add: env_laws_def trail_env_def memory_store_laws silent_net_laws)

lemma trail_env_fields: "env_psk (trail_env psk) = psk" "env_api (trail_env psk) = memory_store"
  by (simp_all add: trail_env_def)

lemma trail_post:
  "step (trail_env None) (Http post_namespace) (spawn p s) (snd (node_register memory_docs trail_ticket None (spawn p s)))"
proof -
  have "validate_register \<lparr>read_ticket = trail_ticket, push_token = None, req_platform = None\<rparr> =
      Ok \<lparr>valid_ticket = trail_ticket, subscription = None\<rparr>"
    using trail_valid by (simp add: validate_register_def trail_trim Let_def split: if_splits)
  then show ?thesis
    by (simp add: step_http_iff trail_env_def control_api_def post_namespace_def v1_route_path psk_guard_def
        v1_run_def register_handler_def split_beta split: sum.split)
qed

lemma trail_receive:
  "step (trail_env None) (Record 0 trail_ns [] [9] [7])
     (snd (node_register memory_docs trail_ticket None (spawn (from_hours 1) []))) trail_node"
  by (simp add: step_record_iff trail_env_def trail_node_def trail_register finish_register_fields)
    (simp add: new_registry_def is_known_def)

lemma trail_put: "step (trail_env None) (Http put_nine) trail_node loaded_node"
  by (simp add: step_http_iff trail_env_def control_api_def put_nine_def v1_route_path psk_guard_def v1_run_def
      put_content_handler_def parse_fmt_hex trail_length plain_hash loaded_node_def split_beta plain_http_def)

lemma loaded_reachable: "reachable (trail_env None) loaded_node"
  unfolding reachable_def
  by (intro exI) (rule run.more [OF trail_post run.more [OF trail_receive run.more [OF trail_put run.start]]])

lemma loaded_bytes: "content_bytes memory_store loaded_node trail_ns [9] = Some [9]"
  unfolding loaded_node_def
  by (rule put_content_reads_back [OF memory_store_laws trail_inv])
    (simp add: put_content_def trail_known trail_tracked memory_store_def)


lemma health_counts_servable_witness:
  "content_missing (payload (healthz loaded_node)) < content_tracked (payload (healthz loaded_node))"
proof -
  have sub: "{h. \<exists>ns. content_bytes memory_store loaded_node ns h \<noteq> None} \<subseteq> dom (hm_get (state (content loaded_node)))"
    using is_present_tracked by (auto simp: content_bytes_def is_present_for_iff is_tracked_def split: if_splits)
  have "[9] \<in> {h. \<exists>ns. content_bytes memory_store loaded_node ns h \<noteq> None}"
    using loaded_bytes by auto
  then have "0 < card {h. \<exists>ns. content_bytes memory_store loaded_node ns h \<noteq> None}"
    using finite_subset [OF sub finite_dom_map_of] by (auto simp: card_gt_0_iff)
  then show ?thesis
    using health_counts_servable [OF trail_env_laws loaded_reachable] by (simp add: trail_env_fields)
qed

theorem no_key_no_state_witness:
  "watchers (snd (control_api (env_http (trail_env (Some ''s3cret''))) memory_store memory_docs (Some ''s3cret'')
     post_namespace (spawn (from_hours 1) []))) = []"
proof -
  let ?e = "trail_env (Some ''s3cret'')"
  let ?n = "snd (control_api (env_http ?e) memory_store memory_docs (Some ''s3cret'') post_namespace
     (spawn (from_hours 1) []))"
  have "step ?e (Http post_namespace) (spawn (from_hours 1) []) ?n"
    by (simp add: step_http_iff trail_env_def)
  then have run: "run ?e [Http post_namespace] (spawn (from_hours 1) []) ?n"
    by (rule run.more [OF _ run.start])
  show ?thesis
    using no_key_no_state [OF trail_env_fields(1) run]
    by (simp add: without_key_def post_namespace_def bearer_token_def)
qed

lemma grants_are_permanent_witness: "count_list (watchers loaded_node) trail_ns = 1"
proof -
  have "is_known (registry loaded_node) trail_ns"
    by (simp add: loaded_node_def put_content_def trail_known trail_tracked memory_store_def)
  then show ?thesis
    using grants_are_permanent [OF trail_env_laws loaded_reachable run.start, of trail_ns] by simp
qed

end
