(* ===== verification/Net_Addr.thy ===== *)
theory Net_Addr
  imports Rust_Std
begin

text \<open>
  The address parser of \<open>core::net\<close>, which \<open>log_redaction.rs\<close> calls through \<open>str::parse\<close> for
  \<open>IpAddr\<close> and \<open>SocketAddr\<close>. A reader takes the remaining bytes and gives a value with what is left,
  or fails and leaves its input to the next alternative. An IPv4 address is its four octets, an
  IPv6 address its eight groups.
\<close>

type_synonym 'a reader = "bytes \<Rightarrow> ('a \<times> bytes) option"

definition to_digit :: "nat \<Rightarrow> u8 \<Rightarrow> nat option" where
  "to_digit radix b =
     (if radix = 10 then (if is_ascii_digit b then Some (unat b - 48) else None)
      else map_option unat (to_digit_16 b))"

definition read_given_char :: "char \<Rightarrow> unit reader" where
  "read_given_char c s = (case s of [] \<Rightarrow> None | b # t \<Rightarrow> if b = chr_byte c then Some ((), t) else None)"

definition read_separator :: "char \<Rightarrow> nat \<Rightarrow> 'a reader \<Rightarrow> 'a reader" where
  "read_separator c index inner s =
     (if 0 < index then (case read_given_char c s of None \<Rightarrow> None | Some (_, t) \<Rightarrow> inner t) else inner s)"

text \<open>
  The digit loop: with a bound on the number of digits it gives up on the first digit too many,
  without one it gives up when the value leaves the range.
\<close>

fun digit_loop :: "nat \<Rightarrow> nat option \<Rightarrow> nat \<Rightarrow> nat \<Rightarrow> nat \<Rightarrow> bytes \<Rightarrow> ((nat \<times> nat) \<times> bytes) option" where
  "digit_loop radix max_digits limit n count [] = Some ((n, count), [])"
| "digit_loop radix max_digits limit n count (b # s) =
     (case to_digit radix b of
        None \<Rightarrow> Some ((n, count), b # s)
      | Some d \<Rightarrow>
          (case max_digits of
             Some m \<Rightarrow> if m < count + 1 then None
               else digit_loop radix max_digits limit (n * radix + d) (count + 1) s
           | None \<Rightarrow> if limit < n * radix + d then None
               else digit_loop radix max_digits limit (n * radix + d) (count + 1) s))"

definition read_number :: "nat \<Rightarrow> nat option \<Rightarrow> bool \<Rightarrow> nat \<Rightarrow> nat reader" where
  "read_number radix max_digits allow_zero_prefix limit s =
     (let leading_zero = (case s of [] \<Rightarrow> False | b # _ \<Rightarrow> b = chr_byte (CHR ''0'')) in
      case digit_loop radix max_digits limit 0 0 s of
        None \<Rightarrow> None
      | Some ((n, count), t) \<Rightarrow>
          if count = 0 then None
          else if \<not> allow_zero_prefix \<and> leading_zero \<and> 1 < count then None
          else if limit < n then None
          else Some (n, t))"

text \<open>\<open>for (i, slot) in groups.iter_mut().enumerate()\<close> of \<open>read_ipv4_addr\<close>.\<close>

fun read_octets :: "nat \<Rightarrow> nat \<Rightarrow> u8 list reader" where
  "read_octets i 0 s = Some ([], s)"
| "read_octets i (Suc left) s =
     (case read_separator (CHR ''.'') i (read_number 10 (Some 3) False 255) s of
        None \<Rightarrow> None
      | Some (n, t) \<Rightarrow> map_option (\<lambda>(os, u). (of_nat n # os, u)) (read_octets (i + 1) left t))"

definition read_ipv4_addr :: "u8 list reader" where
  "read_ipv4_addr s = read_octets 0 4 s"

text \<open>
  \<open>read_groups\<close>: \<open>left\<close> slots are free after the \<open>i\<close> groups read so far; an embedded IPv4 address
  fills two of them and ends the loop. The result says whether it did.
\<close>

fun read_groups :: "nat \<Rightarrow> nat \<Rightarrow> bytes \<Rightarrow> (u16 list \<times> bool) \<times> bytes" where
  "read_groups i 0 s = (([], False), s)"
| "read_groups i (Suc left) s =
     (case (if 0 < left then read_separator (CHR '':'') i read_ipv4_addr s else None) of
        Some (os, t) \<Rightarrow>
          (([ucast (os ! 0) * 256 + ucast (os ! 1), ucast (os ! 2) * 256 + ucast (os ! 3)], True), t)
      | None \<Rightarrow>
          (case read_separator (CHR '':'') i (read_number 16 (Some 4) True 65535) s of
             None \<Rightarrow> (([], False), s)
           | Some (g, t) \<Rightarrow>
               (let ((gs, v4), u) = read_groups (i + 1) left t in ((of_nat g # gs, v4), u))))"

definition read_ipv6_addr :: "u16 list reader" where
  "read_ipv6_addr s =
     (let ((head, head_ipv4), t) = read_groups 0 8 s in
      if length head = 8 then Some (head, t)
      else if head_ipv4 then None
      else (case read_given_char (CHR '':'') t of None \<Rightarrow> None | Some (_, u) \<Rightarrow>
             (case read_given_char (CHR '':'') u of None \<Rightarrow> None | Some (_, v) \<Rightarrow>
               (let ((tail, _), w) = read_groups 0 (8 - (length head + 1)) v
                in Some (head @ replicate (8 - length head - length tail) 0 @ tail, w)))))"

datatype ip_addr = V4 "u8 list" | V6 "u16 list"

definition read_ip_addr :: "ip_addr reader" where
  "read_ip_addr s =
     (case read_ipv4_addr s of
        Some (os, t) \<Rightarrow> Some (V4 os, t)
      | None \<Rightarrow> map_option (\<lambda>(gs, t). (V6 gs, t)) (read_ipv6_addr s))"

definition read_port :: "nat reader" where
  "read_port s =
     (case read_given_char (CHR '':'') s of None \<Rightarrow> None
      | Some (_, t) \<Rightarrow> read_number 10 None True 65535 t)"

definition read_scope_id :: "nat reader" where
  "read_scope_id s =
     (case read_given_char (CHR ''%'') s of None \<Rightarrow> None
      | Some (_, t) \<Rightarrow> read_number 10 None True (2 ^ 32 - 1) t)"

record socket_addr =
  sock_ip :: ip_addr
  sock_port :: nat
  sock_scope :: nat

definition read_socket_addr_v4 :: "socket_addr reader" where
  "read_socket_addr_v4 s =
     (case read_ipv4_addr s of None \<Rightarrow> None | Some (os, t) \<Rightarrow>
        map_option (\<lambda>(p, u). (\<lparr>sock_ip = V4 os, sock_port = p, sock_scope = 0\<rparr>, u)) (read_port t))"

definition read_socket_addr_v6 :: "socket_addr reader" where
  "read_socket_addr_v6 s =
     (case read_given_char (CHR ''['') s of None \<Rightarrow> None | Some (_, t) \<Rightarrow>
        (case read_ipv6_addr t of None \<Rightarrow> None | Some (gs, u) \<Rightarrow>
           (let (scope, v) = (case read_scope_id u of Some (n, v) \<Rightarrow> (n, v) | None \<Rightarrow> (0, u)) in
            case read_given_char (CHR '']'') v of None \<Rightarrow> None | Some (_, w) \<Rightarrow>
              map_option (\<lambda>(p, x). (\<lparr>sock_ip = V6 gs, sock_port = p, sock_scope = scope\<rparr>, x)) (read_port w))))"

definition read_socket_addr :: "socket_addr reader" where
  "read_socket_addr s =
     (case read_socket_addr_v4 s of Some r \<Rightarrow> Some r | None \<Rightarrow> read_socket_addr_v6 s)"

text \<open>\<open>parse_with\<close>: the whole input has to be read.\<close>

definition parse_with :: "'a reader \<Rightarrow> bytes \<Rightarrow> 'a option" where
  "parse_with inner s = (case inner s of Some (a, []) \<Rightarrow> Some a | _ \<Rightarrow> None)"

definition parse_ip_addr :: "bytes \<Rightarrow> ip_addr option" where
  "parse_ip_addr = parse_with read_ip_addr"

definition parse_socket_addr :: "bytes \<Rightarrow> socket_addr option" where
  "parse_socket_addr = parse_with read_socket_addr"

section \<open>Printed IPv4 addresses\<close>

definition digit_byte :: "nat \<Rightarrow> u8" where
  "digit_byte d = of_nat (48 + d)"

definition show_octet :: "nat \<Rightarrow> bytes" where
  "show_octet n = map digit_byte
     (if n < 10 then [n] else if n < 100 then [n div 10, n mod 10] else [n div 100, n div 10 mod 10, n mod 10])"

fun show_octets :: "nat \<Rightarrow> u8 list \<Rightarrow> bytes" where
  "show_octets i [] = []"
| "show_octets i (n # os) =
     (if 0 < i then [chr_byte (CHR ''.'')] else []) @ show_octet (unat n) @ show_octets (i + 1) os"

definition show_ipv4 :: "u8 list \<Rightarrow> bytes" where
  "show_ipv4 os = show_octets 0 os"

definition digit_value :: "bytes \<Rightarrow> nat \<Rightarrow> nat" where
  "digit_value ds n = foldl (\<lambda>n d. n * 10 + (unat d - 48)) n ds"

definition at_end :: "bytes \<Rightarrow> bool" where
  "at_end t \<longleftrightarrow> (case t of [] \<Rightarrow> True | b # _ \<Rightarrow> \<not> is_ascii_digit b)"

lemma to_digit_10: "to_digit 10 b = (if is_ascii_digit b then Some (unat b - 48) else None)"
  by (simp add: to_digit_def)

lemma unat_digit_byte: "d < 10 \<Longrightarrow> unat (digit_byte d) = 48 + d"
  unfolding digit_byte_def by (subst unat_of_nat) simp

lemma digit_byte_digit: "d < 10 \<Longrightarrow> is_ascii_digit (digit_byte d)"
  by (simp add: is_ascii_digit_def word_le_nat_alt unat_digit_byte)

lemma digit_byte_cases:
  assumes "is_ascii_digit b"
  obtains d where "d < 10" "b = digit_byte d"
proof (rule that)
  have "48 \<le> unat b" "unat b \<le> 57"
    using assms by (simp_all add: is_ascii_digit_def word_le_nat_alt)
  then show "unat b - 48 < 10" "b = digit_byte (unat b - 48)"
    by (simp_all add: digit_byte_def)
qed

lemma digit_loop_bounded:
  assumes "c \<le> m"
  shows "digit_loop 10 (Some m) limit n c s =
    (if c + length (takeWhile is_ascii_digit s) \<le> m
     then Some ((digit_value (takeWhile is_ascii_digit s) n, c + length (takeWhile is_ascii_digit s)),
       dropWhile is_ascii_digit s)
     else None)"
  using assms
proof (induction s arbitrary: n c)
  case (Cons b s)
  show ?case
    using Cons.IH [of "c + 1" "n * 10 + (unat b - 48)"] Cons.prems
    by (auto simp: to_digit_10 digit_value_def)
qed (simp add: digit_value_def)

lemma three_digits:
  assumes "(x :: nat) < 10" "y < 10" "z < 10"
  shows "(x * 100 + y * 10 + z) div 100 = x" "(x * 100 + y * 10 + z) div 10 mod 10 = y"
    "(x * 100 + y * 10 + z) mod 10 = z"
proof -
  have "x * 100 + y * 10 + z = (y * 10 + z) + x * 100" by simp
  moreover have "(y * 10 + z) div 100 = 0"
    using assms by simp
  ultimately show "(x * 100 + y * 10 + z) div 100 = x"
    by (simp only: div_mult_self1)
  have ten: "x * 100 + y * 10 + z = z + (x * 10 + y) * 10" by simp
  then have "(x * 100 + y * 10 + z) div 10 = x * 10 + y"
    using assms by (simp only: div_mult_self1)
  then show "(x * 100 + y * 10 + z) div 10 mod 10 = y"
    using assms by simp
  show "(x * 100 + y * 10 + z) mod 10 = z"
    using assms unfolding ten by (simp only: mod_mult_self1) simp
qed

text \<open>A decimal number of one to three digits without a leading zero is printed back.\<close>

lemma show_digit_value:
  assumes "list_all is_ascii_digit ds" "ds \<noteq> []" "length ds \<le> 3" "length ds = 1 \<or> hd ds \<noteq> digit_byte 0"
  shows "show_octet (digit_value ds 0) = ds"
proof -
  consider (one) a where "ds = [a]" | (two) a b where "ds = [a, b]" | (three) a b c where "ds = [a, b, c]"
  proof -
    have "0 < length ds"
      using assms(2) by simp
    then have "length ds = 1 \<or> length ds = 2 \<or> length ds = 3"
      using assms(3) by linarith
    then show thesis
      using that by (auto simp: length_Suc_conv numeral_2_eq_2 numeral_3_eq_3)
  qed
  then show ?thesis
  proof cases
    case one
    then obtain x where "a = digit_byte x" "x < 10"
      using assms(1) by (auto elim: digit_byte_cases)
    with one show ?thesis by (simp add: digit_value_def show_octet_def unat_digit_byte)
  next
    case two
    then obtain x y where "a = digit_byte x" "x < 10" "b = digit_byte y" "y < 10"
      using assms(1) by (auto elim!: digit_byte_cases)
    moreover have "x \<noteq> 0"
      using assms(4) two calculation by (cases "x = 0") auto
    ultimately show ?thesis
      using two by (simp add: digit_value_def show_octet_def unat_digit_byte)
  next
    case three
    then obtain x y z where d: "a = digit_byte x" "x < 10" "b = digit_byte y" "y < 10" "c = digit_byte z" "z < 10"
      using assms(1) by (auto elim!: digit_byte_cases)
    moreover have "x \<noteq> 0"
      using assms(4) three calculation by (cases "x = 0") auto
    ultimately show ?thesis
      using three three_digits [of x y z] by (simp add: digit_value_def show_octet_def unat_digit_byte algebra_simps)
  qed
qed

lemma show_octet_digits:
  assumes "n \<le> 255"
  shows "list_all is_ascii_digit (show_octet n)" "show_octet n \<noteq> []" "length (show_octet n) \<le> 3"
    "length (show_octet n) = 1 \<or> hd (show_octet n) \<noteq> digit_byte 0" "digit_value (show_octet n) 0 = n"
proof -
  have lt: "n div 10 < 10" if "n < 100" using that by auto
  have lt3: "n div 100 < 10" "n div 100 \<noteq> 0" if "\<not> n < 100" using that assms by auto
  have nz: "digit_byte d \<noteq> digit_byte 0" if "0 < d" "d < 10" for d
    using that unat_digit_byte [of d] unat_digit_byte [of 0] by auto
  show "list_all is_ascii_digit (show_octet n)" "show_octet n \<noteq> []" "length (show_octet n) \<le> 3"
    using lt lt3 by (auto simp: show_octet_def digit_byte_digit)
  show "length (show_octet n) = 1 \<or> hd (show_octet n) \<noteq> digit_byte 0"
    using lt lt3 nz [of "n div 10"] nz [of "n div 100"] by (auto simp: show_octet_def)
  have "n = n div 100 * 100 + n div 10 mod 10 * 10 + n mod 10"
  proof -
    have "n = n div 10 * 10 + n mod 10" "n div 10 = n div 10 div 10 * 10 + n div 10 mod 10"
      by (simp_all only: div_mult_mod_eq)
    moreover have "n div 10 div 10 = n div 100"
      by (simp add: div_mult2_eq [symmetric])
    ultimately show ?thesis by linarith
  qed
  then show "digit_value (show_octet n) 0 = n"
    using lt lt3 by (auto simp: show_octet_def digit_value_def unat_digit_byte)
qed

lemma takeWhile_digits: "list_all is_ascii_digit ds \<Longrightarrow> at_end t \<Longrightarrow>
    takeWhile is_ascii_digit (ds @ t) = ds \<and> dropWhile is_ascii_digit (ds @ t) = t"
  by (induction ds) (auto simp: at_end_def split: list.splits)

lemma read_octet_iff:
  "read_number 10 (Some 3) False 255 s = Some (n, t) \<longleftrightarrow> n \<le> 255 \<and> s = show_octet n @ t \<and> at_end t"
proof -
  let ?ds = "takeWhile is_ascii_digit s"
  have fin: "at_end (dropWhile is_ascii_digit u)" for u
    by (induction u) (auto simp: at_end_def)
  have zero: "chr_byte (CHR ''0'') = digit_byte 0"
    by (simp add: chr_byte_def digit_byte_def)
  have digits: "list_all is_ascii_digit ?ds"
    by (auto simp: list_all_iff dest: set_takeWhileD)
  have lead: "(case s of [] \<Rightarrow> False | b # _ \<Rightarrow> b = digit_byte 0) \<longleftrightarrow> ?ds \<noteq> [] \<and> hd ?ds = digit_byte 0"
    using digit_byte_digit [of 0] by (cases s) auto
  have run: "read_number 10 (Some 3) False 255 s =
      (if length ?ds \<le> 3 \<and> ?ds \<noteq> [] \<and> (length ?ds = 1 \<or> hd ?ds \<noteq> digit_byte 0) \<and> digit_value ?ds 0 \<le> 255
       then Some (digit_value ?ds 0, dropWhile is_ascii_digit s) else None)"
    unfolding read_number_def Let_def zero lead by (auto simp: digit_loop_bounded not_less le_Suc_eq)
  show ?thesis
  proof
    assume "read_number 10 (Some 3) False 255 s = Some (n, t)"
    then have "length ?ds \<le> 3" "?ds \<noteq> []" "length ?ds = 1 \<or> hd ?ds \<noteq> digit_byte 0" "n = digit_value ?ds 0"
      "n \<le> 255" "t = dropWhile is_ascii_digit s"
      unfolding run by (auto split: if_splits)
    then show "n \<le> 255 \<and> s = show_octet n @ t \<and> at_end t"
      using show_digit_value [OF digits] fin [of s] by simp
  next
    assume "n \<le> 255 \<and> s = show_octet n @ t \<and> at_end t"
    then show "read_number 10 (Some 3) False 255 s = Some (n, t)"
      unfolding run using show_octet_digits [of n] takeWhile_digits [of "show_octet n" t] by auto
  qed
qed

lemma read_octets_iff:
  "read_octets i left s = Some (os, t) \<longleftrightarrow>
     length os = left \<and> s = show_octets i os @ t \<and> (left = 0 \<or> at_end t)"
proof (induction i left s arbitrary: os rule: read_octets.induct)
  case (1 i s)
  then show ?case by auto
next
  case (2 i left s)
  have sep: "read_separator (CHR ''.'') i (read_number 10 (Some 3) False 255) s = Some (n, u) \<longleftrightarrow>
      n \<le> 255 \<and> s = (if 0 < i then [chr_byte (CHR ''.'')] else []) @ show_octet n @ u \<and> at_end u" for n u
    by (auto simp: read_separator_def read_given_char_def read_octet_iff split: list.splits)
  have dot: "at_end (show_octets (Suc i) vs @ t)" if "vs \<noteq> []" for vs
    using that by (cases vs) (simp_all add: at_end_def is_ascii_digit_def chr_byte_def)
  show ?case
  proof
    assume "read_octets i (Suc left) s = Some (os, t)"
    then obtain n u vs where r: "read_separator (CHR ''.'') i (read_number 10 (Some 3) False 255) s = Some (n, u)"
        "read_octets (i + 1) left u = Some (vs, t)" "os = of_nat n # vs"
      by (auto split: option.splits)
    have "n \<le> 255" using r(1) sep by simp
    then show "length os = Suc left \<and> s = show_octets i os @ t \<and> (Suc left = 0 \<or> at_end t)"
      using r 2 [OF r(1) refl, of vs] sep [of n u] by (cases vs) (auto simp: unat_of_nat)
  next
    assume *: "length os = Suc left \<and> s = show_octets i os @ t \<and> (Suc left = 0 \<or> at_end t)"
    then obtain w vs where os: "os = w # vs" by (cases os) auto
    let ?u = "show_octets (i + 1) vs @ t"
    have "unat w \<le> 255"
      using unat_u8_bound [of w] by simp
    moreover have "at_end ?u"
      using * dot by (cases "vs = []") auto
    ultimately have r: "read_separator (CHR ''.'') i (read_number 10 (Some 3) False 255) s = Some (unat w, ?u)"
      unfolding sep using * os by simp
    then show "read_octets i (Suc left) s = Some (os, t)"
      using * os 2 [OF r refl, of vs] by auto
  qed
qed

lemma read_ipv4_iff:
  "read_ipv4_addr s = Some (os, t) \<longleftrightarrow> length os = 4 \<and> s = show_ipv4 os @ t \<and> at_end t"
  by (simp add: read_ipv4_addr_def read_octets_iff show_ipv4_def)

lemma parse_with_Some: "parse_with inner s = Some a \<longleftrightarrow> inner s = Some (a, [])"
  by (auto simp: parse_with_def split: option.split list.split)

lemma parse_ipv4_iff: "parse_ip_addr s = Some (V4 os) \<longleftrightarrow> length os = 4 \<and> s = show_ipv4 os"
proof -
  have "parse_ip_addr s = Some (V4 os) \<longleftrightarrow> read_ipv4_addr s = Some (os, [])"
    by (auto simp: parse_ip_addr_def parse_with_Some read_ip_addr_def split: option.split)
  then show ?thesis
    by (simp add: read_ipv4_iff at_end_def)
qed

lemma show_ipv4_start: "length os = 4 \<Longrightarrow> \<exists>b t. show_ipv4 os = b # t \<and> is_ascii_digit b"
proof -
  assume "length os = 4"
  then obtain n ns where "os = n # ns" by (cases os) auto
  moreover obtain b t where "show_octet (unat n) = b # t"
    using show_octet_digits(2) [of "unat n"] unat_u8_bound [of n] by (cases "show_octet (unat n)") auto
  moreover have "list_all is_ascii_digit (show_octet (unat n))"
    using show_octet_digits(1) [of "unat n"] unat_u8_bound [of n] by simp
  ultimately show ?thesis by (simp add: show_ipv4_def)
qed

lemma show_octet_length: "length (show_octet n) \<le> 3"
  by (simp add: show_octet_def)

lemma show_octets_length: "length (show_octets i os) \<le> 4 * length os"
proof (induction i os rule: show_octets.induct)
  case (2 i n os)
  then show ?case
    using show_octet_length [of "unat n"] by auto
qed simp

text \<open>An address followed by a colon or a full stop is neither an address nor a socket address.\<close>

lemma ipv4_suffix_rejected:
  assumes "length os = 4" "suffix = '':'' \<or> suffix = ''.''"
  shows "parse_ip_addr (show_ipv4 os @ as_bytes suffix) = None"
    "parse_socket_addr (show_ipv4 os @ as_bytes suffix) = None"
proof -
  have fin: "at_end (as_bytes suffix)" "as_bytes suffix \<noteq> []"
    using assms(2) by (auto simp: at_end_def is_ascii_digit_def chr_byte_def)
  have read: "read_ipv4_addr (show_ipv4 os @ as_bytes suffix) = Some (os, as_bytes suffix)"
    using assms(1) fin(1) by (simp add: read_ipv4_iff)
  show "parse_ip_addr (show_ipv4 os @ as_bytes suffix) = None"
    using fin(2) unfolding parse_ip_addr_def parse_with_def read_ip_addr_def read
    by (simp split: list.split)
  have "read_port (as_bytes suffix) = None"
    using assms(2) by (auto simp: read_port_def read_given_char_def read_number_def chr_byte_def)
  moreover have "read_socket_addr_v6 (show_ipv4 os @ as_bytes suffix) = None"
  proof -
    obtain b t where "show_ipv4 os = b # t" "is_ascii_digit b"
      using show_ipv4_start [OF assms(1)] by blast
    moreover have "\<not> is_ascii_digit (chr_byte (CHR ''[''))"
      by (simp add: is_ascii_digit_def chr_byte_def)
    ultimately show ?thesis
      by (auto simp: read_socket_addr_v6_def read_given_char_def split: option.split)
  qed
  ultimately show "parse_socket_addr (show_ipv4 os @ as_bytes suffix) = None"
    by (simp add: parse_socket_addr_def parse_with_def read_socket_addr_def read_socket_addr_v4_def read)
qed

section \<open>Inputs without a colon\<close>

lemma read_given_char_Some: "read_given_char c s = Some (u, t) \<longleftrightarrow> s = chr_byte c # t"
  by (auto simp: read_given_char_def split: list.split)

lemma digit_loop_set: "digit_loop radix m limit n k s = Some (r, t) \<Longrightarrow> set t \<subseteq> set s"
  by (induction radix m limit n k s rule: digit_loop.induct) (auto split: option.splits if_splits)

lemma read_number_set: "read_number radix m z limit s = Some (n, t) \<Longrightarrow> set t \<subseteq> set s"
  by (auto simp: read_number_def Let_def split: option.splits if_splits dest!: digit_loop_set [THEN subsetD])

lemma read_ipv4_set: "read_ipv4_addr s = Some (os, t) \<Longrightarrow> set t \<subseteq> set s"
  by (auto simp: read_ipv4_iff)

lemma read_groups_no_colon:
  assumes "chr_byte (CHR '':'') \<notin> set s"
  shows "read_groups (Suc i) left s = (([], False), s)"
proof -
  have "read_given_char (CHR '':'') s = None"
    using assms by (cases s) (auto simp: read_given_char_def)
  then show ?thesis
    by (cases left) (simp_all add: read_separator_def)
qed

lemma read_groups_first:
  assumes "chr_byte (CHR '':'') \<notin> set s" "read_groups 0 left s = ((gs, v4), t)"
  shows "length gs \<le> 2 \<and> set t \<subseteq> set s"
proof (cases left)
  case (Suc n)
  show ?thesis
  proof (cases "if 0 < n then read_separator (CHR '':'') 0 read_ipv4_addr s else None")
    case (Some r)
    obtain os u where "r = (os, u)" by (cases r)
    then show ?thesis
      using Some assms(2) read_ipv4_set [of s os u] unfolding Suc
      by (auto simp: read_separator_def split: if_splits)
  next
    case none: None
    show ?thesis
    proof (cases "read_number 16 (Some 4) True 65535 s")
      case None
      then show ?thesis
        using none assms(2) unfolding Suc by (simp add: read_separator_def)
    next
      case (Some r)
      obtain g u where r: "r = (g, u)" by (cases r)
      have u: "set u \<subseteq> set s"
        using read_number_set Some r by blast
      have "read_groups (Suc 0) n u = (([], False), u)"
        using u assms(1) by (intro read_groups_no_colon) blast
      then show ?thesis
        using none Some assms(2) u r unfolding Suc by (auto simp: read_separator_def Let_def)
    qed
  qed
qed (use assms in simp)

lemma read_ipv6_no_colon:
  assumes "chr_byte (CHR '':'') \<notin> set s"
  shows "read_ipv6_addr s = None"
proof -
  obtain gs v4 t where g: "read_groups 0 8 s = ((gs, v4), t)"
    by (metis prod.collapse)
  have "length gs \<le> 2" "chr_byte (CHR '':'') \<notin> set t"
    using read_groups_first [OF assms g] assms by auto
  moreover have "read_given_char (CHR '':'') t = None"
    using calculation(2) by (cases t) (auto simp: read_given_char_def)
  ultimately show ?thesis
    by (auto simp: read_ipv6_addr_def g)
qed

lemma no_colon_address:
  assumes "chr_byte (CHR '':'') \<notin> set s"
  shows "parse_socket_addr s = None" "parse_ip_addr s = Some a \<longleftrightarrow> (\<exists>q. a = V4 q \<and> length q = 4 \<and> s = show_ipv4 q)"
proof -
  have port: "read_port t = None" if "set t \<subseteq> set s" for t
    using that assms by (cases t) (auto simp: read_port_def read_given_char_def)
  have "read_socket_addr_v4 s = None"
    using port by (auto simp: read_socket_addr_v4_def split: option.split dest!: read_ipv4_set)
  moreover have "read_socket_addr_v6 s = None"
    using assms by (auto simp: read_socket_addr_v6_def read_given_char_Some read_ipv6_no_colon split: option.split)
  ultimately show "parse_socket_addr s = None"
    by (simp add: parse_socket_addr_def parse_with_def read_socket_addr_def)
  show "parse_ip_addr s = Some a \<longleftrightarrow> (\<exists>q. a = V4 q \<and> length q = 4 \<and> s = show_ipv4 q)"
    using read_ipv6_no_colon [OF assms] parse_ipv4_iff [of s]
    by (cases a) (auto simp: parse_ip_addr_def parse_with_Some read_ip_addr_def split: option.splits)
qed

lemma show_octets_dots:
  "count_list (show_octets i os) (chr_byte (CHR ''.'')) = length os - (if i = 0 then 1 else 0)"
proof (induction i os rule: show_octets.induct)
  case (2 i n os)
  have "list_all is_ascii_digit (show_octet (unat n))"
    using show_octet_digits(1) [of "unat n"] unat_u8_bound [of n] by simp
  then have "chr_byte (CHR ''.'') \<notin> set (show_octet (unat n))"
    by (auto simp: list_all_iff is_ascii_digit_def chr_byte_def)
  then show ?case
    using 2 by (simp add: count_list_0_iff)
qed simp

text \<open>With fewer than three full stops and no colon nothing is an address.\<close>

lemma not_address:
  assumes "chr_byte (CHR '':'') \<notin> set s" "count_list s (chr_byte (CHR ''.'')) < 3"
  shows "parse_ip_addr s = None" "parse_socket_addr s = None"
proof -
  have "s \<noteq> show_ipv4 q" if "length q = 4" for q
    using assms(2) that show_octets_dots [of 0 q] by (auto simp: show_ipv4_def)
  then show "parse_ip_addr s = None"
    using no_colon_address(2) [OF assms(1)] by (metis not_None_eq)
  show "parse_socket_addr s = None"
    by (rule no_colon_address(1) [OF assms(1)])
qed

end
