(* ===== verification/Log_Redaction.thy ===== *)
theory Log_Redaction
  imports Net_Addr "HOL-Library.Product_Lexorder" "HOL-Library.While_Combinator"
begin

text \<open>
  \<open>rust/src/log_redaction.rs\<close>: what is cut from a formatted log line. Two scans collect the runs of
  network characters that parse as an address and the long runs that look like an identifier; the
  sorted ranges are then replaced. The lemmas characterise the scans by maximal runs and the output
  by the set of positions they cover, and show that the loops end.
\<close>

definition REDACTED :: string where
  "REDACTED = ''[REDACTED]''"

definition is_network_char :: "u8 \<Rightarrow> bool" where
  "is_network_char b \<longleftrightarrow> is_ascii_hexdigit b \<or> b = chr_byte (CHR ''.'') \<or> b = chr_byte (CHR '':'')"

definition is_opaque_char :: "u8 \<Rightarrow> bool" where
  "is_opaque_char b \<longleftrightarrow> is_ascii_alphanumeric b \<or>
     b \<in> {chr_byte (CHR ''_''), chr_byte (CHR ''-''), chr_byte (CHR ''+''), chr_byte (CHR ''/''), chr_byte (CHR ''='')}"

text \<open>The inner loop \<open>while i < bytes.len() && p(bytes[i])\<close>.\<close>

function run_end :: "(u8 \<Rightarrow> bool) \<Rightarrow> bytes \<Rightarrow> nat \<Rightarrow> nat" where
  "run_end p b i = (if i < length b \<and> p (b ! i) then run_end p b (i + 1) else i)"
  by pat_completeness auto

termination
  by (relation "measure (\<lambda>(p, b, i). length b - i)") auto

declare run_end.simps [simp del]

lemma run_end_bounds:
  "i \<le> run_end p b i" "i \<le> length b \<Longrightarrow> run_end p b i \<le> length b"
  "i \<le> k \<Longrightarrow> k < run_end p b i \<Longrightarrow> p (b ! k)"
  "run_end p b i < length b \<Longrightarrow> \<not> p (b ! run_end p b i)"
proof (induction p b i rule: run_end.induct)
  case (1 p b i)
  {
    case 1
    then show ?case using "1.IH"(1) by (subst run_end.simps) auto
  next
    case 2
    then show ?case using "1.IH"(2) by (subst run_end.simps) auto
  next
    case 3
    then show ?case using "1.IH"(3) by (cases "k = i") (auto simp: run_end.simps [of p b i] split: if_splits)
  next
    case 4
    then show ?case using "1.IH"(4) by (auto simp: run_end.simps [of p b i] split: if_splits)
  }
qed

lemma run_end_gt: "i < length b \<Longrightarrow> p (b ! i) \<Longrightarrow> i < run_end p b i"
  using run_end_bounds(1) [of "i + 1" p b] by (subst run_end.simps) simp

type_synonym range = "nat \<times> nat"

definition byte_slice :: "bytes \<Rightarrow> nat \<Rightarrow> nat \<Rightarrow> bytes" where
  "byte_slice b s e = take (e - s) (drop s b)"

text \<open>The outer loop; \<open>hit\<close> decides whether a run is a range to redact.\<close>

function scan :: "(u8 \<Rightarrow> bool) \<Rightarrow> (bytes \<Rightarrow> bool) \<Rightarrow> bytes \<Rightarrow> nat \<Rightarrow> range list \<Rightarrow> range list" where
  "scan p hit b i ranges =
     (if i < length b then
        if p (b ! i) then
          (let e = run_end p b i
           in scan p hit b e (if hit (byte_slice b i e) then ranges @ [(i, e)] else ranges))
        else scan p hit b (i + 1) ranges
      else ranges)"
  by pat_completeness auto

termination
  by (relation "measure (\<lambda>(p, hit, b, i, ranges). length b - i)")
    (auto simp: Let_def diff_less_mono2 run_end_gt)

declare scan.simps [simp del]

definition is_address :: "bytes \<Rightarrow> bool" where
  "is_address candidate \<longleftrightarrow> parse_ip_addr candidate \<noteq> None \<or> parse_socket_addr candidate \<noteq> None"

definition is_identity :: "bytes \<Rightarrow> bool" where
  "is_identity candidate \<longleftrightarrow> 32 \<le> length candidate \<and>
     (list_ex is_ascii_digit candidate \<or> list_all is_ascii_hexdigit candidate)"

fun emit :: "string \<Rightarrow> range list \<Rightarrow> nat \<Rightarrow> string \<Rightarrow> string" where
  "emit input [] copied out = out @ drop copied input"
| "emit input ((s, e) # ranges) copied out =
     (if e \<le> copied then emit input ranges copied out
      else (let s' = max s copied
            in emit input ranges e (out @ take (s' - copied) (drop copied input) @ REDACTED)))"

definition redact_ranges :: "string \<Rightarrow> range list" where
  "redact_ranges input =
     scan is_opaque_char is_identity (as_bytes input) 0
       (scan is_network_char is_address (as_bytes input) 0 [])"

definition redact_log_line :: "string \<Rightarrow> string" where
  "redact_log_line input =
     (if redact_ranges input = [] then input else emit input (sort (redact_ranges input)) 0 [])"

section \<open>The scans without indices\<close>

text \<open>
  The same ranges, read off the list itself: the runs are cut with \<open>takeWhile\<close> and no byte is looked
  at by its index.
\<close>

fun runs_from :: "(u8 \<Rightarrow> bool) \<Rightarrow> (bytes \<Rightarrow> bool) \<Rightarrow> nat \<Rightarrow> bytes \<Rightarrow> bytes \<Rightarrow> range list" where
  "runs_from p hit i acc [] = (if acc \<noteq> [] \<and> hit (rev acc) then [(i - length acc, i)] else [])"
| "runs_from p hit i acc (c # cs) =
     (if p c then runs_from p hit (Suc i) (c # acc) cs
      else (if acc \<noteq> [] \<and> hit (rev acc) then [(i - length acc, i)] else []) @ runs_from p hit (Suc i) [] cs)"

lemma run_end_takeWhile: "i \<le> length b \<Longrightarrow> run_end p b i = i + length (takeWhile p (drop i b))"
proof (induction p b i rule: run_end.induct)
  case (1 p b i)
  show ?case
  proof (cases "i < length b")
    case True
    then have "drop i b = b ! i # drop (Suc i) b"
      by (simp add: Cons_nth_drop_Suc)
    then show ?thesis
      using 1 True by (simp add: run_end.simps [of p b i])
  next
    case False
    then show ?thesis
      using 1(2) by (subst run_end.simps) simp
  qed
qed

lemma runs_from_run:
  "runs_from p hit i acc bs =
     (let w = rev acc @ takeWhile p bs; e = i + length (takeWhile p bs)
      in (if w \<noteq> [] \<and> hit w then [(e - length w, e)] else []) @ runs_from p hit e [] (dropWhile p bs))"
  by (induction bs arbitrary: i acc) (auto simp: Let_def)

lemma scan_runs: "i \<le> length b \<Longrightarrow> scan p hit b i ranges = ranges @ runs_from p hit i [] (drop i b)"
proof (induction p hit b i ranges rule: scan.induct)
  case (1 p hit b i ranges)
  show ?case
  proof (cases "i < length b")
    case True
    then have d: "drop i b = b ! i # drop (Suc i) b"
      by (simp add: Cons_nth_drop_Suc)
    show ?thesis
    proof (cases "p (b ! i)")
      case hit: True
      let ?e = "run_end p b i" and ?w = "takeWhile p (drop i b)"
      have e: "?e = i + length ?w" and le: "?e \<le> length b"
        using True run_end_takeWhile [of i b p] run_end_bounds(2) [of i b p] by simp_all
      have w: "?w \<noteq> []"
        using hit by (simp add: d)
      have slice: "byte_slice b i ?e = ?w"
        using takeWhile_eq_take [of p "drop i b"] by (simp add: e byte_slice_def)
      have rest: "drop ?e b = dropWhile p (drop i b)"
        using dropWhile_eq_drop [of p "drop i b"] by (simp add: e add.commute)
      show ?thesis
        using "1.IH"(1) [OF True hit refl le] True hit w slice rest
        by (cases "hit ?w") (simp_all add: scan.simps [of p hit b i] Let_def runs_from_run [of p hit i "[]" "drop i b"] e)
    next
      case False
      then show ?thesis
        using "1.IH"(2) [OF True False] True by (simp add: scan.simps [of p hit b i] d)
    qed
  next
    case False
    then show ?thesis
      using 1(3) by (subst scan.simps) simp
  qed
qed

lemma redact_ranges_runs:
  "redact_ranges line =
     runs_from is_network_char is_address 0 [] (as_bytes line) @
     runs_from is_opaque_char is_identity 0 [] (as_bytes line)"
  by (simp add: redact_ranges_def scan_runs)

section \<open>The scans find the maximal runs\<close>

definition maximal_run :: "(u8 \<Rightarrow> bool) \<Rightarrow> bytes \<Rightarrow> nat \<Rightarrow> nat \<Rightarrow> bool" where
  "maximal_run p b s e \<longleftrightarrow> s < e \<and> e \<le> length b \<and> (\<forall>k. s \<le> k \<and> k < e \<longrightarrow> p (b ! k)) \<and>
     (0 < s \<longrightarrow> \<not> p (b ! (s - 1))) \<and> (e < length b \<longrightarrow> \<not> p (b ! e))"

definition run_starts :: "(u8 \<Rightarrow> bool) \<Rightarrow> bytes \<Rightarrow> nat \<Rightarrow> bool" where
  "run_starts p b i \<longleftrightarrow> i = 0 \<or> \<not> p (b ! (i - 1)) \<or> length b \<le> i \<or> \<not> p (b ! i)"

lemma maximal_run_end:
  assumes "maximal_run p b s e" "s \<le> k" "k \<le> length b" "\<And>j. s \<le> j \<Longrightarrow> j < k \<Longrightarrow> p (b ! j)"
    "k < length b \<Longrightarrow> \<not> p (b ! k)"
  shows "e = k"
proof (rule ccontr)
  assume "e \<noteq> k"
  then consider "e < k" | "k < e" by linarith
  then show False
  proof cases
    case 1
    then show False using assms by (auto simp: maximal_run_def)
  next
    case 2
    then show False using assms by (auto simp: maximal_run_def)
  qed
qed

lemma scan_set:
  assumes "run_starts p b i"
  shows "set (scan p hit b i ranges) =
    set ranges \<union> {(s, e). i \<le> s \<and> maximal_run p b s e \<and> hit (byte_slice b s e)}"
  using assms
proof (induction p hit b i ranges rule: scan.induct)
  case (1 p hit b i ranges)
  consider (stop) "\<not> i < length b" | (skip) "i < length b" "\<not> p (b ! i)" | (run) "i < length b" "p (b ! i)"
    by blast
  then show ?case
  proof cases
    case stop
    have "\<not> maximal_run p b s e" if "i \<le> s" for s e
      using stop that by (simp add: maximal_run_def)
    then show ?thesis
      using stop by (auto simp: scan.simps [of p hit b i])
  next
    case skip
    have "s \<noteq> i" if "maximal_run p b s e" for s e
      using skip that by (auto simp: maximal_run_def)
    then have "{(s, e). i \<le> s \<and> maximal_run p b s e \<and> hit (byte_slice b s e)} =
        {(s, e). i + 1 \<le> s \<and> maximal_run p b s e \<and> hit (byte_slice b s e)}"
      by (auto simp: Suc_le_eq order.strict_iff_order)
    then show ?thesis
      using skip "1.IH"(2) by (simp add: scan.simps [of p hit b i] run_starts_def)
  next
    case run
    let ?e = "run_end p b i"
    note e = run_end_bounds [where p = p and b = b and i = i] run_end_gt [where p = p, OF run]
    have first: "maximal_run p b i ?e"
      using run 1(3) e by (auto simp: maximal_run_def run_starts_def)
    have rest: "i \<le> s \<and> maximal_run p b s e' \<longleftrightarrow> (s, e') = (i, ?e) \<or> ?e \<le> s \<and> maximal_run p b s e'" for s e'
    proof (cases "s = i")
      case True
      have "e' = ?e" if "maximal_run p b i e'"
        by (rule maximal_run_end [OF that]) (use e run in auto)
      then show ?thesis
        using True first e(5) by auto
    next
      case False
      have "?e \<le> s" if "i < s" "maximal_run p b s e'"
      proof (rule ccontr)
        assume "\<not> ?e \<le> s"
        then have "p (b ! (s - 1))"
          using that(1) e(3) [of "s - 1"] by simp
        then show False
          using that by (simp add: maximal_run_def)
      qed
      then show ?thesis
        using False e(1) by auto
    qed
    have "run_starts p b ?e"
      using e(4) by (auto simp: run_starts_def)
    note IH = "1.IH"(1) [OF run refl this]
    have "{(s, e). i \<le> s \<and> maximal_run p b s e \<and> hit (byte_slice b s e)} =
        {(s, e). (s, e) = (i, ?e) \<and> hit (byte_slice b s e)} \<union>
        {(s, e). ?e \<le> s \<and> maximal_run p b s e \<and> hit (byte_slice b s e)}"
      using rest by auto
    then show ?thesis
      using run IH by (auto simp: scan.simps [of p hit b i] Let_def)
  qed
qed

section \<open>What is cut from a line\<close>

definition covered :: "range list \<Rightarrow> nat \<Rightarrow> bool" where
  "covered ranges k \<longleftrightarrow> (\<exists>(s, e) \<in> set ranges. s \<le> k \<and> k < e)"

text \<open>A segment of the line and whether it is hidden.\<close>

type_synonym segment = "bool \<times> string"

definition visible :: "segment list \<Rightarrow> string" where
  "visible segs = concat (map (\<lambda>(hide, t). if hide then REDACTED else t) segs)"

definition hidden_flags :: "segment list \<Rightarrow> bool list" where
  "hidden_flags segs = concat (map (\<lambda>(hide, t). replicate (length t) hide) segs)"

definition segments_of :: "string \<Rightarrow> segment list \<Rightarrow> bool" where
  "segments_of t segs \<longleftrightarrow> concat (map snd segs) = t \<and> (\<forall>(hide, u) \<in> set segs. hide \<longrightarrow> u \<noteq> [])"

lemma segment_simps [simp]:
  "visible [] = []" "visible ((hide, t) # segs) = (if hide then REDACTED else t) @ visible segs"
  "hidden_flags [] = []" "hidden_flags ((hide, t) # segs) = replicate (length t) hide @ hidden_flags segs"
  "segments_of t [] \<longleftrightarrow> t = []"
  "segments_of t ((hide, u) # segs) \<longleftrightarrow>
     (\<exists>v. t = u @ v \<and> segments_of v segs) \<and> (hide \<longrightarrow> u \<noteq> [])"
  by (auto simp: visible_def hidden_flags_def segments_of_def)

lemma segments_of_Cons:
  "t = u @ v \<Longrightarrow> segments_of v segs \<Longrightarrow> (hide \<Longrightarrow> u \<noteq> []) \<Longrightarrow> segments_of t ((hide, u) # segs)"
  by simp

lemma covered_simps [simp]:
  "covered [] k \<longleftrightarrow> False" "covered ((s, e) # ranges) k \<longleftrightarrow> s \<le> k \<and> k < e \<or> covered ranges k"
  by (simp_all add: covered_def)

lemma take_drop_split: "a \<le> b \<Longrightarrow> drop a xs = take (b - a) (drop a xs) @ drop b xs"
  by (metis append_take_drop_id drop_drop le_add_diff_inverse2)

lemma take_drop_split3:
  assumes "a \<le> b" "b \<le> c"
  shows "drop a xs = take (b - a) (drop a xs) @ take (c - b) (drop b xs) @ drop c xs"
proof -
  have "drop a xs = take (b - a) (drop a xs) @ drop b xs"
    by (rule take_drop_split) fact
  also have "drop b xs = take (c - b) (drop b xs) @ drop c xs"
    by (rule take_drop_split) fact
  finally show ?thesis .
qed

lemma upt_split: "i \<le> j \<Longrightarrow> j \<le> k \<Longrightarrow> [i..<k] = [i..<j] @ [j..<k]"
  using upt_add_eq_append [of i j "k - j"] by simp

lemma upt_map_const:
  "(\<And>k. a \<le> k \<Longrightarrow> k < b \<Longrightarrow> P k = c) \<Longrightarrow> map P [a..<b] = replicate (b - a) c"
  by (rule nth_equalityI) auto

lemma emit_segments:
  assumes "sorted ranges" "\<forall>(s, e) \<in> set ranges. s < e \<and> e \<le> length input" "copied \<le> length input"
  shows "\<exists>segs. emit input ranges copied out = out @ visible segs \<and>
    segments_of (drop copied input) segs \<and>
    hidden_flags segs = map (covered ranges) [copied..<length input]"
  using assms
proof (induction input ranges copied out rule: emit.induct)
  case (1 input copied out)
  show ?case
    by (rule exI [of _ "[(False, drop copied input)]"])
      (use 1 in \<open>auto simp: upt_map_const [where c = False]\<close>)
next
  case (2 input s e ranges copied out)
  show ?case
  proof (cases "e \<le> copied")
    case True
    have "map (covered ((s, e) # ranges)) [copied..<length input] = map (covered ranges) [copied..<length input]"
      using True by auto
    then show ?thesis
      using True 2 by auto
  next
    case False
    let ?s = "max s copied"
    let ?n = "length input"
    have e: "s < e" "e \<le> ?n" "?s < e" "copied \<le> ?s"
      using 2(4) False by auto
    obtain segs where segs: "emit input ranges e (out @ take (?s - copied) (drop copied input) @ REDACTED) =
          (out @ take (?s - copied) (drop copied input) @ REDACTED) @ visible segs"
        "segments_of (drop e input) segs" "hidden_flags segs = map (covered ranges) [e..<?n]"
      using 2(2) [OF False refl] 2(3,4) e(2) by auto
    have later: "s \<le> s2" if "(s2, e2) \<in> set ranges" for s2 e2
    proof -
      have "(s, e) \<le> (s2, e2)"
        using bspec [of "set ranges" "\<lambda>x. (s, e) \<le> x", OF _ that] 2(3) unfolding sorted_simps by blast
      then show ?thesis by auto
    qed
    have before: "map (covered ((s, e) # ranges)) [copied..<?s] = replicate (?s - copied) False"
      by (rule upt_map_const) (use later in \<open>fastforce simp: covered_def\<close>)
    have inside: "map (covered ((s, e) # ranges)) [?s..<e] = replicate (e - ?s) True"
      by (rule upt_map_const) auto
    have after: "map (covered ((s, e) # ranges)) [e..<?n] = hidden_flags segs"
      using segs(3) by auto
    have upt: "[copied..<?n] = [copied..<?s] @ [?s..<e] @ [e..<?n]"
      using e upt_split [of copied ?s ?n] upt_split [of ?s e ?n] by simp
    let ?segs = "(False, take (?s - copied) (drop copied input)) # (True, take (e - ?s) (drop ?s input)) # segs"
    have whole: "drop copied input = take (?s - copied) (drop copied input) @ take (e - ?s) (drop ?s input) @ drop e input"
      by (rule take_drop_split3) (use e in auto)
    have len: "length (take (?s - copied) (drop copied input)) = ?s - copied"
      "length (take (e - ?s) (drop ?s input)) = e - ?s"
      using e by auto
    have "emit input ((s, e) # ranges) copied out = out @ visible ?segs"
      using False segs(1) by (simp add: Let_def)
    moreover have "segments_of (drop copied input) ?segs"
    proof (rule segments_of_Cons [OF whole], rule segments_of_Cons [OF refl segs(2)])
      show "take (e - ?s) (drop ?s input) \<noteq> []"
        using len(2) e(3) by (metis length_0_conv less_numeral_extra(3) zero_less_diff)
    qed simp
    moreover have "hidden_flags ?segs = map (covered ((s, e) # ranges)) [copied..<?n]"
      unfolding upt map_append before inside after segment_simps len by simp
    ultimately show ?thesis by blast
  qed
qed

text \<open>
  A position is sensitive if the maximal run of network characters around it parses as an address,
  or the maximal run of identifier characters around it looks like an identity.
\<close>

definition sensitive :: "string \<Rightarrow> nat \<Rightarrow> bool" where
  "sensitive line k \<longleftrightarrow> (\<exists>s e. s \<le> k \<and> k < e \<and>
     (maximal_run is_network_char (as_bytes line) s e \<and> is_address (byte_slice (as_bytes line) s e) \<or>
      maximal_run is_opaque_char (as_bytes line) s e \<and> is_identity (byte_slice (as_bytes line) s e)))"

lemma redact_ranges_set:
  "(s, e) \<in> set (redact_ranges line) \<longleftrightarrow>
     maximal_run is_network_char (as_bytes line) s e \<and> is_address (byte_slice (as_bytes line) s e) \<or>
     maximal_run is_opaque_char (as_bytes line) s e \<and> is_identity (byte_slice (as_bytes line) s e)"
  by (auto simp: redact_ranges_def scan_set run_starts_def)

lemma covered_ranges: "covered (redact_ranges line) = sensitive line"
proof
  fix k
  have "covered (redact_ranges line) k \<longleftrightarrow> (\<exists>s e. (s, e) \<in> set (redact_ranges line) \<and> s \<le> k \<and> k < e)"
    by (auto simp: covered_def)
  then show "covered (redact_ranges line) k = sensitive line k"
    unfolding redact_ranges_set sensitive_def by metis
qed

lemma redact_segments:
  "\<exists>segs. redact_log_line line = visible segs \<and> segments_of line segs \<and>
    hidden_flags segs = map (sensitive line) [0..<length line]"
proof -
  let ?ranges = "sort (redact_ranges line)"
  have "\<forall>(s, e) \<in> set ?ranges. s < e \<and> e \<le> length line"
    by (auto simp: redact_ranges_set maximal_run_def)
  from emit_segments [OF sorted_sort this, where copied = 0 and out = "[]"]
  obtain segs where "emit line ?ranges 0 [] = visible segs" "segments_of line segs"
      "hidden_flags segs = map (covered ?ranges) [0..<length line]"
    by auto
  moreover have "covered ?ranges = sensitive line"
    by (simp add: covered_ranges [symmetric] covered_def [abs_def])
  moreover have "emit line ?ranges 0 [] = redact_log_line line"
    by (simp add: redact_log_line_def)
  ultimately show ?thesis by metis
qed

text \<open>
  C29. Redaction is exact. The line splits into consecutive segments, hidden or not; the output shows
  the others unchanged and one marker for each hidden one; and a position is in a hidden segment
  precisely if the maximal run of network characters around it is an address or the maximal run of
  identifier characters around it is an identity. Nothing else of the line changes.
\<close>

theorem redaction_exact:
  "\<exists>segs. redact_log_line line = visible segs \<and> segments_of line segs \<and>
     hidden_flags segs = map (sensitive line) [0..<length line]"
  by (rule redact_segments)

lemma visible_clean: "True \<notin> set (hidden_flags segs) \<Longrightarrow> segments_of t segs \<Longrightarrow> visible segs = t"
proof (induction segs arbitrary: t)
  case (Cons seg segs)
  obtain hide u where [simp]: "seg = (hide, u)" by (cases seg)
  show ?case
    using Cons by (cases hide; cases u) auto
qed simp

lemma clean_line_unchanged:
  assumes "\<And>k. k < length line \<Longrightarrow> \<not> sensitive line k"
  shows "redact_log_line line = line"
proof -
  obtain segs where "redact_log_line line = visible segs" "segments_of line segs"
      "hidden_flags segs = map (sensitive line) [0..<length line]"
    using redact_segments by blast
  with assms show ?thesis
    by (auto intro!: visible_clean)
qed

section \<open>The loops end\<close>

definition scan_step :: "(u8 \<Rightarrow> bool) \<Rightarrow> (bytes \<Rightarrow> bool) \<Rightarrow> bytes \<Rightarrow> nat \<times> range list \<Rightarrow> nat \<times> range list" where
  "scan_step p hit b = (\<lambda>(i, ranges).
     if p (b ! i) then
       (let e = run_end p b i in (e, if hit (byte_slice b i e) then ranges @ [(i, e)] else ranges))
     else (i + 1, ranges))"

lemma inner_loop:
  "while_option (\<lambda>i. i < length b \<and> p (b ! i)) (\<lambda>i. i + 1) i = Some (run_end p b i)"
  by (induction p b i rule: run_end.induct) (subst while_option_unfold, subst run_end.simps, simp)

lemma outer_loop:
  "i \<le> length b \<Longrightarrow> while_option (\<lambda>(i, ranges). i < length b) (scan_step p hit b) (i, ranges) =
     Some (length b, scan p hit b i ranges)"
proof (induction p hit b i ranges rule: scan.induct)
  case (1 p hit b i ranges)
  show ?case
    using 1 run_end_bounds(2) [of i b p]
    by (subst while_option_unfold, subst scan.simps) (auto simp: scan_step_def Let_def)
qed

text \<open>
  C32. The loops of the redactor end on every input. Run as loops over the index, the inner one stops
  at the end of the run and the outer one stops with the index at the end of the input and the
  ranges that the recursive definitions give.
\<close>

theorem redaction_loops_end:
  "while_option (\<lambda>i. i < length b \<and> p (b ! i)) (\<lambda>i. i + 1) i = Some (run_end p b i) \<and>
   while_option (\<lambda>(i, ranges). i < length b) (scan_step p hit b) (0, ranges) =
     Some (length b, scan p hit b 0 ranges)"
  using inner_loop outer_loop [of 0] by blast

section \<open>IPv4 addresses\<close>

definition ipv4_text :: "u8 list \<Rightarrow> string" where
  "ipv4_text q = map byte_chr (show_ipv4 q)"

lemma as_bytes_ipv4 [simp]: "as_bytes (ipv4_text q) = show_ipv4 q"
  by (simp add: ipv4_text_def)

lemma show_octets_network: "b \<in> set (show_octets i os) \<Longrightarrow> is_network_char b"
proof (induction i os rule: show_octets.induct)
  case (2 i n os)
  have "list_all is_ascii_digit (show_octet (unat n))"
    using show_octet_digits(1) [of "unat n"] unat_u8_bound [of n] by simp
  then show ?case
    using 2 by (auto simp: is_network_char_def is_ascii_hexdigit_def is_ascii_digit_def list_all_iff split: if_splits)
qed simp

lemma show_ipv4_network: "b \<in> set (show_ipv4 q) \<Longrightarrow> is_network_char b"
  by (auto simp: show_ipv4_def intro: show_octets_network)

lemma infix_maximal:
  assumes "\<And>b. b \<in> set run \<Longrightarrow> p b" "run \<noteq> []" "pre = [] \<or> \<not> p (last pre)" "post = [] \<or> \<not> p (hd post)"
  shows "maximal_run p (pre @ run @ post) (length pre) (length pre + length run)"
    "byte_slice (pre @ run @ post) (length pre) (length pre + length run) = run"
  using assms by (auto simp: maximal_run_def byte_slice_def nth_append last_conv_nth hd_conv_nth)

lemma example_ipv4: "ipv4_text [192, 0, 2, 44] = ''192.0.2.44''"
  by code_simp

lemma ipv4_is_address: "length q = 4 \<Longrightarrow> is_address (show_ipv4 q)"
  using parse_ipv4_iff [of "show_ipv4 q" q] by (simp add: is_address_def)

lemma show_ipv4_length: "length q = 4 \<Longrightarrow> length (show_ipv4 q) \<le> 16"
  using show_octets_length [of 0 q] by (simp add: show_ipv4_def)

lemma ipv4_sensitive:
  assumes "length q = 4" "k < length (show_ipv4 q)"
    "pre = [] \<or> \<not> is_network_char (chr_byte (last pre))" "post = [] \<or> \<not> is_network_char (chr_byte (hd post))"
  shows "sensitive (pre @ ipv4_text q @ post) (length pre + k)"
proof -
  let ?b = "as_bytes pre @ show_ipv4 q @ as_bytes post"
  have ne: "show_ipv4 q \<noteq> []"
    using show_ipv4_start [OF assms(1)] by auto
  have ends: "as_bytes pre = [] \<or> \<not> is_network_char (last (as_bytes pre))"
    "as_bytes post = [] \<or> \<not> is_network_char (hd (as_bytes post))"
    using assms(3,4) by (auto simp: as_bytes_def last_map hd_map)
  note run = infix_maximal [where p = is_network_char, OF show_ipv4_network ne ends]
  show ?thesis
    unfolding sensitive_def
    by (rule exI [of _ "length pre"], rule exI [of _ "length pre + length (show_ipv4 q)"])
      (use run ipv4_is_address [OF assms(1)] assms(2) in simp)
qed

text \<open>No identity is hidden in a line shorter than 32 bytes.\<close>

lemma short_no_identity:
  "length b < 32 \<Longrightarrow> maximal_run p b s e \<Longrightarrow> \<not> is_identity (byte_slice b s e)"
  by (auto simp: is_identity_def byte_slice_def maximal_run_def)

lemma whole_run:
  "(\<And>c. c \<in> set b \<Longrightarrow> p c) \<Longrightarrow> maximal_run p b s e \<Longrightarrow> s = 0 \<and> e = length b"
  by (auto simp: maximal_run_def dest: nth_mem)

lemma punctuated_ipv4_kept:
  assumes "length q = 4" "c = CHR '':'' \<or> c = CHR ''.''"
  shows "redact_log_line (ipv4_text q @ [c]) = ipv4_text q @ [c]"
proof (rule clean_line_unchanged)
  fix k
  let ?b = "show_ipv4 q @ [chr_byte c]"
  have net: "is_network_char x" if "x \<in> set ?b" for x
    using that show_ipv4_network assms(2) by (auto simp: is_network_char_def)
  have "\<not> is_address ?b"
    using ipv4_suffix_rejected [OF assms(1), of "[c]"] assms(2) by (simp add: is_address_def)
  then have "\<not> is_address (byte_slice ?b s e)" if "maximal_run is_network_char ?b s e" for s e
    using whole_run [OF net that] by (simp add: byte_slice_def)
  moreover have "length ?b < 32"
    using show_ipv4_length [OF assms(1)] by simp
  ultimately show "\<not> sensitive (ipv4_text q @ [c]) k"
    using short_no_identity by (auto simp: sensitive_def)
qed

lemma emit_all_copied: "\<forall>(s, e) \<in> set ranges. e \<le> copied \<Longrightarrow> emit input ranges copied out = out @ drop copied input"
  by (induction input ranges copied out rule: emit.induct) auto

lemma sole_range_redacted:
  assumes "set (redact_ranges line) = {(0, length line)}" "line \<noteq> []"
  shows "redact_log_line line = REDACTED"
proof -
  have all: "set (sort (redact_ranges line)) = {(0, length line)}"
    using assms(1) by simp
  then obtain r rs where sorted: "sort (redact_ranges line) = r # rs"
    by (cases "sort (redact_ranges line)") auto
  then have "r = (0, length line)" "\<forall>(s, e) \<in> set rs. e \<le> length line"
    using all by auto
  then show ?thesis
    using assms sorted by (auto simp: redact_log_line_def emit_all_copied)
qed

lemma bare_ipv4_redacted:
  assumes "length q = 4"
  shows "redact_log_line (ipv4_text q) = REDACTED"
proof (rule sole_range_redacted)
  let ?b = "show_ipv4 q"
  have len: "length (ipv4_text q) = length ?b"
    by (simp add: ipv4_text_def)
  have ne: "?b \<noteq> []"
    using show_ipv4_start [OF assms] by auto
  then show "ipv4_text q \<noteq> []"
    by (simp add: ipv4_text_def)
  have "maximal_run is_network_char ?b 0 (length ?b)" "byte_slice ?b 0 (length ?b) = ?b"
    using infix_maximal [of ?b is_network_char "[]" "[]"] show_ipv4_network ne by simp_all
  then have hit: "(0, length ?b) \<in> set (redact_ranges (ipv4_text q))"
    using ipv4_is_address [OF assms] by (simp add: redact_ranges_set)
  have only: "(s, e) = (0, length ?b)" if "(s, e) \<in> set (redact_ranges (ipv4_text q))" for s e
    using that whole_run [OF show_ipv4_network] short_no_identity [of ?b] show_ipv4_length [OF assms]
    by (auto simp: redact_ranges_set)
  show "set (redact_ranges (ipv4_text q)) = {(0, length (ipv4_text q))}"
    unfolding len using hit only by fastforce
qed

section \<open>Identities\<close>

text \<open>A stretch of one class of bytes lies in a maximal run.\<close>

lemma maximal_run_exists:
  assumes "a < e" "e \<le> length b" "\<And>k. a \<le> k \<Longrightarrow> k < e \<Longrightarrow> p (b ! k)"
  obtains s t where "maximal_run p b s t" "s \<le> a" "e \<le> t"
proof -
  define s where "s = (LEAST s. s \<le> a \<and> (\<forall>k. s \<le> k \<and> k < a \<longrightarrow> p (b ! k)))"
  have s: "s \<le> a \<and> (\<forall>k. s \<le> k \<and> k < a \<longrightarrow> p (b ! k))"
    unfolding s_def by (rule LeastI [of _ a]) auto
  have stop: "\<not> p (b ! (s - 1))" if "0 < s"
  proof
    assume "p (b ! (s - 1))"
    have "p (b ! k)" if "s - 1 \<le> k" "k < a" for k
    proof (cases "k = s - 1")
      case False
      then have "s \<le> k"
        using that(1) by linarith
      then show ?thesis
        using s that(2) by blast
    qed (use \<open>p (b ! (s - 1))\<close> in simp)
    then have "s - 1 \<le> a \<and> (\<forall>k. s - 1 \<le> k \<and> k < a \<longrightarrow> p (b ! k))"
      using s by auto
    then have "s \<le> s - 1"
      unfolding s_def by (rule Least_le)
    then show False using that by simp
  qed
  let ?t = "run_end p b a"
  note t = run_end_bounds [where p = p and b = b and i = a]
  have "e \<le> ?t"
    using t(1,4) assms by (metis leI less_le_trans)
  moreover have "p (b ! k)" if "s \<le> k" "k < ?t" for k
    using s t(3) [of k] that by (cases "k < a") auto
  then have "maximal_run p b s ?t"
    using s stop t(2,4) calculation assms(1,2) by (auto simp: maximal_run_def)
  ultimately show thesis
    using that s by blast
qed

lemma byte_slice_nth: "s \<le> k \<Longrightarrow> k < t \<Longrightarrow> t \<le> length b \<Longrightarrow> byte_slice b s t ! (k - s) = b ! k"
  by (simp add: byte_slice_def)

lemma byte_slice_length: "t \<le> length b \<Longrightarrow> length (byte_slice b s t) = t - s"
  by (simp add: byte_slice_def)

lemma identity_sensitive:
  assumes "\<And>c. c \<in> set run \<Longrightarrow> is_opaque_char (chr_byte c)" "32 \<le> length run" "d \<in> set run"
    "is_ascii_digit (chr_byte d)" "k < length run"
  shows "sensitive (pre @ run @ post) (length pre + k)"
proof -
  let ?b = "as_bytes (pre @ run @ post)"
  have nth: "?b ! (length pre + j) = chr_byte (run ! j)" if "j < length run" for j
    using that by (simp add: as_bytes_def nth_append)
  have opaque: "is_opaque_char (?b ! j)" if "length pre \<le> j" "j < length pre + length run" for j
    using nth [of "j - length pre"] assms(1) [of "run ! (j - length pre)"] that by simp
  obtain s t where run: "maximal_run is_opaque_char ?b s t" "s \<le> length pre" "length pre + length run \<le> t"
    by (rule maximal_run_exists [where p = is_opaque_char and b = ?b, OF _ _ opaque]) (use assms(2) in auto)
  obtain j where j: "j < length run" "run ! j = d"
    using assms(3) by (metis in_set_conv_nth)
  have "byte_slice ?b s t ! (length pre + j - s) = ?b ! (length pre + j)"
    by (rule byte_slice_nth) (use run j(1) in \<open>simp_all add: maximal_run_def\<close>)
  moreover have "length (byte_slice ?b s t) = t - s"
    by (rule byte_slice_length) (use run in \<open>simp add: maximal_run_def\<close>)
  ultimately have "byte_slice ?b s t ! (length pre + j - s) = ?b ! (length pre + j)"
    "length pre + j - s < length (byte_slice ?b s t)" "32 \<le> length (byte_slice ?b s t)"
    using run(2,3) j(1) assms(2) by simp_all
  then have "is_identity (byte_slice ?b s t)"
    using assms(4) j nth unfolding is_identity_def list_ex_iff by (metis nth_mem)
  then show ?thesis
    unfolding sensitive_def using run assms(5) by (intro exI [of _ s] exI [of _ t]) auto
qed

text \<open>
  An identity is hidden wherever it stands. Thirty-two or more identifier characters in a row,
  a digit among them, are inside a hidden segment whatever comes before and after, also when that
  prolongs the run.
\<close>

lemma identity_hidden_anywhere:
  assumes "\<forall>c \<in> set run. is_opaque_char (chr_byte c)" "32 \<le> length run"
    "\<exists>d \<in> set run. is_ascii_digit (chr_byte d)" "k < length run"
  shows "sensitive (pre @ run @ post) (length pre + k)"
  using assms identity_sensitive by blast

lemma identity_hidden_anywhere_witness:
  "sensitive (''node='' @ replicate 40 (CHR ''7'') @ '' up'') (length ''node='' + 3)"
  by (rule identity_hidden_anywhere) (auto simp: is_opaque_char_def is_ascii_alphanumeric_def is_ascii_digit_def chr_byte_def)

section \<open>Addresses in a line\<close>

text \<open>
  An IPv4 address in a line is hidden wherever the bytes around it are not network characters.
\<close>

lemma ipv4_hidden:
  assumes "length q = 4" "k < length (show_ipv4 q)"
    "pre = [] \<or> \<not> is_network_char (chr_byte (last pre))" "post = [] \<or> \<not> is_network_char (chr_byte (hd post))"
  shows "sensitive (pre @ ipv4_text q @ post) (length pre + k)"
  using assms by (rule ipv4_sensitive)

text \<open>
  C33. Punctuation defeats the redaction. An IPv4 address alone becomes the marker; followed by a
  colon or a full stop, as in an error message, it is printed in the clear, since the punctuation
  belongs to the candidate and the candidate no longer parses.
\<close>

theorem punctuation_defeats_redaction:
  assumes "length q = 4" "c = CHR '':'' \<or> c = CHR ''.''"
  shows "redact_log_line (ipv4_text q) = REDACTED \<and>
    redact_log_line (ipv4_text q @ [c]) = ipv4_text q @ [c]"
  using bare_ipv4_redacted [OF assms(1)] punctuated_ipv4_kept [OF assms] by blast

theorem punctuation_defeats_redaction_witness:
  "redact_log_line ''192.0.2.44'' = REDACTED \<and> redact_log_line ''192.0.2.44:'' = ''192.0.2.44:''"
  using punctuation_defeats_redaction [of "[192, 0, 2, 44]" "CHR '':''"]
  unfolding example_ipv4 by simp

end
