(* ===== verification/Telemetry.thy ===== *)
theory Telemetry
  imports Log_Redaction Hash_Table
begin

text \<open>
  \<open>rust/src/telemetry.rs\<close>: the log-safe short identifiers, the environment gate of the exporters,
  the trace context carried in and out, and the processor that redacts exported log bodies. The
  OpenTelemetry crates are parameters: the builders of the two exporters, the global propagator and
  the processor that is wrapped.
\<close>

section \<open>Short identifiers\<close>

text \<open>The first five bytes of an identifier in hex.\<close>

definition short_hex :: "bytes \<Rightarrow> string" where
  "short_hex bs = foldl (\<lambda>out b. out @ fmt_02x b) [] (take 5 bs)"

definition instance_id :: "endpoint_id \<Rightarrow> string" where
  "instance_id endpoint = short_hex endpoint"

section \<open>The exporters\<close>

definition trim_end_matches :: "char \<Rightarrow> string \<Rightarrow> string" where
  [std_defs]: "trim_end_matches c s = rev (dropWhile (\<lambda>x. x = c) (rev s))"

definition otlp_endpoint :: "(string \<Rightarrow> string option) \<Rightarrow> string option" where
  "otlp_endpoint env =
     option_filter (\<lambda>e. e \<noteq> [])
       (map_option (\<lambda>e. trim_end_matches (CHR ''/'') (trim e)) (env ''OTEL_EXPORTER_OTLP_ENDPOINT''))"

definition otlp_service_name :: "(string \<Rightarrow> string option) \<Rightarrow> string" where
  "otlp_service_name env =
     unwrap_or ''trail-stash'' (option_filter (\<lambda>s. trim s \<noteq> []) (env ''OTEL_SERVICE_NAME''))"

record resource =
  service_name :: string
  service_instance :: string

record ('t, 'l) otlp_api =
  span_exporter :: "string \<Rightarrow> (string, 't) result"
  log_exporter :: "string \<Rightarrow> (string, 'l) result"

text \<open>The tracer and the logger provider: an exporter and the resource it reports for.\<close>

type_synonym ('t, 'l) otlp_providers = "('t \<times> resource) \<times> ('l \<times> resource)"

datatype ('t, 'l) otlp_layer = TraceLayer "'t \<times> resource" | LogBridge "'l \<times> resource"

text \<open>
  The process-wide state: whether the W3C propagator has been installed, the providers kept for
  the shutdown, and what was printed to the error stream.
\<close>

record ('t, 'l) telemetry =
  propagator :: bool
  providers :: "('t, 'l) otlp_providers option"
  stderr :: "string list"

definition otel_layers :: "('t, 'l) otlp_api \<Rightarrow> (string \<Rightarrow> string option) \<Rightarrow> string \<Rightarrow> ('t, 'l) telemetry \<Rightarrow>
    ('t, 'l) otlp_layer list option \<times> ('t, 'l) telemetry" where
  "otel_layers api env inst tel =
     (case otlp_endpoint env of
        None \<Rightarrow> (None, tel)
      | Some endpoint \<Rightarrow>
          (let name = otlp_service_name env;
               tel = tel\<lparr>propagator := True\<rparr>;
               res = \<lparr>service_name = name, service_instance = inst\<rparr>
           in (case span_exporter api (endpoint @ ''/v1/traces'') of
                 Err e \<Rightarrow> (None, tel\<lparr>stderr := stderr tel @ [''telemetry: OTLP span exporter failed to build: '' @ e]\<rparr>)
               | Ok spans \<Rightarrow>
                   (case log_exporter api (endpoint @ ''/v1/logs'') of
                      Err e \<Rightarrow> (None, tel\<lparr>stderr := stderr tel @ [''telemetry: OTLP log exporter failed to build: '' @ e]\<rparr>)
                    | Ok logs \<Rightarrow>
                        (Some [TraceLayer (spans, res), LogBridge (logs, res)],
                         tel\<lparr>providers := Some ((spans, res), (logs, res))\<rparr>)))))"

text \<open>\<open>shutdown\<close>: what is flushed and closed, and the state it leaves.\<close>

definition telemetry_shutdown :: "('t, 'l) telemetry \<Rightarrow> ('t, 'l) otlp_layer list \<times> ('t, 'l) telemetry" where
  "telemetry_shutdown tel =
     ((case providers tel of None \<Rightarrow> [] | Some (traces, logs) \<Rightarrow> [TraceLayer traces, LogBridge logs]),
      tel\<lparr>providers := None\<rparr>)"

section \<open>Trace context\<close>

type_synonym carrier = "(string, string) hmap"

definition traceparent_of :: "('cx \<Rightarrow> carrier \<Rightarrow> carrier) \<Rightarrow> 'cx \<Rightarrow> string option" where
  "traceparent_of inject cx = option_filter (\<lambda>tp. tp \<noteq> []) (hm_get (inject cx []) ''traceparent'')"

text \<open>The carrier of a request; \<open>header\<close> gives a header that is present and readable as text.\<close>

definition carrier_of :: "(string \<Rightarrow> string option) \<Rightarrow> carrier" where
  "carrier_of header =
     fold (\<lambda>key c. case header key of None \<Rightarrow> c | Some v \<Rightarrow> hm_insert key v c)
       [''traceparent'', ''tracestate''] []"

definition parent_of :: "(carrier \<Rightarrow> 'cx) \<Rightarrow> (string \<Rightarrow> string option) \<Rightarrow> 'cx option" where
  "parent_of extract header =
     (let c = carrier_of header in if hm_get c ''traceparent'' \<noteq> None then Some (extract c) else None)"

section \<open>Exported logs\<close>

datatype 'v any_value = StringValue string | OtherValue 'v

record 'v log_record =
  log_body :: "'v any_value option"
  log_attributes :: "(string \<times> 'v any_value) list"

text \<open>\<open>RedactingLogProcessor::emit\<close> over the processor it wraps.\<close>

definition redact_record :: "'v log_record \<Rightarrow> 'v log_record" where
  "redact_record r =
     (case log_body r of
        Some (StringValue s) \<Rightarrow>
          (let redacted = redact_log_line s
           in if redacted \<noteq> s then r\<lparr>log_body := Some (StringValue redacted)\<rparr> else r)
      | _ \<Rightarrow> r)"

definition processor_emit :: "('v log_record \<Rightarrow> 'p \<Rightarrow> 'p) \<Rightarrow> 'v log_record \<Rightarrow> 'p \<Rightarrow> 'p" where
  "processor_emit inner r p = inner (redact_record r) p"

section \<open>Lemmas\<close>

lemma short_hex_fmt: "short_hex bs = fmt_hex (take 5 bs)"
proof -
  have "foldl (\<lambda>out b. out @ fmt_02x b) acc xs = acc @ fmt_hex xs" for acc xs
    by (induction xs arbitrary: acc) simp_all
  then show ?thesis by (simp add: short_hex_def)
qed

lemma trim_end_matches_last: "trim_end_matches c s = [] \<or> last (trim_end_matches c s) \<noteq> c"
proof (cases "dropWhile (\<lambda>x. x = c) (rev s)")
  case (Cons a t)
  then have "a \<noteq> c"
    using hd_dropWhile [of "\<lambda>x. x = c" "rev s"] by simp
  then show ?thesis by (simp add: trim_end_matches_def Cons)
qed (simp add: trim_end_matches_def)

lemma otlp_endpoint_Some:
  "otlp_endpoint env = Some e \<Longrightarrow> e \<noteq> [] \<and> last e \<noteq> CHR ''/''"
  using trim_end_matches_last [of "CHR ''/''"] by (auto simp: otlp_endpoint_def)

lemma otel_layers_dormant:
  "otlp_endpoint env = None \<Longrightarrow> otel_layers api env inst tel = (None, tel)"
  by (simp add: otel_layers_def)

lemma otel_layers_providers:
  "fst (otel_layers api env inst tel) = Some ls \<Longrightarrow>
   \<exists>traces logs. ls = [TraceLayer traces, LogBridge logs] \<and>
     fst (telemetry_shutdown (snd (otel_layers api env inst tel))) = ls"
  by (auto simp: otel_layers_def telemetry_shutdown_def Let_def split: option.splits sum.splits)

lemma shutdown_again: "fst (telemetry_shutdown (snd (telemetry_shutdown tel))) = []"
  by (simp add: telemetry_shutdown_def)

lemma redact_record_fields:
  "log_attributes (redact_record r) = log_attributes r"
  "log_body (redact_record r) = map_option (\<lambda>v. case v of
     StringValue s \<Rightarrow> StringValue (redact_log_line s) | OtherValue w \<Rightarrow> OtherValue w) (log_body r)"
  by (auto simp: redact_record_def Let_def split: option.split any_value.split)

lemma parent_of_eq:
  "parent_of extract header =
     (case header ''traceparent'' of
        None \<Rightarrow> None
      | Some tp \<Rightarrow> Some (extract (carrier_of header)))"
  by (auto simp: parent_of_def carrier_of_def Let_def split: option.split)

section \<open>Redaction of identifiers\<close>

lemma hex_digit_hex: "n < 16 \<Longrightarrow> is_ascii_hexdigit (chr_byte (hex_digit n))"
  by (erule nibble_cases) (simp_all add: chr_byte_hex_digit is_ascii_hexdigit_def)

lemma fmt_02x_hex: "c \<in> set (fmt_02x b) \<Longrightarrow> is_ascii_hexdigit (chr_byte c)"
proof -
  assume "c \<in> set (fmt_02x b)"
  moreover have "unat b div 16 < 16" "unat b mod 16 < 16"
    using unat_u8_bound [of b] by auto
  ultimately show ?thesis
    by (auto simp: fmt_02x_def hex_digit_hex)
qed

lemma hex_bytes: "b \<in> set (as_bytes (fmt_hex bs)) \<Longrightarrow> is_ascii_hexdigit b"
  by (induction bs) (auto simp: as_bytes_def fmt_02x_hex)

lemma hex_chars: "is_ascii_hexdigit b \<Longrightarrow> is_network_char b \<and> is_opaque_char b"
  by (auto simp: is_network_char_def is_opaque_char_def is_ascii_hexdigit_def is_ascii_alphanumeric_def
      word_le_nat_alt)

lemma full_hex_redacted:
  assumes "16 \<le> length bs"
  shows "redact_log_line (fmt_hex bs) = REDACTED"
proof (rule sole_range_redacted)
  let ?b = "as_bytes (fmt_hex bs)"
  have len: "length (fmt_hex bs) = length ?b" "32 \<le> length ?b"
    using assms by simp_all
  then show ne: "fmt_hex bs \<noteq> []"
    by auto
  have net: "is_network_char b" "is_opaque_char b" if "b \<in> set ?b" for b
    using hex_bytes hex_chars that by blast+
  have "maximal_run is_opaque_char ?b 0 (length ?b)" "byte_slice ?b 0 (length ?b) = ?b"
    using infix_maximal [of ?b is_opaque_char "[]" "[]"] net ne by simp_all
  moreover have "is_identity ?b"
    using len(2) hex_bytes by (auto simp: is_identity_def list_all_iff)
  ultimately have hit: "(0, length ?b) \<in> set (redact_ranges (fmt_hex bs))"
    by (simp add: redact_ranges_set)
  have only: "(s, e) = (0, length ?b)" if "(s, e) \<in> set (redact_ranges (fmt_hex bs))" for s e
    using that whole_run [of ?b is_network_char s e] whole_run [of ?b is_opaque_char s e] net
    by (auto simp: redact_ranges_set)
  show "set (redact_ranges (fmt_hex bs)) = {(0, length (fmt_hex bs))}"
    unfolding len(1) using hit only by fastforce
qed

lemma count_list_take_drop: "count_list (byte_slice b s e) c \<le> count_list b c"
proof -
  have "count_list b c = count_list (take s b) c + (count_list (byte_slice b s e) c + count_list (drop (e - s) (drop s b)) c)"
    unfolding byte_slice_def by (metis append_take_drop_id count_list_append)
  then show ?thesis by simp
qed

text \<open>A short line without a colon and with fewer than three full stops holds nothing to hide.\<close>

lemma quiet_line:
  assumes "length line < 32" "CHR '':'' \<notin> set line" "count_list line (CHR ''.'') < 3"
  shows "redact_log_line line = line"
proof (rule clean_line_unchanged)
  fix k
  have "\<not> is_address (byte_slice (as_bytes line) s e)" for s e
  proof -
    have "set (byte_slice (as_bytes line) s e) \<subseteq> chr_byte ` set line"
      by (auto simp: byte_slice_def as_bytes_def dest!: in_set_takeD in_set_dropD)
    then have "chr_byte (CHR '':'') \<notin> set (byte_slice (as_bytes line) s e)"
      using assms(2) by auto
    moreover have dots: "count_list (as_bytes line) (chr_byte (CHR ''.'')) = count_list line (CHR ''.'')"
      by (induction line) (auto simp: as_bytes_def)
    then have "count_list (byte_slice (as_bytes line) s e) (chr_byte (CHR ''.'')) < 3"
      using assms(3) count_list_take_drop [of "as_bytes line" s e "chr_byte (CHR ''.'')"] by simp
    ultimately show ?thesis
      using not_address [of "byte_slice (as_bytes line) s e"] by (simp add: is_address_def)
  qed
  then show "\<not> sensitive line k"
    using short_no_identity [of "as_bytes line"] assms(1) by (auto simp: sensitive_def)
qed

section \<open>Properties\<close>

lemma fmt_hex_quiet: "c = CHR '':'' \<or> c = CHR ''.'' \<Longrightarrow> c \<notin> set (fmt_hex bs)"
proof
  assume "c = CHR '':'' \<or> c = CHR ''.''" "c \<in> set (fmt_hex bs)"
  then have "is_ascii_hexdigit (chr_byte c)"
    by (auto intro!: hex_bytes [where bs = bs] simp: as_bytes_def)
  then show False
    using \<open>c = CHR '':'' \<or> c = CHR ''.''\<close> by (auto simp: is_ascii_hexdigit_def chr_byte_def)
qed

text \<open>
  The short identifiers of the spans and logs pass the redactor as they are, and the full ones
  do not. A field whose name holds no colon and at most two full stops keeps its short identifier,
  while the hex rendering of an identifier of sixteen bytes or more is replaced as a whole.
\<close>

lemma short_ids_survive:
  assumes "length name \<le> 20" "CHR '':'' \<notin> set name" "count_list name (CHR ''.'') < 3" "16 \<le> length bs"
  shows "redact_log_line (name @ ''='' @ short_hex bs) = name @ ''='' @ short_hex bs \<and>
    redact_log_line (fmt_hex bs) = REDACTED"
proof -
  have "count_list (fmt_hex (take 5 bs)) (CHR ''.'') = 0"
    by (simp add: count_list_0_iff fmt_hex_quiet)
  then have "redact_log_line (name @ ''='' @ short_hex bs) = name @ ''='' @ short_hex bs"
    using assms by (intro quiet_line) (auto simp: short_hex_fmt fmt_hex_quiet)
  then show ?thesis
    using full_hex_redacted [OF assms(4)] by blast
qed

definition collector_env :: "string \<Rightarrow> string option" where
  "collector_env k = (if k = ''OTEL_EXPORTER_OTLP_ENDPOINT'' then Some '' http://c:4318/ '' else None)"

definition url_exporters :: "(string, string) otlp_api" where
  "url_exporters = \<lparr>span_exporter = Ok, log_exporter = Ok\<rparr>"

definition quiet_telemetry :: "(string, string) telemetry" where
  "quiet_telemetry = \<lparr>propagator = False, providers = None, stderr = []\<rparr>"

lemma collector_endpoint: "otlp_endpoint collector_env = Some ''http://c:4318''"
  by code_simp

lemma unset_endpoint: "otlp_endpoint (\<lambda>_. None) = None"
  by (simp add: otlp_endpoint_def)

lemma collector_name: "otlp_service_name collector_env = ''trail-stash''"
  by code_simp

lemma collector_layers:
  "otel_layers url_exporters collector_env inst quiet_telemetry =
     (let res = \<lparr>service_name = ''trail-stash'', service_instance = inst\<rparr>
      in (Some [TraceLayer (''http://c:4318/v1/traces'', res), LogBridge (''http://c:4318/v1/logs'', res)],
        \<lparr>propagator = True,
         providers = Some ((''http://c:4318/v1/traces'', res), (''http://c:4318/v1/logs'', res)), stderr = []\<rparr>))"
  by (simp add: otel_layers_def collector_endpoint collector_name url_exporters_def quiet_telemetry_def Let_def)

text \<open>
  Telemetry starts only when it is configured. Without a collector address, or with a blank
  one, nothing is installed and nothing changes; otherwise the exporters are built for the two
  signal paths below an address that does not end in a slash, and whatever started is what the
  shutdown flushes, once.
\<close>

lemma telemetry_gate:
  "(otlp_endpoint env = None \<longrightarrow> otel_layers api env inst tel = (None, tel)) \<and>
   (\<forall>e. otlp_endpoint env = Some e \<longrightarrow> e \<noteq> [] \<and> last e \<noteq> CHR ''/'') \<and>
   (\<forall>ls. fst (otel_layers api env inst tel) = Some ls \<longrightarrow>
      fst (telemetry_shutdown (snd (otel_layers api env inst tel))) = ls \<and>
      fst (telemetry_shutdown (snd (telemetry_shutdown (snd (otel_layers api env inst tel))))) = []) \<and>
   (otlp_endpoint env \<noteq> None \<longrightarrow> propagator (snd (otel_layers api env inst tel)))"
proof (intro conjI allI impI)
  fix ls
  assume "fst (otel_layers api env inst tel) = Some ls"
  then show "fst (telemetry_shutdown (snd (otel_layers api env inst tel))) = ls"
    using otel_layers_providers by blast
next
  assume "otlp_endpoint env \<noteq> None"
  then show "propagator (snd (otel_layers api env inst tel))"
    by (auto simp: otel_layers_def Let_def split: sum.split)
qed (auto simp: otel_layers_dormant shutdown_again dest: otlp_endpoint_Some)

end
