(* ===== verification/Node_Boot.thy ===== *)
theory Node_Boot
  imports Node_System Telemetry Config
begin

text \<open>
  \<open>rust/src/node.rs\<close> around the state machine: booting the node on its endpoint, the loop that runs
  the sweep, and the server with the request span of \<open>rust/src/telemetry.rs\<close> around its routes. The
  endpoint, the relay map, the docs engine and the listener are parameters.
\<close>

section \<open>Booting\<close>

definition GC_INTERVAL_SECS :: u64 where
  "GC_INTERVAL_SECS = 300"

text \<open>
  The clock: nanoseconds since the epoch, negative before it. The milliseconds are cut to 64 bits.
\<close>

definition now_ms :: "int \<Rightarrow> u64" where
  "now_ms t = (if t < 0 then 0 else of_int (t div 1000000))"

record ('m, 'e, 'b) iroh_api =
  relay_map :: "string list \<Rightarrow> (string, 'm) result"
  relay_auth :: "'m \<Rightarrow> string \<Rightarrow> 'm"
  bind_endpoint :: "bytes \<Rightarrow> 'm option \<Rightarrow> (string, 'e) result"
  spawn_docs :: "'e \<Rightarrow> (string, unit) result"
  mem_store :: 'b
  endpoint_ticket :: "'e \<Rightarrow> string"

definition relay_mode :: "('m, 'e, 'b) iroh_api \<Rightarrow> string list \<Rightarrow> string option \<Rightarrow>
    (string, 'm option) result" where
  "relay_mode iroh urls tok =
     (if urls = [] then Ok None
      else (case relay_map iroh urls of
              Err e \<Rightarrow> Err (''invalid custom relay URL: '' @ e)
            | Ok m \<Rightarrow> Ok (Some (case tok of Some t \<Rightarrow> relay_auth iroh m t | None \<Rightarrow> m))))"

definition spawn_node :: "('m, 'e, 'b) iroh_api \<Rightarrow> bytes \<Rightarrow> retention_policy \<Rightarrow> string list \<Rightarrow> string option \<Rightarrow>
    (string, 'e \<times> ('d, 'b) stash_node) result" where
  "spawn_node iroh secret policy urls tok =
     (case relay_mode iroh urls tok of
        Err e \<Rightarrow> Err e
      | Ok relays \<Rightarrow>
          (case bind_endpoint iroh secret relays of
             Err e \<Rightarrow> Err (''bind endpoint: '' @ e)
           | Ok endpoint \<Rightarrow>
               (case spawn_docs iroh endpoint of
                  Err e \<Rightarrow> Err (''spawn docs: '' @ e)
                | Ok _ \<Rightarrow> Ok (endpoint, spawn policy (mem_store iroh)))))"

definition node_ticket :: "('m, 'e, 'b) iroh_api \<Rightarrow> 'e \<Rightarrow> string" where
  "node_ticket iroh endpoint = endpoint_ticket iroh endpoint"

section \<open>The prune loop\<close>

text \<open>The period in seconds; the product wraps as in a release build.\<close>

definition prune_period :: "u64 \<Rightarrow> u64" where
  "prune_period interval_min = interval_min * 60"

definition prune_tick :: "'d docs_query \<Rightarrow> (content_hash list \<Rightarrow> content_hash list) \<Rightarrow> u64 \<Rightarrow>
    ('d, 'b) stash_node \<Rightarrow> string list \<times> ('d, 'b) stash_node" where
  "prune_tick get_many order now node =
     (let (result, node1) = prune_once get_many order now node
      in (case result of
            Ok counts \<Rightarrow>
              if 0 < released counts
              then [''stash: released content for '' @ fmt_dec (released counts) @ '' releasable entries'']
              else []
          | Err e \<Rightarrow> [''stash: prune sweep error: '' @ e], node1))"

text \<open>The ticks at the given times.\<close>

fun run_prune_loop :: "'d docs_query \<Rightarrow> (content_hash list \<Rightarrow> content_hash list) \<Rightarrow> u64 list \<Rightarrow>
    ('d, 'b) stash_node \<Rightarrow> string list \<times> ('d, 'b) stash_node" where
  "run_prune_loop get_many order [] node = ([], node)"
| "run_prune_loop get_many order (now # ticks) node =
     (let (log, node1) = prune_tick get_many order now node;
          (logs, node2) = run_prune_loop get_many order ticks node1
      in (log @ logs, node2))"

section \<open>The server\<close>

record 'cx http_span =
  span_method :: http_method
  span_path :: "string list"
  span_parent :: "'cx option"
  span_code :: "nat option"

type_synonym ('d, 'b) app = "request \<Rightarrow> ('d, 'b) stash_node \<Rightarrow> response \<times> ('d, 'b) stash_node"

definition http_request_span :: "(carrier \<Rightarrow> 'cx) \<Rightarrow> (request \<Rightarrow> string \<Rightarrow> string option) \<Rightarrow> ('d, 'b) app \<Rightarrow>
    request \<Rightarrow> ('d, 'b) stash_node \<Rightarrow> 'cx http_span \<times> response \<times> ('d, 'b) stash_node" where
  "http_request_span extract header next req node =
     (let span = \<lparr>span_method = http_method req, span_path = path req,
                  span_parent = parent_of extract (header req), span_code = None\<rparr>;
          (resp, node1) = next req node
      in (span\<lparr>span_code := Some (status resp)\<rparr>, resp, node1))"

text \<open>Requests served one after the other, without and with the span layer.\<close>

fun serve_requests :: "('d, 'b) app \<Rightarrow> request list \<Rightarrow> ('d, 'b) stash_node \<Rightarrow>
    response list \<times> ('d, 'b) stash_node" where
  "serve_requests app [] node = ([], node)"
| "serve_requests app (req # reqs) node =
     (let (resp, node1) = app req node; (resps, node2) = serve_requests app reqs node1
      in (resp # resps, node2))"

fun serve_traced :: "(carrier \<Rightarrow> 'cx) \<Rightarrow> (request \<Rightarrow> string \<Rightarrow> string option) \<Rightarrow> ('d, 'b) app \<Rightarrow>
    request list \<Rightarrow> ('d, 'b) stash_node \<Rightarrow> 'cx http_span list \<times> response list \<times> ('d, 'b) stash_node" where
  "serve_traced extract header app [] node = ([], [], node)"
| "serve_traced extract header app (req # reqs) node =
     (let (span, resp, node1) = http_request_span extract header app req node;
          (spans, resps, node2) = serve_traced extract header app reqs node1
      in (span # spans, resp # resps, node2))"

definition serve_control_api :: "(u16 \<Rightarrow> (string, unit) result) \<Rightarrow> ('d, 'b) env \<Rightarrow> u16 \<Rightarrow> string option \<Rightarrow>
    request list \<Rightarrow> ('d, 'b) stash_node \<Rightarrow> (string, string \<times> response list) result \<times> ('d, 'b) stash_node" where
  "serve_control_api listen env portno secret reqs node =
     (case listen portno of
        Err e \<Rightarrow> (Err e, node)
      | Ok _ \<Rightarrow>
          (let (resps, node1) =
             serve_requests (control_api (env_http env) (env_api env) (env_docs env) secret) reqs node
           in (Ok (''stash: control API listening on :'' @ fmt_dec (unat portno), resps), node1)))"

section \<open>Lemmas\<close>

lemma spawn_node_Ok:
  "spawn_node iroh secret policy urls tok = Ok (endpoint, node) \<longleftrightarrow>
     (\<exists>relays. relay_mode iroh urls tok = Ok relays \<and> bind_endpoint iroh secret relays = Ok endpoint \<and>
        spawn_docs iroh endpoint = Ok () \<and> node = spawn policy (mem_store iroh))"
  by (auto simp: spawn_node_def split: sum.splits)

lemma unat_now_ms: "0 \<le> t \<Longrightarrow> t < 2 ^ 64 * 1000000 \<Longrightarrow> int (unat (now_ms t)) = t div 1000000"
proof -
  assume t: "0 \<le> t" "t < 2 ^ 64 * 1000000"
  then have "t div 1000000 < 2 ^ 64" "0 \<le> t div 1000000"
    by (auto simp: div_less_iff_less_mult)
  then show ?thesis
    using t(1) by (simp add: now_ms_def unsigned_of_int take_bit_int_eq_self nat_less_iff)
qed

lemma prune_period_bounds:
  assumes "1 \<le> unat m" "unat m \<le> 1440"
  shows "unat (prune_period m) = unat m * 60"
  using assms by (simp add: prune_period_def unat_word_ariths)

lemma serve_requests_run:
  "\<exists>ls. run env ls node (snd (serve_requests (control_api (env_http env) (env_api env) (env_docs env) (env_psk env)) reqs node)) \<and>
     ls = map Http reqs"
proof (induction reqs arbitrary: node)
  case Nil
  show ?case by (simp add: run.start)
next
  case (Cons req reqs)
  let ?app = "control_api (env_http env) (env_api env) (env_docs env) (env_psk env)"
  show ?case
    using Cons.IH [of "snd (?app req node)"] step.http [of env req node]
    by (auto simp: split_beta Let_def intro: run.more)
qed

lemma serve_traced_eq:
  "snd (serve_traced extract header app reqs node) = serve_requests app reqs node \<and>
   map (\<lambda>s. (span_method s, span_path s, span_parent s)) (fst (serve_traced extract header app reqs node)) =
     map (\<lambda>r. (http_method r, path r, parent_of extract (header r))) reqs \<and>
   map span_code (fst (serve_traced extract header app reqs node)) =
     map (Some \<circ> status) (fst (serve_requests app reqs node))"
  by (induction reqs arbitrary: node) (simp_all add: http_request_span_def split_beta Let_def)

section \<open>Properties\<close>

text \<open>
  Tracing a server does not change it. For every sequence of requests the routes answer and
  leave the node just as they do without the span layer; there is one span for each request, the
  refused ones included, with its method, path and answered status, and its parent is the caller's
  trace context exactly if the request carries a \<open>traceparent\<close>.
\<close>

lemma tracing_is_transparent:
  "snd (serve_traced extract header app reqs node) = serve_requests app reqs node \<and>
   map (\<lambda>s. (span_method s, span_path s, span_parent s)) (fst (serve_traced extract header app reqs node)) =
     map (\<lambda>r. (http_method r, path r, case header r ''traceparent'' of
        None \<Rightarrow> None | Some tp \<Rightarrow> Some (extract (carrier_of (header r))))) reqs \<and>
   map span_code (fst (serve_traced extract header app reqs node)) =
     map (Some \<circ> status) (fst (serve_requests app reqs node))"
  using serve_traced_eq [of "extract" "header" app reqs node] unfolding parent_of_eq by blast

end
