(* ===== verification/Push_Send.thy ===== *)
theory Push_Send
  imports Push Telemetry "HOL-Library.AList"
begin

text \<open>
  The sending half of \<open>HttpPushWaker::wake\<close> (\<open>rust/src/waker.rs\<close>): the trace context put into the
  payload, the request that is posted, and what the answer leaves in the log. Parameters are the
  propagator and the result of the HTTP client.
\<close>

section \<open>Trace context in the payload\<close>

text \<open>
  \<open>body[k1][k2]... = v\<close> of \<open>serde_json\<close>: a missing member is created (its parent then being an
  object), and indexing into anything but an object panics, here \<open>None\<close>.
\<close>

fun json_assign :: "string list \<Rightarrow> json \<Rightarrow> json \<Rightarrow> json option" where
  "json_assign [] v j = Some v"
| "json_assign (k # ks) v (JObj ms) =
     map_option (\<lambda>j. JObj (AList.update k j ms))
       (json_assign ks v (case map_of ms k of None \<Rightarrow> JObj [] | Some j \<Rightarrow> j))"
| "json_assign (k # ks) v _ = None"

definition traceparent_path :: "platform \<Rightarrow> string list" where
  "traceparent_path p =
     (case p of Apns \<Rightarrow> [''traceparent''] | Fcm \<Rightarrow> [''message'', ''data'', ''traceparent''])"

definition embed_traceparent :: "platform \<Rightarrow> string option \<Rightarrow> push_request \<Rightarrow> push_request option" where
  "embed_traceparent p tp req =
     (case tp of
        None \<Rightarrow> Some req
      | Some s \<Rightarrow> map_option (\<lambda>j. req\<lparr>body := j\<rparr>) (json_assign (traceparent_path p) (JStr s) (body req)))"

section \<open>Sending\<close>

text \<open>The span around one push, with the status recorded on the answer.\<close>

record push_span =
  span_namespace :: string
  span_platform :: platform
  span_status :: "nat option"

definition push_span :: "namespace_id \<Rightarrow> push_subscription \<Rightarrow> push_span" where
  "push_span ns sub =
     \<lparr>span_namespace = short_hex ns, span_platform = platform sub, span_status = None\<rparr>"

text \<open>What the client makes of the request: a status or an error with its message.\<close>

datatype send_result = Answered nat | Failed string

definition is_success :: "nat \<Rightarrow> bool" where
  [std_defs]: "is_success code \<longleftrightarrow> 200 \<le> code \<and> code < 300"

text \<open>The posted request: the bearer and the headers of the request in order.\<close>

record posted =
  post_url :: string
  post_bearer :: string
  post_headers :: "(string \<times> string) list"
  post_body :: json

definition post :: "push_request \<Rightarrow> string \<Rightarrow> posted" where
  "post req auth =
     \<lparr>post_url = url req, post_bearer = auth, post_headers = headers req, post_body = body req\<rparr>"

text \<open>\<open>status_text\<close> prints a status code; the result is the span and the warnings.\<close>

definition report :: "(nat \<Rightarrow> string) \<Rightarrow> string \<Rightarrow> send_result \<Rightarrow> push_span \<Rightarrow> push_span \<times> string list" where
  "report status_text name result span =
     (case result of
        Answered code \<Rightarrow>
          (span\<lparr>span_status := Some code\<rparr>,
           if is_success code then [] else [''stash: push '' @ name @ '' -> '' @ status_text code])
      | Failed e \<Rightarrow> (span, [''stash: push '' @ name @ '' failed: '' @ e]))"

text \<open>
  One target, end to end: the warning without a credential, a panic if the payload had another
  shape (\<open>None\<close>), otherwise what is posted and what is reported.
\<close>

definition send_one :: "(push_span \<Rightarrow> string option) \<Rightarrow> (posted \<Rightarrow> send_result) \<Rightarrow> (nat \<Rightarrow> string) \<Rightarrow>
    push_config \<Rightarrow> push_credentials \<Rightarrow> namespace_id \<Rightarrow> push_subscription \<Rightarrow>
    (posted list \<times> string list) option" where
  "send_one traceparent client status_text cfg creds ns sub =
     (case build cfg creds ns sub of
        None \<Rightarrow> Some ([], [''stash: no push credential for '' @ redacted sub])
      | Some (req, auth) \<Rightarrow>
          (let span = push_span ns sub
           in map_option (\<lambda>req. ([post req auth],
                snd (report status_text (redacted sub) (client (post req auth)) span)))
              (embed_traceparent (platform sub) (traceparent span) req)))"

section \<open>Lemmas\<close>

lemma apns_embedded:
  "embed_traceparent Apns (Some tp) (apns_request host bid tok ns) =
     Some ((apns_request host bid tok ns)\<lparr>body := JObj
       [(''aps'', JObj [(''content-available'', JNum 1)]), (''type'', JStr PUSH_TYPE),
        (''ns'', JStr (namespace_hex ns)), (''traceparent'', JStr tp)]\<rparr>)"
  by (simp add: embed_traceparent_def traceparent_path_def apns_request_def)

lemma fcm_embedded:
  "embed_traceparent Fcm (Some tp) (fcm_request proj tok ns) =
     Some ((fcm_request proj tok ns)\<lparr>body := JObj [(''message'', JObj [
       (''token'', JStr tok),
       (''data'', JObj [(''type'', JStr PUSH_TYPE), (''ns'', JStr (namespace_hex ns)), (''traceparent'', JStr tp)]),
       (''android'', JObj [(''priority'', JStr ''high'')]),
       (''apns'', JObj [
         (''headers'', JObj [(''apns-push-type'', JStr ''background''), (''apns-priority'', JStr ''5'')]),
         (''payload'', JObj [(''aps'', JObj [(''content-available'', JNum 1)])])])])]\<rparr>)"
  by (simp add: embed_traceparent_def traceparent_path_def fcm_request_def Let_def)

lemma embed_plain:
  "embed_traceparent p None req = Some req"
  by (simp add: embed_traceparent_def)

definition apns_payload :: "namespace_id \<Rightarrow> string option \<Rightarrow> json \<Rightarrow> bool" where
  "apns_payload ns tp j \<longleftrightarrow>
     json_path j [''aps''] = Some (JObj [(''content-available'', JNum 1)]) \<and>
     json_path j [''ns''] = Some (JStr (fmt_hex ns)) \<and>
     json_path j [''traceparent''] = map_option JStr tp"

definition fcm_payload :: "namespace_id \<Rightarrow> string option \<Rightarrow> json \<Rightarrow> bool" where
  "fcm_payload ns tp j \<longleftrightarrow>
     json_path j [''message'', ''notification''] = None \<and>
     json_path j [''message'', ''data'', ''ns''] = Some (JStr (fmt_hex ns)) \<and>
     json_path j [''message'', ''data'', ''traceparent''] = map_option JStr tp"

lemma apns_built:
  "\<exists>req'. embed_traceparent Apns tp (apns_request host bid tok ns) = Some req' \<and>
     url req' = url (apns_request host bid tok ns) \<and> headers req' = headers (apns_request host bid tok ns) \<and>
     apns_payload ns tp (body req')"
proof (cases tp)
  case None
  then show ?thesis
    by (simp add: embed_plain apns_payload_def apns_request_def namespace_hex_fmt)
next
  case (Some t)
  show ?thesis
    unfolding Some apns_embedded by (simp add: apns_payload_def namespace_hex_fmt)
qed

lemma fcm_built:
  "\<exists>req'. embed_traceparent Fcm tp (fcm_request proj tok ns) = Some req' \<and>
     url req' = url (fcm_request proj tok ns) \<and> headers req' = headers (fcm_request proj tok ns) \<and>
     fcm_payload ns tp (body req')"
proof (cases tp)
  case None
  then show ?thesis
    by (simp add: embed_plain fcm_payload_def fcm_request_def namespace_hex_fmt Let_def)
next
  case (Some t)
  show ?thesis
    unfolding Some fcm_embedded by (simp add: fcm_payload_def namespace_hex_fmt)
qed

lemma embed_built:
  assumes "build cfg creds ns sub = Some (req, auth)"
  shows "\<exists>req'. embed_traceparent (platform sub) tp req = Some req' \<and> url req' = url req \<and>
    headers req' = headers req \<and>
    (case platform sub of Apns \<Rightarrow> apns_payload ns tp (body req') | Fcm \<Rightarrow> fcm_payload ns tp (body req'))"
  using assms apns_built fcm_built by (cases "platform sub") (auto simp: build_def)

lemma send_one_built:
  "build cfg creds ns sub = Some (req, auth) \<Longrightarrow>
   embed_traceparent (platform sub) (traceparent (push_span ns sub)) req = Some req' \<Longrightarrow>
   send_one traceparent client status_text cfg creds ns sub =
     Some ([post req' auth],
       snd (report status_text (redacted sub) (client (post req' auth)) (push_span ns sub)))"
  by (simp add: send_one_def Let_def)

lemma post_fields:
  "post_url (post req auth) = url req" "post_headers (post req auth) = headers req"
  "post_bearer (post req auth) = auth" "post_body (post req auth) = body req"
  by (simp_all add: post_def)

section \<open>Properties\<close>

text \<open>
  Sending never panics and posts what was built. With or without a trace context, a target
  with a credential gets one request, at the address and with the headers that \<open>build\<close> gave it,
  under the bearer of its platform; only the \<open>traceparent\<close> member is added to the body, next to
  the namespace and never inside \<open>aps\<close>; and a target without a credential gets none.
\<close>

lemma send_posts_built_request:
  "case build cfg creds ns sub of
     None \<Rightarrow> send_one traceparent client status_text cfg creds ns sub =
       Some ([], [''stash: no push credential for '' @ redacted sub])
   | Some (req, auth) \<Rightarrow> \<exists>p log. send_one traceparent client status_text cfg creds ns sub = Some ([p], log) \<and>
       post_url p = url req \<and> post_headers p = headers req \<and> post_bearer p = auth \<and>
       (case platform sub of
          Apns \<Rightarrow> apns_payload ns (traceparent (push_span ns sub)) (post_body p)
        | Fcm \<Rightarrow> fcm_payload ns (traceparent (push_span ns sub)) (post_body p))"
proof (cases "build cfg creds ns sub")
  case None
  then show ?thesis by (simp add: send_one_def)
next
  case (Some r)
  obtain req auth where r: "r = (req, auth)" by (cases r)
  note built = Some [unfolded r]
  obtain req' where e: "embed_traceparent (platform sub) (traceparent (push_span ns sub)) req = Some req'"
    and fields: "url req' = url req" "headers req' = headers req"
      "case platform sub of Apns \<Rightarrow> apns_payload ns (traceparent (push_span ns sub)) (body req')
       | Fcm \<Rightarrow> fcm_payload ns (traceparent (push_span ns sub)) (body req')"
    using embed_built [OF built] by blast
  show ?thesis
    unfolding built option.case prod.case send_one_built [where traceparent = traceparent, OF built e] using fields
    by (cases "platform sub") (simp_all add: post_fields)
qed


text \<open>The shape of the HTTP client's message on a refused connection, with a token of 64 digits.\<close>

definition hex_sub :: push_subscription where
  "hex_sub = \<lparr>platform = Apns, token = replicate 64 (CHR ''7'')\<rparr>"


end
