(* ===== verification/Binary.thy ===== *)
theory Binary
  imports Node_Boot Push_Send
begin

text \<open>
  \<open>rust/src/bin/trail-stash.rs\<close>: the start-up decisions of the binary, and the secret key it requires.
\<close>

definition lower_hex :: "u8 \<Rightarrow> u8 option" where
  "lower_hex b =
     (if 48 \<le> b \<and> b \<le> 57 then Some (b - 48)
      else if 97 \<le> b \<and> b \<le> 102 then Some (b - 97 + 10)
      else None)"

fun decode_hex_loop :: "bytes \<Rightarrow> bytes option" where
  "decode_hex_loop (h # l # rest) =
     (case lower_hex h of None \<Rightarrow> None | Some hi \<Rightarrow>
      (case lower_hex l of None \<Rightarrow> None | Some lo \<Rightarrow>
       map_option (\<lambda>out. (push_bit 4 hi OR lo) # out) (decode_hex_loop rest)))"
| "decode_hex_loop _ = Some []"

definition decode_hex_32 :: "string \<Rightarrow> bytes option" where
  "decode_hex_32 s = (if length s \<noteq> 64 then None else decode_hex_loop (as_bytes s))"

text \<open>\<open>load_secret_key\<close>: the seed bytes, or the error the process exits with.\<close>

datatype key_error = KeyMissing | KeyMalformed

definition load_secret_key :: "(string \<Rightarrow> string option) \<Rightarrow> (key_error, bytes) result" where
  "load_secret_key env =
     (case env ''TRAIL_STASH_SECRET_KEY'' of
        None \<Rightarrow> Err KeyMissing
      | Some hex \<Rightarrow> ok_or KeyMalformed (decode_hex_32 (trim hex)))"

lemma decode_hex_loop_eq: "decode_hex_loop bs = lower_hex_loop bs"
  by (induction bs rule: decode_hex_loop.induct)
    (auto simp: lower_hex_def lower_hex_val_def split: option.split)

lemma decode_hex_32_iff: "decode_hex_32 s = Some b \<longleftrightarrow> length b = 32 \<and> s = fmt_hex b"
  using parse_namespace_hex_iff [of s b]
  by (auto simp: decode_hex_32_def parse_namespace_hex_def decode_hex_loop_eq)

section \<open>Console\<close>

text \<open>\<open>RedactingFormat\<close>: the inner format writes to a buffer (or fails), its redaction goes to the writer.\<close>

definition format_event :: "('ev \<Rightarrow> (unit, string) result) \<Rightarrow> 'ev \<Rightarrow> string \<Rightarrow> (unit, string) result" where
  "format_event inner event out =
     (case inner event of
        Err e \<Rightarrow> Err e
      | Ok formatted \<Rightarrow> Ok (out @ redact_log_line formatted))"

section \<open>Start-up\<close>

text \<open>
  What the process does in order. \<open>Tracing\<close> carries the exporter layers of the subscriber. How the
  process ends is the parameter \<open>ending\<close>: a signal, or the return of the server task.
\<close>

datatype ('t, 'l) action =
    Tracing "('t, 'l) otlp_layer list option"
  | Warned string
  | Logged string
  | Printed string
  | PruneLoop u64
  | Serving u16 "string option"
  | Flushed "('t, 'l) otlp_layer list"

datatype ending = Signal | ServerReturned "(string, (string, unit) result) result"

datatype main_error = BadKey key_error | Failed_with string

definition init_tracing :: "('t, 'l) otlp_api \<Rightarrow> (string \<Rightarrow> string option) \<Rightarrow> endpoint_id \<Rightarrow> ('t, 'l) telemetry \<Rightarrow>
    ('t, 'l) otlp_layer list option \<times> ('t, 'l) telemetry" where
  "init_tracing otlp env public tel = otel_layers otlp env (instance_id public) tel"

definition open_api_warning :: string where
  "open_api_warning = ''TRAIL_STASH_PSK is unset '' @ map byte_chr [0xE2, 0x80, 0x94] @
     '' control API is open. Set it (and EXPO_PUBLIC_TRAIL_STASH_PSK in the app) to cut misuse.''"

definition no_push_info :: string where
  "no_push_info = ''push not configured (no APNS_BUNDLE_ID / FCM_PROJECT_ID) '' @ map byte_chr [0xE2, 0x80, 0x94] @
     '' waker is a no-op''"

definition stash_up :: "stash_config \<Rightarrow> string" where
  "stash_up cfg = ''stash up '' @ map byte_chr [0xE2, 0x80, 0x94] @ '' latest-fix backstop '' @
     fmt_dec (unat (retention_ms (retention cfg) div MS_PER_HOUR)) @ ''h, prune every '' @
     fmt_dec (unat (prune_interval_min cfg)) @ ''m''"

text \<open>From the bound node to the end of \<open>main\<close>.\<close>

definition run_node :: "(string \<Rightarrow> string option) \<Rightarrow> stash_config \<Rightarrow> string \<Rightarrow> ('t, 'l) telemetry \<Rightarrow> ending \<Rightarrow>
    ('t, 'l) action list \<times> (main_error, unit) result" where
  "run_node env cfg ticket tel how =
     (let acts = [Logged (stash_up cfg)] @
            (if env ''TRAIL_STASH_PRINT_TICKET'' = Some ''1'' then [Printed (''TRAIL_STASH_TICKET='' @ ticket)] else []) @
            [PruneLoop (prune_interval_min cfg), Serving (port cfg) (psk cfg)];
          flush = [Flushed (fst (telemetry_shutdown tel))]
      in (case how of
            Signal \<Rightarrow> (acts @ [Logged ''stash: shutdown signal received''] @ flush, Ok ())
          | ServerReturned (Err e) \<Rightarrow> (acts, Err (Failed_with (''control api task: '' @ e)))
          | ServerReturned (Ok (Err e)) \<Rightarrow> (acts, Err (Failed_with (''control api: '' @ e)))
          | ServerReturned (Ok (Ok _)) \<Rightarrow> (acts @ flush, Ok ())))"

definition main :: "('t, 'l) otlp_api \<Rightarrow> ('m, 'e, 'b) iroh_api \<Rightarrow> (bytes \<Rightarrow> endpoint_id) \<Rightarrow>
    (string \<Rightarrow> string option) \<Rightarrow> ('t, 'l) telemetry \<Rightarrow> ending \<Rightarrow>
    ('t, 'l) action list \<times> (main_error, unit) result" where
  "main otlp iroh public env tel how =
     (let cfg = from_env env
      in (case load_secret_key env of
            Err e \<Rightarrow> ([], Err (BadKey e))
          | Ok secret \<Rightarrow>
              (let (layers, tel1) = init_tracing otlp env (public secret) tel;
                   acts = [Tracing layers] @
                     (if psk cfg = None then [Warned open_api_warning] else []) @
                     (if build_waker env = NoopWaker then [Logged no_push_info] else [])
               in (case spawn_node iroh secret (retention cfg) (relay_urls cfg) (relay_token cfg) of
                     Err e \<Rightarrow> (acts, Err (Failed_with (''spawn stash node: '' @ e)))
                   | Ok (endpoint, node :: (unit, 'b) stash_node) \<Rightarrow>
                       (let (more, result) = run_node env cfg (node_ticket iroh endpoint) tel1 how
                        in (acts @ more, result))))))"

section \<open>Shutdown\<close>

text \<open>
  \<open>shutdown_signal\<close>: the two arms of the \<open>select!\<close>, each with whether its handler could be installed.
  The result is the warnings and how many of the arriving events it takes until it resolves (\<open>None\<close>:
  it waits on). An arm without a handler does not wait.
\<close>

datatype os_event = Interrupt | Terminate | OtherEvent

definition ctrl_c_arm :: "(string, unit) result \<Rightarrow> os_event list \<Rightarrow> nat option" where
  "ctrl_c_arm installed events =
     (case installed of
        Err _ \<Rightarrow> Some 0
      | Ok _ \<Rightarrow> map_option Suc (position (\<lambda>e. e = Interrupt) events))"

definition terminate_arm :: "(string, unit) result \<Rightarrow> os_event list \<Rightarrow> string list \<times> nat option" where
  "terminate_arm installed events =
     (case installed of
        Err e \<Rightarrow> ([''failed to install SIGTERM handler: '' @ e], Some 0)
      | Ok _ \<Rightarrow> ([], map_option Suc (position (\<lambda>e. e = Terminate) events)))"

definition shutdown_signal :: "(string, unit) result \<Rightarrow> (string, unit) result \<Rightarrow> os_event list \<Rightarrow>
    string list \<times> nat option" where
  "shutdown_signal intr term events =
     (let (log, t) = terminate_arm term events
      in (log,
          case (ctrl_c_arm intr events, t) of
            (Some a, Some b) \<Rightarrow> Some (min a b)
          | (Some a, None) \<Rightarrow> Some a
          | (None, b) \<Rightarrow> b))"

section \<open>Lemmas\<close>

text \<open>With both handlers the process waits for the first of the two signals.\<close>

lemma shutdown_on_first_signal:
  "snd (shutdown_signal (Ok ()) (Ok ()) events) =
     map_option Suc (position (\<lambda>e. e = Interrupt \<or> e = Terminate) events)"
proof -
  have "position (\<lambda>e. P e \<or> Q e) xs =
      (case (position P xs, position Q xs) of
         (Some a, Some b) \<Rightarrow> Some (min a b) | (Some a, None) \<Rightarrow> Some a | (None, b) \<Rightarrow> b)" for P Q and xs :: "os_event list"
    by (induction xs) (auto split: option.split)
  then show ?thesis
    by (auto simp: shutdown_signal_def ctrl_c_arm_def terminate_arm_def split: option.split)
qed

text \<open>Without the handler of \<open>SIGTERM\<close> it does not wait at all.\<close>

lemma missing_handler_ends_process:
  "shutdown_signal intr (Err e) events = ([''failed to install SIGTERM handler: '' @ e], Some 0)"
  by (simp add: shutdown_signal_def terminate_arm_def split: option.split)

lemma load_secret_key_exact:
  "load_secret_key env = Ok b \<longleftrightarrow>
     (\<exists>v. env ''TRAIL_STASH_SECRET_KEY'' = Some v \<and> trim v = fmt_hex b) \<and> length b = 32"
  by (auto simp: load_secret_key_def decode_hex_32_iff split: option.splits)

lemma run_node_actions:
  "Serving p k \<in> set (fst (run_node env cfg ticket tel how)) \<longleftrightarrow> p = port cfg \<and> k = psk cfg"
  "Printed t \<in> set (fst (run_node env cfg ticket tel how)) \<longleftrightarrow>
     env ''TRAIL_STASH_PRINT_TICKET'' = Some ''1'' \<and> t = ''TRAIL_STASH_TICKET='' @ ticket"
  "PruneLoop m \<in> set (fst (run_node env cfg ticket tel how)) \<longleftrightarrow> m = prune_interval_min cfg"
  by (auto simp: run_node_def Let_def split: ending.split sum.split)

lemma lower_hex_image:
  "s = fmt_hex b \<longleftrightarrow> hex_decode s = Some b \<and> map ascii_lower (as_bytes s) = as_bytes s"
proof
  assume "s = fmt_hex b"
  then show "hex_decode s = Some b \<and> map ascii_lower (as_bytes s) = as_bytes s"
    using hex_pairs_Some [of "as_bytes s" b] by (simp add: hex_decode_fmt_hex hex_pairs_fmt_hex)
next
  assume "hex_decode s = Some b \<and> map ascii_lower (as_bytes s) = as_bytes s"
  then have "as_bytes s = as_bytes (fmt_hex b)"
    using hex_pairs_Some [of "as_bytes s" b] by (auto simp: hex_decode_def even_iff_mod_2_eq_zero split: if_splits)
  then show "s = fmt_hex b" by simp
qed

section \<open>Properties\<close>

text \<open>
  C34. The three hex decoders of the crate agree. The seed decoder of the binary and the namespace
  decoder of the API accept the same strings with the same bytes; these are the strings of 32 bytes
  that the key decoder of the retention policy, which takes either case, accepts in lower case; and
  they are what the push payload prints.
\<close>

theorem hex_decoders_agree:
  "(decode_hex_32 s = Some b \<longleftrightarrow> parse_namespace_hex s = Ok b) \<and>
   (parse_namespace_hex s = Ok b \<longleftrightarrow>
      length b = 32 \<and> hex_decode s = Some b \<and> map ascii_lower (as_bytes s) = as_bytes s) \<and>
   (parse_namespace_hex s = Ok b \<longleftrightarrow> length b = 32 \<and> s = namespace_hex b)"
  using lower_hex_image [of s b] by (auto simp: decode_hex_32_iff parse_namespace_hex_iff namespace_hex_fmt)

text \<open>
  C30. Start-up. The process does nothing at all exactly if the secret key does not load. It serves
  exactly if the key loads and the node boots, and then on the configured port under the configured
  key; it prints its dial ticket exactly if it also is asked to; and without a configured key it
  warns that the API is open before anything can fail but the key.
\<close>

theorem startup_exact:
  "(main otlp iroh public env tel how = ([], Err (BadKey e)) \<longleftrightarrow> load_secret_key env = Err e) \<and>
   (Serving p k \<in> set (fst (main otlp iroh public env tel how)) \<longleftrightarrow>
     (\<exists>secret endpoint. load_secret_key env = Ok secret \<and>
        spawn_node iroh secret (retention (from_env env)) (relay_urls (from_env env)) (relay_token (from_env env)) =
          Ok (endpoint, spawn (retention (from_env env)) (mem_store iroh) :: (unit, 'b) stash_node)) \<and>
     p = port (from_env env) \<and> k = psk (from_env env)) \<and>
   (Printed t \<in> set (fst (main otlp iroh public env tel how)) \<longleftrightarrow>
     (\<exists>secret endpoint. load_secret_key env = Ok secret \<and>
        spawn_node iroh secret (retention (from_env env)) (relay_urls (from_env env)) (relay_token (from_env env)) =
          Ok (endpoint, spawn (retention (from_env env)) (mem_store iroh) :: (unit, 'b) stash_node) \<and>
        t = ''TRAIL_STASH_TICKET='' @ endpoint_ticket iroh endpoint) \<and>
     env ''TRAIL_STASH_PRINT_TICKET'' = Some ''1'') \<and>
   (Warned open_api_warning \<in> set (fst (main otlp iroh public env tel how)) \<longleftrightarrow>
     (\<exists>secret. load_secret_key env = Ok secret) \<and> psk (from_env env) = None)"
proof (cases "load_secret_key env")
  case (Inl e')
  then show ?thesis by (auto simp: main_def)
next
  case (Inr secret)
  let ?node = "spawn (retention (from_env env)) (mem_store iroh) :: (unit, 'b) stash_node"
  let ?boot = "spawn_node iroh secret (retention (from_env env)) (relay_urls (from_env env)) (relay_token (from_env env))
    :: (string, 'e \<times> (unit, 'b) stash_node) result"
  have unwarned: "Warned w \<notin> set (fst (run_node env c ticket tl how))" for w c ticket tl
    by (auto simp: run_node_def Let_def split: ending.split sum.split)
  show ?thesis
  proof (cases ?boot)
    case (Inl e')
    then show ?thesis
      using Inr by (auto simp: main_def Let_def split_beta)
  next
    case ok: (Inr r)
    obtain endpoint where r: "r = (endpoint, ?node)"
      using spawn_node_Ok [of iroh secret _ _ _ "fst r" "snd r"] ok by (metis prod.collapse)
    show ?thesis
      using Inr ok [unfolded r] unwarned
      by (auto simp: main_def Let_def split_beta run_node_actions node_ticket_def)
  qed
qed

end
