(* ===== verification/Node_Race.thy ===== *)
theory Node_Race
  imports Node_System
begin

text \<open>
  The tasks of the node between their locks. \<open>Node_System\<close> runs each handler as one step; here the
  watch tasks, the settle loop, the sweep and the uploads stop at every point where the code waits
  or gives up a lock, and any other task may run there. The lemmas relate the two views and show
  what still holds in every interleaving, and which two interleavings break the rest.
\<close>

section \<open>Tasks\<close>

text \<open>
  Where a task stands: a watch task after \<open>want\<close>, after it asked the store, and after it entered the
  entry in the table; an upload after its checks and after \<open>add_bytes\<close>.
\<close>

datatype watch_stage =
    Referenced bytes content_hash endpoint_id
  | Probed content_hash tracked_entry
  | Entered content_hash tracked_entry bool

datatype put_stage = Checked content_hash bytes | Added content_hash

text \<open>
  The node with the tasks that are under way: one watch task for each namespace, one settle loop
  (with the answer of its probe), one sweep (with the hash whose tracked entry it is about to drop)
  and any number of uploads.
\<close>

record ('d, 'b) fine =
  base :: "('d, 'b) stash_node"
  watching :: "namespace_id \<Rightarrow> watch_stage option"
  settling :: "(u64 \<times> content_hash \<times> tracked_entry \<times> bool) option"
  dropping :: "content_hash option"
  uploads :: "put_stage list"

definition idle :: "('d, 'b) stash_node \<Rightarrow> ('d, 'b) fine" where
  "idle node = \<lparr>base = node, watching = \<lambda>_. None, settling = None, dropping = None, uploads = []\<rparr>"

section \<open>Steps\<close>

text \<open>The watch task of one event: \<open>want\<close>; the store and the new entry; the table; \<open>mark_present\<close>.\<close>

definition watch_want :: "namespace_id \<Rightarrow> bytes \<Rightarrow> content_hash \<Rightarrow> endpoint_id \<Rightarrow> ('d, 'b) fine \<Rightarrow> ('d, 'b) fine" where
  "watch_want ns k hash from f =
     f\<lparr>base := (base f)\<lparr>content := want ns hash (content (base f))\<rparr>,
       watching := (watching f)(ns := Some (Referenced k hash from))\<rparr>"

definition watch_probe :: "'b blob_api \<Rightarrow> u64 \<Rightarrow> namespace_id \<Rightarrow> bytes \<Rightarrow> content_hash \<Rightarrow> endpoint_id \<Rightarrow>
    ('d, 'b) fine \<Rightarrow> ('d, 'b) fine" where
  "watch_probe api now ns k hash from f =
     f\<lparr>watching := (watching f)(ns := Some (Probed hash
        (received_entry now ns k from (store_has api (blobs (base f)) hash))))\<rparr>"

definition watch_enter :: "namespace_id \<Rightarrow> content_hash \<Rightarrow> tracked_entry \<Rightarrow> ('d, 'b) fine \<Rightarrow> ('d, 'b) fine" where
  "watch_enter ns hash entry f =
     (let table = hm_or_insert hash entry (tracked (base f));
          known = (case hm_get table hash of Some t \<Rightarrow> woken t | None \<Rightarrow> woken entry)
      in f\<lparr>base := (base f)\<lparr>tracked := table\<rparr>,
           watching := (watching f)(ns := Some (Entered hash entry known))\<rparr>)"

definition watch_mark :: "namespace_id \<Rightarrow> content_hash \<Rightarrow> tracked_entry \<Rightarrow> ('d, 'b) fine \<Rightarrow> ('d, 'b) fine" where
  "watch_mark ns hash entry f =
     f\<lparr>base := (if content_present entry
        then (base f)\<lparr>content := mark_present hash (content (base f))\<rparr> else base f),
       watching := (watching f)(ns := None)\<rparr>"

text \<open>An iteration of the settle loop: the probe or download, and the locked second half.\<close>

definition settle_ask :: "'b blob_api \<Rightarrow> 'b net_api \<Rightarrow> u64 \<Rightarrow> content_hash \<Rightarrow> tracked_entry \<Rightarrow>
    ('d, 'b) fine \<Rightarrow> ('d, 'b) fine" where
  "settle_ask api net now hash entry f =
     (let (present, store) = settle_probe api net now hash entry (blobs (base f))
      in f\<lparr>base := (base f)\<lparr>blobs := store\<rparr>, settling := Some (now, hash, entry, present)\<rparr>)"

definition settle_finish :: "u64 \<Rightarrow> content_hash \<Rightarrow> tracked_entry \<Rightarrow> bool \<Rightarrow> ('d, 'b) fine \<Rightarrow> ('d, 'b) fine" where
  "settle_finish now hash entry present f =
     f\<lparr>base := snd (settle_commit now hash entry present (base f)), settling := None\<rparr>"

text \<open>The sweep on one hash: \<open>forget\<close>, and after the last reference the removal from the table.\<close>

definition sweep_forget :: "namespace_id \<Rightarrow> content_hash \<Rightarrow> ('d, 'b) fine \<Rightarrow> ('d, 'b) fine" where
  "sweep_forget ns hash f =
     (let (last_reference, index) = forget ns hash (content (base f))
      in f\<lparr>base := (base f)\<lparr>content := index\<rparr>,
           dropping := (if last_reference then Some hash else None)\<rparr>)"

definition sweep_drop :: "content_hash \<Rightarrow> ('d, 'b) fine \<Rightarrow> ('d, 'b) fine" where
  "sweep_drop hash f =
     f\<lparr>base := (base f)\<lparr>tracked := hm_remove hash (tracked (base f))\<rparr>, dropping := None\<rparr>"

text \<open>An upload: the three checks, \<open>add_bytes\<close>, \<open>mark_present\<close>.\<close>

definition put_check :: "'b blob_api \<Rightarrow> namespace_id \<Rightarrow> content_hash \<Rightarrow> bytes \<Rightarrow> ('d, 'b) fine \<Rightarrow> ('d, 'b) fine" where
  "put_check api ns hash b f =
     (if is_known (registry (base f)) ns \<and> is_tracked_for (content (base f)) ns hash \<and> hash_new api b = hash
      then f\<lparr>uploads := Checked hash b # uploads f\<rparr> else f)"

definition put_add :: "'b blob_api \<Rightarrow> content_hash \<Rightarrow> bytes \<Rightarrow> ('d, 'b) fine \<Rightarrow> ('d, 'b) fine" where
  "put_add api hash b f =
     (let (added, store) = blob_add api b (blobs (base f));
          rest = remove1 (Checked hash b) (uploads f)
      in f\<lparr>base := (base f)\<lparr>blobs := store\<rparr>,
           uploads := (if added = Ok hash then Added hash # rest else rest)\<rparr>)"

definition put_mark :: "content_hash \<Rightarrow> ('d, 'b) fine \<Rightarrow> ('d, 'b) fine" where
  "put_mark hash f =
     f\<lparr>base := (base f)\<lparr>content := mark_present hash (content (base f))\<rparr>,
       uploads := remove1 (Added hash) (uploads f)\<rparr>"

text \<open>Hashes a task is about to call present because it saw their bytes.\<close>

definition pending :: "('d, 'b) fine \<Rightarrow> content_hash \<Rightarrow> bool" where
  "pending f hash \<longleftrightarrow>
     (\<exists>now e. settling f = Some (now, hash, e, True)) \<or>
     (\<exists>ns e. watching f ns = Some (Probed hash e) \<and> content_present e) \<or>
     (\<exists>ns e known. watching f ns = Some (Entered hash e known) \<and> content_present e) \<or>
     Added hash \<in> set (uploads f)"

text \<open>
  The fine steps. The parameter says in which states the collector may run; the other engine of the
  store and the requests handled under one lock are the steps of \<open>Node_System\<close>.
\<close>

inductive fine_step :: "('d, 'b) env \<Rightarrow> (('d, 'b) fine \<Rightarrow> bool) \<Rightarrow> ('d, 'b) fine \<Rightarrow> ('d, 'b) fine \<Rightarrow> bool"
  for env ok where
  whole: "step env (Http req) (base f) node \<Longrightarrow> fine_step env ok f (f\<lparr>base := node\<rparr>)"
| engine: "step env Engine (base f) node \<Longrightarrow> fine_step env ok f (f\<lparr>base := node\<rparr>)"
| collect: "ok f \<Longrightarrow> step env Collect (base f) node \<Longrightarrow> fine_step env ok f (f\<lparr>base := node\<rparr>)"
| want: "ns \<in> set (watchers (base f)) \<Longrightarrow> watching f ns = None \<Longrightarrow>
    fine_step env ok f (watch_want ns k h from f)"
| probe: "watching f ns = Some (Referenced k h from) \<Longrightarrow>
    fine_step env ok f (watch_probe (env_api env) now ns k h from f)"
| enter: "watching f ns = Some (Probed h e) \<Longrightarrow> fine_step env ok f (watch_enter ns h e f)"
| mark: "watching f ns = Some (Entered h e seen) \<Longrightarrow> fine_step env ok f (watch_mark ns h e f)"
| ask: "settling f = None \<Longrightarrow> fine_step env ok f (settle_ask (env_api env) (env_net env) now h e f)"
| finish: "settling f = Some (now, h, e, present) \<Longrightarrow> fine_step env ok f (settle_finish now h e present f)"
| forget: "dropping f = None \<Longrightarrow> fine_step env ok f (sweep_forget ns h f)"
| drop: "dropping f = Some h \<Longrightarrow> fine_step env ok f (sweep_drop h f)"
| check: "fine_step env ok f (put_check (env_api env) ns h b f)"
| add: "Checked h b \<in> set (uploads f) \<Longrightarrow> fine_step env ok f (put_add (env_api env) h b f)"
| stored: "Added h \<in> set (uploads f) \<Longrightarrow> fine_step env ok f (put_mark h f)"

inductive fine_run :: "('d, 'b) env \<Rightarrow> (('d, 'b) fine \<Rightarrow> bool) \<Rightarrow> ('d, 'b) fine \<Rightarrow> ('d, 'b) fine \<Rightarrow> bool"
  for env ok where
  here: "fine_run env ok f f"
| on: "fine_step env ok f g \<Longrightarrow> fine_run env ok g h \<Longrightarrow> fine_run env ok f h"

lemma fine_run_append: "fine_run env ok f g \<Longrightarrow> fine_run env ok g h \<Longrightarrow> fine_run env ok f h"
  by (induction rule: fine_run.induct) (auto intro: fine_run.intros)

text \<open>The collector waits for the uploads, probes and records that saw an unreferenced hash.\<close>

definition collector_waits :: "('d, 'b) fine \<Rightarrow> bool" where
  "collector_waits f \<longleftrightarrow> (\<forall>h. pending f h \<longrightarrow> is_tracked (content (base f)) h)"

lemma idle_simps [simp]:
  "base (idle node) = node" "watching (idle node) = (\<lambda>_. None)" "settling (idle node) = None"
  "dropping (idle node) = None" "uploads (idle node) = []" "\<not> pending (idle node) h"
  "collector_waits (idle node)"
  by (simp_all add: idle_def pending_def collector_waits_def)

section \<open>What every interleaving keeps\<close>

text \<open>The part of \<open>node_inv\<close> that does not relate the settle loop's table to the index.\<close>

definition tables_inv :: "('d, 'b) stash_node \<Rightarrow> bool" where
  "tables_inv node \<longleftrightarrow>
     index_inv (content node) \<and> registry_inv (registry node) \<and>
     hm_wf (handles node) \<and> hm_wf (tracked node) \<and>
     distinct (watchers node) \<and> set (watchers node) = set (known (registry node)) \<and>
     set (known (registry node)) \<subseteq> dom (hm_get (handles node)) \<and>
     (\<forall>ns hash. is_tracked_for (content node) ns hash \<longrightarrow> is_known (registry node) ns)"

lemma tables_invD:
  assumes "tables_inv node"
  shows "index_inv (content node)" "registry_inv (registry node)" "hm_wf (handles node)" "hm_wf (tracked node)"
    "distinct (watchers node)" "set (watchers node) = set (known (registry node))"
    "set (known (registry node)) \<subseteq> dom (hm_get (handles node))"
    "is_tracked_for (content node) ns hash \<Longrightarrow> is_known (registry node) ns"
  using assms unfolding tables_inv_def by blast+

lemma node_inv_tables: "node_inv node \<Longrightarrow> tables_inv node"
  unfolding node_inv_def tables_inv_def by (elim conjE, intro conjI)

text \<open>Such a node is consistent but for its table.\<close>

definition blank :: tracked_entry where
  "blank = \<lparr>entry_namespace = [], entry_author = [], delivered_by = [], entry_seq = 0, first_seen_ms = 0,
     content_present = False, woken = False, next_attempt_ms = 0, attempts = 0\<rparr>"

definition fresh_table :: "('d, 'b) stash_node \<Rightarrow> (content_hash, tracked_entry) hmap" where
  "fresh_table node = map (\<lambda>h. (h, blank)) (referenced (content node))"

lemma fresh_table_get:
  "hm_get (fresh_table node) h = (if is_tracked (content node) h then Some blank else None)"
proof -
  have "hm_get (fresh_table node) h = (if h \<in> set (referenced (content node)) then Some blank else None)"
    by (simp add: fresh_table_def map_of_map_restrict restrict_map_def)
  moreover have "h \<in> set (referenced (content node)) \<longleftrightarrow> is_tracked (content node) h"
    by (auto simp: referenced_def is_tracked_def dest: weak_map_of_SomeI map_of_SomeD) (force dest: map_of_SomeD)
  ultimately show ?thesis by simp
qed

lemma tables_inv_fresh:
  assumes "tables_inv node"
  shows "node_inv (node\<lparr>tracked := fresh_table node\<rparr>)"
proof (rule node_invI)
  note inv = tables_invD [OF assms]
  show "hm_wf (tracked (node\<lparr>tracked := fresh_table node\<rparr>))"
    using index_invD(1) [OF inv(1)] by (simp add: fresh_table_def hm_wf_def referenced_def o_def)
  show "dom (hm_get (tracked (node\<lparr>tracked := fresh_table node\<rparr>))) =
      {hash. is_tracked (content (node\<lparr>tracked := fresh_table node\<rparr>)) hash}"
    by (auto simp: fresh_table_get split: if_splits)
  show "is_present (content (node\<lparr>tracked := fresh_table node\<rparr>)) hash \<and> woken t"
    if "hm_get (tracked (node\<lparr>tracked := fresh_table node\<rparr>)) hash = Some t" "content_present t" for hash t
    using that by (auto simp: fresh_table_get blank_def split: if_splits)
qed (use tables_invD [OF assms] in simp_all)

lemma tables_inv_tracked:
  "tables_inv (node\<lparr>tracked := tr\<rparr>) \<Longrightarrow> hm_wf (tracked node) \<Longrightarrow> tables_inv node"
  by (simp add: tables_inv_def)

text \<open>The requests do not look at the table.\<close>

lemma node_register_table:
  "node_register docs t sub (node\<lparr>tracked := tr\<rparr>) =
     (fst (node_register docs t sub node), (snd (node_register docs t sub node))\<lparr>tracked := tr\<rparr>) \<and>
   tracked (snd (node_register docs t sub node)) = tracked node"
  by (auto simp: node_register_def finish_register_def split_beta split: sum.split option.split)

lemma node_unsubscribe_table:
  "node_unsubscribe ns sub (node\<lparr>tracked := tr\<rparr>) =
     (fst (node_unsubscribe ns sub node), (snd (node_unsubscribe ns sub node))\<lparr>tracked := tr\<rparr>) \<and>
   tracked (snd (node_unsubscribe ns sub node)) = tracked node"
  by (simp add: node_unsubscribe_def split_beta)

lemma put_content_table:
  "put_content api ns h b (node\<lparr>tracked := tr\<rparr>) =
     (fst (put_content api ns h b node), (snd (put_content api ns h b node))\<lparr>tracked := tr\<rparr>) \<and>
   tracked (snd (put_content api ns h b node)) = tracked node"
  by (auto simp: put_content_def split_beta Let_def split: sum.split)

lemma content_handler_table:
  "content_handler http api i h (node\<lparr>tracked := tr\<rparr>) = content_handler http api i h node"
  by (simp add: content_handler_def content_bytes_def split: sum.split option.split)

lemma healthz_table: "healthz (node\<lparr>tracked := tr\<rparr>) = healthz node"
  by (simp add: healthz_def content_stats_def)

lemma v1_run_table:
  "v1_run http api docs r req (node\<lparr>tracked := tr\<rparr>) =
     (fst (v1_run http api docs r req node), (snd (v1_run http api docs r req node))\<lparr>tracked := tr\<rparr>) \<and>
   tracked (snd (v1_run http api docs r req node)) = tracked node"
  using node_register_table [of docs _ _ tr node] node_unsubscribe_table [of _ _ tr node]
    put_content_table [of api _ _ _ tr node]
  by (auto simp: v1_run_def register_handler_def unsubscribe_handler_def put_content_handler_def
      content_handler_table split_beta split: route.split http_method.split sum.split option.split put_outcome.split)

lemma control_api_table:
  "control_api http api docs secret req (node\<lparr>tracked := tr\<rparr>) =
     (fst (control_api http api docs secret req node), (snd (control_api http api docs secret req node))\<lparr>tracked := tr\<rparr>) \<and>
   tracked (snd (control_api http api docs secret req node)) = tracked node"
  using v1_run_table [of http api docs _ req tr node]
  by (auto simp: control_api_def psk_guard_def healthz_table split: option.split)

lemma control_api_tables:
  assumes "tables_inv node"
  shows "tables_inv (snd (control_api http api docs secret req node))"
proof (rule tables_inv_tracked)
  show "tables_inv ((snd (control_api http api docs secret req node))\<lparr>tracked := fresh_table node\<rparr>)"
    using control_api_inv [OF tables_inv_fresh [OF assms], of http api docs secret req]
      control_api_table [of http api docs secret req "fresh_table node" node]
    by (simp add: node_inv_tables)
  show "hm_wf (tracked (snd (control_api http api docs secret req node)))"
    using control_api_table [of http api docs secret req _ node] tables_invD(4) [OF assms] by simp
qed

lemma control_api_keeps_bytes:
  assumes "blob_laws api" "blob_get api (blobs node) h \<noteq> None"
  shows "blob_get api (blobs (snd (control_api http api docs secret req node))) h \<noteq> None"
proof -
  have put: "blob_get api (blobs (snd (put_content api ns x b node))) h \<noteq> None" for ns x b
  proof (cases rule: put_content_cases [of api ns x b node])
    case stored
    then show ?thesis using assms by (simp add: blob_laws_def)
  qed (use assms in \<open>simp_all add: blob_laws_def\<close>)
  show ?thesis
    using assms(2) put
    by (auto simp: node_register_content(2) node_unsubscribe_content(2) control_api_def psk_guard_def v1_run_def register_handler_def put_content_handler_def
        unsubscribe_handler_def split_beta
        split: option.split route.split http_method.split sum.split)
qed

lemma protects_tracked:
  assumes "tables_inv node" "is_tracked (content node) h"
  shows "h \<in> set (protect node [])"
proof -
  have "protect (node\<lparr>tracked := fresh_table node\<rparr>) [] = protect node []"
    by (simp add: protect_def)
  moreover have "\<exists>ns. is_tracked_for (content node) ns h"
    using index_invD(3) [OF tables_invD(1) [OF assms(1)], of h] assms(2) by blast
  ultimately show ?thesis
    using protect_set [OF tables_inv_fresh [OF assms(1)], of "[]"] by simp
qed

definition sound :: "'b blob_api \<Rightarrow> ('d, 'b) fine \<Rightarrow> bool" where
  "sound api f \<longleftrightarrow> tables_inv (base f) \<and> servable api (base f) \<and>
     (\<forall>h. pending f h \<longrightarrow> blob_get api (blobs (base f)) h \<noteq> None)"

lemma pending_base [simp]: "pending (f\<lparr>base := n\<rparr>) = pending f"
  by (simp add: pending_def fun_eq_iff)

lemma fine_watching:
  "pending (f\<lparr>base := n, watching := w\<rparr>) = pending (f\<lparr>watching := w\<rparr>)"
  by (simp add: pending_def fun_eq_iff)

lemma pending_watch:
  assumes "pending (f\<lparr>watching := (watching f)(ns := stage)\<rparr>) h"
  shows "pending f h \<or> (\<exists>e. stage = Some (Probed h e) \<and> content_present e) \<or>
    (\<exists>e seen. stage = Some (Entered h e seen) \<and> content_present e)"
proof -
  let ?g = "f\<lparr>watching := (watching f)(ns := stage)\<rparr>"
  have old: "watching f n = s" if "watching ?g n = s" "n \<noteq> ns" for n s
    using that by simp
  have new: "stage = s" if "watching ?g ns = s" for s
    using that by simp
  consider "\<exists>now e. settling f = Some (now, h, e, True)" | "Added h \<in> set (uploads f)"
    | n e where "watching ?g n = Some (Probed h e)" "content_present e"
    | n e seen where "watching ?g n = Some (Entered h e seen)" "content_present e"
    using assms unfolding pending_def by auto
  then show ?thesis
  proof cases
    case 3
    then show ?thesis using old new unfolding pending_def by blast
  next
    case 4
    then show ?thesis using old new unfolding pending_def by blast
  qed (auto simp: pending_def)
qed

text \<open>A step that changes the index, with every newly present hash seen before.\<close>

lemma sound_index:
  assumes "sound api f" "tables_inv (base g)" "blobs (base g) = blobs (base f)"
    and "\<And>h. is_present (content (base g)) h \<Longrightarrow> is_present (content (base f)) h \<or> pending f h"
    and "\<And>h. pending g h \<Longrightarrow> pending f h"
  shows "sound api g"
  using assms unfolding sound_def servable_def by metis

text \<open>A step that changes the store, with every newly seen hash readable.\<close>

lemma sound_store:
  assumes "sound api f" "tables_inv (base g)" "content (base g) = content (base f)"
    and "\<And>h. blob_get api (blobs (base f)) h \<noteq> None \<Longrightarrow> blob_get api (blobs (base g)) h \<noteq> None"
    and "\<And>h. pending g h \<Longrightarrow> pending f h \<or> blob_get api (blobs (base g)) h \<noteq> None"
  shows "sound api g"
  using assms unfolding sound_def servable_def by metis

lemma tables_inv_index:
  assumes "tables_inv node" "index_inv i"
    and "\<And>ns h. is_tracked_for i ns h \<Longrightarrow> is_tracked_for (content node) ns h \<or> is_known (registry node) ns"
  shows "tables_inv (node\<lparr>content := i\<rparr>)"
proof -
  have "is_known (registry node) ns" if "is_tracked_for i ns h" for ns h
    using assms(3) [OF that] tables_invD(8) [OF assms(1)] by blast
  then show ?thesis
    using assms(1,2) by (simp add: tables_inv_def)
qed

lemma tables_inv_mark: "tables_inv node \<Longrightarrow> tables_inv (node\<lparr>content := mark_present h (content node)\<rparr>)"
  by (rule tables_inv_index) (auto intro: inv_intros tables_invD(1))

lemma tables_inv_store: "tables_inv node \<Longrightarrow> tables_inv (node\<lparr>blobs := s\<rparr>)"
  by (simp add: tables_inv_def)

lemma tables_inv_table: "tables_inv node \<Longrightarrow> hm_wf tr \<Longrightarrow> tables_inv (node\<lparr>tracked := tr\<rparr>)"
  by (simp add: tables_inv_def)

lemma tables_inv_commit:
  assumes "tables_inv node"
  shows "tables_inv (snd (settle_commit now h e present node))"
proof (cases "hm_get (tracked node) h")
  case None
  then show ?thesis using assms by (simp add: settle_commit_eq)
next
  case (Some live)
  then show ?thesis
    using tables_inv_mark [of "node\<lparr>tracked := tr\<rparr>" h for tr] tables_inv_table [OF assms] tables_invD(4) [OF assms]
    by (cases present) (simp_all add: settle_commit_eq)
qed

lemma in_remove1: "x \<in> set (remove1 y xs) \<Longrightarrow> x \<in> set xs"
  using notin_set_remove1 by metis

lemma sound_want:
  assumes "sound api f" "ns \<in> set (watchers (base f))" "watching f ns = None"
  shows "sound api (watch_want ns k h from f)"
proof (rule sound_index [OF assms(1)])
  have t: "tables_inv (base f)"
    using assms(1) by (simp add: sound_def)
  show "tables_inv (base (watch_want ns k h from f))"
    using tables_inv_index [OF t want_inv [OF tables_invD(1) [OF t]], of ns h] assms(2) tables_invD(6) [OF t]
    by (auto simp: watch_want_def is_known_def)
  show "pending f x" if "pending (watch_want ns k h from f) x" for x
    using pending_watch [of "f" ns _ x] that by (auto simp: watch_want_def fine_watching)
qed (simp_all add: watch_want_def)

lemma sound_probe:
  assumes "blob_laws api" "sound api f" "watching f ns = Some (Referenced k h from)"
  shows "sound api (watch_probe api now ns k h from f)"
proof (rule sound_store [OF assms(2)])
  show "tables_inv (base (watch_probe api now ns k h from f))"
    using assms(2) by (simp add: sound_def watch_probe_def)
  show "pending f x \<or> blob_get api (blobs (base (watch_probe api now ns k h from f))) x \<noteq> None"
    if "pending (watch_probe api now ns k h from f) x" for x
    using pending_watch [of f ns _ x] that store_has_get [OF assms(1)] by (force simp: watch_probe_def)
qed (simp_all add: watch_probe_def)

lemma sound_enter:
  assumes "sound api f" "watching f ns = Some (Probed h e)"
  shows "sound api (watch_enter ns h e f)"
proof (rule sound_index [OF assms(1)])
  have t: "tables_inv (base f)"
    using assms(1) by (simp add: sound_def)
  show "tables_inv (base (watch_enter ns h e f))"
    using tables_inv_table [OF t] tables_invD(4) [OF t] by (simp add: watch_enter_def Let_def)
  show "pending f x" if "pending (watch_enter ns h e f) x" for x
  proof -
    obtain node seen where w: "watch_enter ns h e f =
        f\<lparr>base := node, watching := (watching f)(ns := Some (Entered h e seen))\<rparr>"
      unfolding watch_enter_def Let_def by blast
    have "pending f x \<or> x = h \<and> content_present e"
      using pending_watch [of f ns "Some (Entered h e seen)" x] \<open>pending (watch_enter ns h e f) x\<close>
      by (auto simp: w fine_watching)
    then show ?thesis
      using assms(2) by (auto simp: pending_def)
  qed
qed (simp_all add: watch_enter_def Let_def)

lemma sound_mark:
  assumes "sound api f" "watching f ns = Some (Entered h e seen)"
  shows "sound api (watch_mark ns h e f)"
proof (rule sound_index [OF assms(1)])
  have t: "tables_inv (base f)"
    using assms(1) by (simp add: sound_def)
  show "tables_inv (base (watch_mark ns h e f))"
    using t tables_inv_mark [OF t] by (simp add: watch_mark_def)
  show "pending f x" if "pending (watch_mark ns h e f) x" for x
    using pending_watch [of f ns _ x] that by (auto simp: watch_mark_def fine_watching)
  show "is_present (content (base f)) x \<or> pending f x" if "is_present (content (base (watch_mark ns h e f))) x" for x
    using that assms(2) by (auto simp: watch_mark_def pending_def split: if_splits)
qed (simp add: watch_mark_def)

lemma sound_ask:
  assumes "blob_laws api" "net_laws api net" "sound api f" "settling f = None"
  shows "sound api (settle_ask api net now h e f)"
proof (rule sound_store [OF assms(3)])
  show "tables_inv (base (settle_ask api net now h e f))"
    using assms(3) by (simp add: sound_def settle_ask_def split_beta tables_inv_store)
  show "blob_get api (blobs (base (settle_ask api net now h e f))) x \<noteq> None"
    if "blob_get api (blobs (base f)) x \<noteq> None" for x
    using settle_probe_laws(2) [OF assms(1,2) that, of now h e] by (simp add: settle_ask_def split_beta)
  show "pending f x \<or> blob_get api (blobs (base (settle_ask api net now h e f))) x \<noteq> None"
    if "pending (settle_ask api net now h e f) x" for x
    using that settle_probe_laws(1) [OF assms(1,2), of now h e "blobs (base f)"]
    by (auto simp: settle_ask_def split_beta pending_def)
qed (simp add: settle_ask_def split_beta)

lemma sound_finish:
  assumes "sound api f" "settling f = Some (now, h, e, present)"
  shows "sound api (settle_finish now h e present f)"
proof (rule sound_index [OF assms(1)])
  show "tables_inv (base (settle_finish now h e present f))"
    using assms(1) by (simp add: sound_def settle_finish_def tables_inv_commit)
  show "is_present (content (base f)) x \<or> pending f x"
    if "is_present (content (base (settle_finish now h e present f))) x" for x
    using that assms(2) by (auto simp: settle_finish_def settle_commit_fields pending_def split: if_splits)
qed (auto simp: settle_finish_def settle_commit_fields pending_def)

lemma sound_forget:
  assumes "sound api f"
  shows "sound api (sweep_forget ns h f)"
proof (rule sound_index [OF assms(1)])
  have t: "tables_inv (base f)"
    using assms(1) by (simp add: sound_def)
  note wf = index_invD(2) [OF tables_invD(1) [OF t]]
  show "tables_inv (base (sweep_forget ns h f))"
    using tables_inv_index [OF t forget_inv [OF tables_invD(1) [OF t]], of ns h]
    by (simp add: sweep_forget_def split_beta forget_simps [OF wf])
  show "is_present (content (base f)) x \<or> pending f x" if "is_present (content (base (sweep_forget ns h f))) x" for x
    using that by (simp add: sweep_forget_def split_beta forget_simps [OF wf])
qed (auto simp: sweep_forget_def split_beta pending_def)

lemma sound_drop: "sound api f \<Longrightarrow> sound api (sweep_drop h f)"
  using tables_inv_table [of "base f"] tables_invD(4) [of "base f"]
  by (auto simp: sound_def sweep_drop_def servable_def pending_def)

lemma sound_check: "sound api f \<Longrightarrow> sound api (put_check api ns h b f)"
  by (auto simp: sound_def put_check_def pending_def)

lemma sound_add:
  assumes "blob_laws api" "sound api f"
  shows "sound api (put_add api h b f)"
proof (rule sound_store [OF assms(2)])
  show "tables_inv (base (put_add api h b f))"
    using assms(2) by (simp add: sound_def put_add_def split_beta Let_def tables_inv_store)
  show "pending f x \<or> blob_get api (blobs (base (put_add api h b f))) x \<noteq> None"
    if "pending (put_add api h b f) x" for x
  proof (cases "fst (blob_add api b (blobs (base f))) = Ok h")
    case True
    then have "blob_get api (snd (blob_add api b (blobs (base f)))) h = Some b"
      using assms(1) unfolding blob_laws_def by (metis prod.collapse)
    then show ?thesis
      using that True by (auto simp: put_add_def split_beta Let_def pending_def dest: in_remove1)
  next
    case False
    then show ?thesis
      using that by (auto simp: put_add_def split_beta Let_def pending_def dest: in_remove1)
  qed
qed (use assms(1) in \<open>simp_all add: put_add_def split_beta Let_def blob_laws_def\<close>)

lemma sound_stored:
  assumes "sound api f" "Added h \<in> set (uploads f)"
  shows "sound api (put_mark h f)"
proof (rule sound_index [OF assms(1)])
  show "tables_inv (base (put_mark h f))"
    using assms(1) by (simp add: sound_def put_mark_def tables_inv_mark)
qed (use assms(2) in \<open>auto simp: put_mark_def pending_def dest: in_remove1\<close>)

lemma fine_step_sound:
  assumes "env_laws env" "fine_step env collector_waits f g" "sound (env_api env) f"
  shows "sound (env_api env) g"
  using assms(2)
proof cases
  case (whole req node)
  then have node: "node = snd (control_api (env_http env) (env_api env) (env_docs env) (env_psk env) req (base f))"
    by (simp add: step_http_iff)
  show ?thesis
    unfolding whole(1) node sound_def
    using assms(1,3) by (auto simp: sound_def env_laws_def control_api_keeps_bytes
        intro: control_api_tables control_api_servable)
next
  case (engine node)
  from engine(2) show ?thesis
    using engine(1) assms(3) tables_inv_store
    by (cases rule: step_store_cases(1)) (auto simp: sound_def servable_def)
next
  case (collect node)
  have prot: "h \<in> set (protect (base f) [])" if "is_tracked (content (base f)) h" for h
    by (rule protects_tracked [OF _ that]) (use assms(3) in \<open>simp add: sound_def\<close>)
  have "pending f h \<Longrightarrow> is_tracked (content (base f)) h" for h
    using collect(2) by (simp add: collector_waits_def)
  with collect(3) show ?thesis
    using collect(1) assms(3) tables_inv_store prot is_present_tracked
    by (cases rule: step_store_cases(2)) (auto simp: sound_def servable_def)
qed (use assms in \<open>auto simp: env_laws_def sound_want sound_probe sound_enter sound_mark sound_ask sound_finish
  sound_forget sound_drop sound_check sound_add sound_stored\<close>)

lemma fine_run_sound:
  "fine_run env collector_waits f g \<Longrightarrow> env_laws env \<Longrightarrow> sound (env_api env) f \<Longrightarrow> sound (env_api env) g"
  by (induction rule: fine_run.induct) (use fine_step_sound in blast)+

section \<open>Whole handlers are fine runs\<close>

lemma idle_base [simp]: "(idle node)\<lparr>base := m\<rparr> = idle m"
  by (simp add: idle_def)

lemma fine_steps2: "fine_step env ok f g \<Longrightarrow> fine_step env ok g h \<Longrightarrow> fine_run env ok f h"
  by (rule fine_run.on, assumption, rule fine_run.on, assumption, rule fine_run.here)

text \<open>The watch task on one event, from \<open>want\<close> to \<open>mark_present\<close>, beside whatever else is under way.\<close>

definition watched :: "'b blob_api \<Rightarrow> u64 \<Rightarrow> namespace_id \<Rightarrow> bytes \<Rightarrow> content_hash \<Rightarrow> endpoint_id \<Rightarrow>
    ('d, 'b) fine \<Rightarrow> ('d, 'b) fine" where
  "watched api now ns k h from f = f\<lparr>base := snd (handle_insert_remote api now ns k h from (base f))\<rparr>"

lemma watch_run:
  assumes "ns \<in> set (watchers (base f))" "watching f ns = None"
  shows "fine_run env ok f (watched (env_api env) now ns k h from f)"
proof -
  let ?api = "env_api env"
  let ?e = "received_entry now ns k from (store_has ?api (blobs (base f)) h)"
  let ?f1 = "watch_want ns k h from f"
  let ?f2 = "watch_probe ?api now ns k h from ?f1"
  let ?f3 = "watch_enter ns h ?e ?f2"
  have e: "?e = received_entry now ns k from (store_has ?api (blobs (base ?f1)) h)"
    by (simp add: watch_want_def)
  have s1: "fine_step env ok f ?f1"
    using assms by (rule fine_step.want)
  have s2: "fine_step env ok ?f1 ?f2"
    by (rule fine_step.probe) (simp add: watch_want_def)
  have s3: "fine_step env ok ?f2 ?f3"
    by (rule fine_step.enter) (simp add: watch_probe_def watch_want_def)
  have "\<exists>seen. watching ?f3 ns = Some (Entered h ?e seen)"
    by (simp add: watch_enter_def Let_def)
  then have s4: "fine_step env ok ?f3 (watch_mark ns h ?e ?f3)"
    using fine_step.mark by blast
  have "(watching f)(ns := None) = watching f"
    using assms(2) by (simp add: fun_upd_idem)
  then have "watch_mark ns h ?e ?f3 = watched ?api now ns k h from f"
    by (simp add: watch_mark_def watch_enter_def watch_probe_def watch_want_def watched_def Let_def
        handle_insert_remote_def received_entry_def split_beta)
  then show ?thesis
    using fine_run_append [OF fine_steps2 [OF s1 s2] fine_steps2 [OF s3 s4]] by simp
qed

text \<open>The sweep on one hash, beside whatever else is under way.\<close>

lemma release_run:
  assumes "dropping f = None"
  shows "fine_run env ok f (f\<lparr>base := forget_one ns h (base f)\<rparr>)"
proof -
  have s: "fine_step env ok f (sweep_forget ns h f)"
    using assms by (rule fine_step.forget)
  show ?thesis
  proof (cases "fst (Content.forget ns h (content (base f)))")
    case True
    have "fine_step env ok (sweep_forget ns h f) (sweep_drop h (sweep_forget ns h f))"
      by (rule fine_step.drop) (simp add: sweep_forget_def split_beta True)
    moreover have "sweep_drop h (sweep_forget ns h f) = f\<lparr>base := forget_one ns h (base f)\<rparr>"
      using assms by (simp add: sweep_drop_def sweep_forget_def forget_one_def split_beta True)
    ultimately show ?thesis
      using fine_steps2 [OF s] by simp
  next
    case False
    then have "sweep_forget ns h f = f\<lparr>base := forget_one ns h (base f)\<rparr>"
      using assms by (simp add: sweep_forget_def forget_one_def split_beta)
    then show ?thesis
      using fine_run.on [OF s fine_run.here] by simp
  qed
qed

lemma settle_run:
  assumes "settling f = None"
  shows "fine_run env ok f (f\<lparr>base := snd (settle_entry (env_api env) (env_net env) now h e (base f))\<rparr>)"
proof -
  let ?p = "fst (settle_probe (env_api env) (env_net env) now h e (blobs (base f)))"
  let ?f1 = "settle_ask (env_api env) (env_net env) now h e f"
  have s1: "fine_step env ok f ?f1"
    using assms by (rule fine_step.ask)
  have s2: "fine_step env ok ?f1 (settle_finish now h e ?p ?f1)"
    by (rule fine_step.finish) (simp add: settle_ask_def split_beta)
  have "settle_finish now h e ?p ?f1 = f\<lparr>base := snd (settle_entry (env_api env) (env_net env) now h e (base f))\<rparr>"
    using assms by (simp add: settle_finish_def settle_ask_def settle_entry_def split_beta)
  then show ?thesis
    using fine_steps2 [OF s1 s2] by simp
qed

lemma step_fine:
  assumes "step env l n m"
  shows "fine_run env collector_waits (idle n) (idle m)"
  using assms
proof cases
  case (http req)
  have "fine_step env collector_waits (idle n) ((idle n)\<lparr>base := m\<rparr>)"
    by (rule fine_step.whole) (use assms http in simp)
  then show ?thesis
    using fine_run.on fine_run.here by fastforce
next
  case (receive ns now k h "from")
  then show ?thesis
    using watch_run [of ns "idle n" env collector_waits now k h "from"] by (simp add: watched_def)
next
  case (settle now h e)
  then show ?thesis
    using settle_run [of "idle n" env collector_waits now h e] by simp
next
  case (release ns h)
  then show ?thesis
    using release_run [of "idle n" env collector_waits ns h] by simp
next
  case (engine store)
  have "fine_step env collector_waits (idle n) ((idle n)\<lparr>base := m\<rparr>)"
    by (rule fine_step.engine) (use assms engine in simp)
  then show ?thesis
    using fine_run.on fine_run.here by fastforce
next
  case (collect store)
  have "fine_step env collector_waits (idle n) ((idle n)\<lparr>base := m\<rparr>)"
    by (rule fine_step.collect) (use assms collect in simp_all)
  then show ?thesis
    using fine_run.on fine_run.here by fastforce
qed

lemma run_fine: "run env ls n m \<Longrightarrow> fine_run env collector_waits (idle n) (idle m)"
  by (induction rule: run.induct) (use step_fine fine_run_append fine_run.here in blast)+

section \<open>Two races\<close>

text \<open>The sweep gives up the index before it takes the table; a watch task may run in between.\<close>

lemma lost_entry_run:
  assumes "fst (Content.forget ns h (content node))" "ns' \<in> set (watchers node)"
  shows "\<exists>g. fine_run env ok (idle node) (idle g) \<and>
    content g = (if store_has (env_api env) (blobs node) h
      then mark_present h (want ns' h (snd (Content.forget ns h (content node))))
      else want ns' h (snd (Content.forget ns h (content node)))) \<and>
    hm_get (tracked g) h = None \<and> blobs g = blobs node"
proof -
  let ?f1 = "sweep_forget ns h (idle node)"
  let ?f2 = "watched (env_api env) 0 ns' [] h [] ?f1"
  have f1: "?f1 = (idle node)\<lparr>base := node\<lparr>content := snd (Content.forget ns h (content node))\<rparr>, dropping := Some h\<rparr>"
    using assms(1) by (simp add: sweep_forget_def split_beta)
  have r1: "fine_run env ok (idle node) ?f1"
    by (rule fine_run.on [OF fine_step.forget fine_run.here]) simp
  have r2: "fine_run env ok ?f1 ?f2"
    by (rule watch_run) (simp_all add: f1 assms(2))
  have s3: "fine_step env ok ?f2 (sweep_drop h ?f2)"
    by (rule fine_step.drop) (simp add: watched_def f1)
  let ?n = "snd (handle_insert_remote (env_api env) 0 ns' [] h [] (node\<lparr>content := snd (Content.forget ns h (content node))\<rparr>))"
  have "sweep_drop h ?f2 = idle (?n\<lparr>tracked := hm_remove h (tracked ?n)\<rparr>)"
    unfolding sweep_drop_def watched_def f1 by (simp add: idle_def)
  then have "fine_run env ok (idle node) (idle (?n\<lparr>tracked := hm_remove h (tracked ?n)\<rparr>))"
    using fine_run_append [OF r1 fine_run_append [OF r2 fine_run.on [OF s3 fine_run.here]]] by simp
  then show ?thesis
    by (intro exI conjI, assumption) (simp_all add: handle_insert_remote_fields)
qed

text \<open>What the settle loop does not track it never touches.\<close>

lemma settle_list_untracked:
  "hm_get (tracked node) h = None \<Longrightarrow>
   hm_get (tracked (snd (settle_list api net now xs node))) h = None \<and>
   (h, e, d) \<notin> set (fst (settle_list api net now xs node))"
proof (induction xs arbitrary: node)
  case (Cons x xs)
  have "hm_get (tracked (snd (settle_entry api net now (fst x) (snd x) node))) h = None"
    using Cons.prems by (auto simp: settle_entry_tracked)
  moreover have "(h, e, d) \<notin> set (fst (settle_entry api net now (fst x) (snd x) node))"
    using Cons.prems by (auto simp: settle_entry_wakes)
  ultimately show ?case
    using Cons.IH by (simp add: Let_def)
qed simp

lemma settle_runs_untracked:
  "hm_get (tracked node) h = None \<Longrightarrow>
   hm_get (tracked (snd (settle_runs api net nows node))) h = None \<and>
   (h, e, d) \<notin> set (fst (settle_runs api net nows node))"
proof (induction nows arbitrary: node)
  case (Cons now nows)
  then show ?case
    using settle_list_untracked [OF Cons.prems, of api net now "outstanding node"] Cons.IH
    by (simp add: settle_once_def split_beta)
qed simp

text \<open>A probe that was true when it was made.\<close>

lemma stale_probe_run:
  assumes "blob_has (env_api env) (blobs node) h = Some True"
    and "fst (Content.forget ns h (content node))" "ns \<in> set (watchers node)"
    and "\<And>x. x \<in> set (protect (forget_one ns h node) []) \<Longrightarrow> blob_get (env_api env) (blobs node) x \<noteq> None \<Longrightarrow>
      blob_get (env_api env) store x \<noteq> None"
    and "blob_has (env_api env) store h \<noteq> Some True" "hm_wf (tracked node)"
  shows "\<exists>g t. fine_run env (\<lambda>_. True) (idle node) (idle g) \<and> blobs g = store \<and> hm_wf (tracked g) \<and>
    content g = mark_present h (want ns h (snd (Content.forget ns h (content node)))) \<and>
    hm_get (tracked g) h = Some t \<and> content_present t \<and> woken t"
proof -
  let ?api = "env_api env"
  let ?f2 = "(idle node)\<lparr>base := forget_one ns h node, settling := Some (0, h, blank, True)\<rparr>"
  let ?f3 = "?f2\<lparr>base := (forget_one ns h node)\<lparr>blobs := store\<rparr>\<rparr>"
  let ?n4 = "snd (handle_insert_remote ?api 0 ns [] h [] ((forget_one ns h node)\<lparr>blobs := store\<rparr>))"
  have "settle_ask ?api (env_net env) 0 h blank (idle node) = (idle node)\<lparr>settling := Some (0, h, blank, True)\<rparr>"
    using assms(1) by (simp add: settle_ask_def settle_probe_def store_has_iff)
  then have s1: "fine_step env (\<lambda>_. True) (idle node) ((idle node)\<lparr>settling := Some (0, h, blank, True)\<rparr>)"
    using fine_step.ask [of "idle node" env "\<lambda>_. True" 0 h blank] by simp
  have r2: "fine_run env (\<lambda>_. True) ((idle node)\<lparr>settling := Some (0, h, blank, True)\<rparr>) ?f2"
    using release_run [of "(idle node)\<lparr>settling := Some (0, h, blank, True)\<rparr>" env "\<lambda>_. True" ns h]
    by (simp add: idle_def)
  have "step env Collect (base ?f2) ((forget_one ns h node)\<lparr>blobs := store\<rparr>)"
    using step.collect [of "forget_one ns h node" env store] assms(4) by simp
  then have s3: "fine_step env (\<lambda>_. True) ?f2 ?f3"
    using fine_step.collect [of "\<lambda>_. True" ?f2 env] by (simp add: idle_def)
  have r4: "fine_run env (\<lambda>_. True) ?f3 (watched ?api 0 ns [] h [] ?f3)"
    by (rule watch_run) (simp_all add: assms(3) idle_def)
  have s5: "fine_step env (\<lambda>_. True) (watched ?api 0 ns [] h [] ?f3)
      (settle_finish 0 h blank True (watched ?api 0 ns [] h [] ?f3))"
    by (rule fine_step.finish) (simp add: watched_def)
  have "settle_finish 0 h blank True (watched ?api 0 ns [] h [] ?f3) = idle (snd (settle_commit 0 h blank True ?n4))"
    by (simp add: settle_finish_def watched_def idle_def)
  then have run: "fine_run env (\<lambda>_. True) (idle node) (idle (snd (settle_commit 0 h blank True ?n4)))"
    using fine_run.on [OF s1 fine_run_append [OF r2 fine_run.on [OF s3 fine_run_append [OF r4 fine_run.on [OF s5 fine_run.here]]]]]
    by simp
  have live: "hm_get (tracked ?n4) h = Some (received_entry 0 ns [] [] False)"
    using assms(2,5) by (simp add: handle_insert_remote_fields forget_one_def store_has_iff)
  then have "hm_get (tracked (snd (settle_commit 0 h blank True ?n4))) h =
      Some (settle_live 0 blank True (received_entry 0 ns [] [] False))"
    "content (snd (settle_commit 0 h blank True ?n4)) = mark_present h (content ?n4)"
    by (simp_all add: settle_commit_fields)
  moreover have "hm_wf (tracked (snd (settle_commit 0 h blank True ?n4)))"
    using assms(6) live by (simp add: settle_commit_eq) (simp add: handle_insert_remote_fields forget_one_def)
  moreover have "content ?n4 = want ns h (snd (Content.forget ns h (content node)))"
    using assms(5) by (simp add: handle_insert_remote_fields store_has_iff)
  moreover have "blobs (snd (settle_commit 0 h blank True ?n4)) = store"
    by (simp add: settle_commit_fields handle_insert_remote_fields)
  moreover have "content_present (settle_live 0 blank True (received_entry 0 ns [] [] False))"
    "woken (settle_live 0 blank True (received_entry 0 ns [] [] False))"
    by (simp_all add: settle_due_def)
  ultimately show ?thesis
    using run by metis
qed

section \<open>Properties\<close>

text \<open>
  The coarse view is a special case of the fine one: a settle pass and a sweep are fine runs from
  idle to idle, in which the collector need not run, and so is every run of \<open>Node_System\<close> that starts
  with them.
\<close>

lemma passes_are_fine_runs:
  "fine_run env collector_waits (idle node) (idle (snd (settle_once (env_api env) (env_net env) now node))) \<and>
   fine_run env collector_waits (idle node) (idle (snd (prune_once get_many order now node)))"
  using passes_are_runs [of env node now get_many order] run_fine by blast


text \<open>
  C37. A hash can be lost between two locks. If the sweep drops the last reference to a hash and a
  watch task records a new entry with it before the sweep takes the table, the removal hits the new
  entry: the hash is referenced and missing with all tasks idle, and no number of settle passes
  fetches it or wakes anyone.
\<close>

theorem race_loses_entry:
  assumes "node_inv node" "ns' \<in> set (watchers node)" "is_tracked_for (content node) ns h"
    and "\<forall>n. is_tracked_for (content node) n h \<longrightarrow> n = ns" "\<not> store_has (env_api env) (blobs node) h"
  shows "\<exists>g. fine_run env collector_waits (idle node) (idle g) \<and>
    is_tracked_for (content g) ns' h \<and> \<not> is_present (content g) h \<and>
    (\<forall>nows e d. (h, e, d) \<notin> set (fst (settle_runs (env_api env) (env_net env) nows g)) \<and>
      hm_get (tracked (snd (settle_runs (env_api env) (env_net env) nows g))) h = None)"
proof -
  note wf = index_invD(2) [OF node_invD(1) [OF assms(1)]]
  have last: "fst (Content.forget ns h (content node))"
    unfolding forget_simps(2) [OF wf] using assms(3,4) by blast
  obtain g where g: "fine_run env collector_waits (idle node) (idle g)"
      "content g = want ns' h (snd (Content.forget ns h (content node)))" "hm_get (tracked g) h = None"
    using lost_entry_run [OF last assms(2), of env collector_waits] assms(5) by auto
  then show ?thesis
    using settle_runs_untracked [OF g(3)] last
    by (intro exI [of _ g]) (simp add: forget_simps(1,4) [OF wf])
qed

text \<open>
  C38. Old news can hide a missing hash. If the settle loop has seen the bytes of a hash, and before it
  commits the hash is released, collected and referenced anew, then all tasks idle again the hash
  counts as present and woken for, a read of it fails, and no settle pass looks at it any more.
\<close>

theorem stale_probe_hides_missing_bytes:
  assumes "node_inv node" "ns \<in> set (watchers node)" "is_tracked_for (content node) ns h"
    and "\<forall>n. is_tracked_for (content node) n h \<longrightarrow> n = ns"
    and "blob_has (env_api env) (blobs node) h = Some True"
    and "\<forall>x. x \<noteq> h \<and> blob_get (env_api env) (blobs node) x \<noteq> None \<longrightarrow> blob_get (env_api env) store x \<noteq> None"
    and "blob_has (env_api env) store h \<noteq> Some True" "blob_get (env_api env) store h = None"
  shows "\<exists>g. fine_run env (\<lambda>_. True) (idle node) (idle g) \<and>
    is_present_for (content g) ns h \<and> content_bytes (env_api env) g ns h = None \<and>
    h \<notin> fst ` set (outstanding g)"
proof -
  note wf = index_invD(2) [OF node_invD(1) [OF assms(1)]]
  have last: "fst (Content.forget ns h (content node))"
    unfolding forget_simps(2) [OF wf] using assms(3,4) by blast
  have "h \<notin> set (protect (forget_one ns h node) [])"
  proof -
    have "\<not> is_tracked_for (content (forget_one ns h node)) n h" for n
      using assms(4) by (simp add: forget_one_def forget_simps(1) [OF wf])
    then show ?thesis
      unfolding protect_set [OF forget_one_inv [OF assms(1)]] by simp
  qed
  then have kept: "blob_get (env_api env) store x \<noteq> None"
    if "x \<in> set (protect (forget_one ns h node) [])" "blob_get (env_api env) (blobs node) x \<noteq> None" for x
    using that(2) assms(6) \<open>h \<notin> set (protect (forget_one ns h node) [])\<close> that(1) by metis
  obtain g t where g: "fine_run env (\<lambda>_. True) (idle node) (idle g)" "blobs g = store"
      "content g = mark_present h (want ns h (snd (Content.forget ns h (content node))))"
      "hm_get (tracked g) h = Some t" "content_present t" "hm_wf (tracked g)"
    using stale_probe_run [OF assms(5) last assms(2) kept assms(7) node_invD(4) [OF assms(1)]] by blast
  have "h \<notin> fst ` set (outstanding g)"
    using g(4,5) by (auto simp: outstanding_def hm.look_entries [OF g(6), symmetric])
  moreover have "is_present_for (content g) ns h"
    by (simp add: g(3) is_present_for_iff)
  moreover have "content_bytes (env_api env) g ns h = None"
    using assms(8) by (simp add: content_bytes_def g(2))
  ultimately show ?thesis
    using g(1) by blast
qed

section \<open>Witnesses\<close>

lemma race_env: "env_api (trail_env None) = memory_store" "env_laws (trail_env None)"
  by (simp_all add: trail_env_fields trail_env_laws)


lemma race_entry_tracked: "is_tracked_for (content one_entry_node) n h \<longleftrightarrow> n = [1] \<and> h = [9]"
  by (simp add: one_entry_node_def)

lemma one_entry_watchers: "watchers one_entry_node = [[1]]" "blobs one_entry_node = []"
  by (simp_all add: one_entry_node_def)

theorem race_loses_entry_witness:
  "\<exists>g. fine_run (trail_env None) collector_waits (idle one_entry_node) (idle g) \<and>
    is_tracked_for (content g) [1] [9] \<and> \<not> is_present (content g) [9] \<and>
    (\<forall>nows e d. ([9], e, d) \<notin> set (fst (settle_runs (env_api (trail_env None)) (env_net (trail_env None)) nows g)) \<and>
      hm_get (tracked (snd (settle_runs (env_api (trail_env None)) (env_net (trail_env None)) nows g))) [9] = None)"
  by (rule race_loses_entry [OF one_entry_inv, where ns = "[1]"])
    (simp_all add: race_entry_tracked one_entry_watchers race_env(1) store_has_def memory_store_def)

theorem stale_probe_hides_missing_bytes_witness:
  "\<exists>g. fine_run (trail_env None) (\<lambda>_. True) (idle filled_node) (idle g) \<and>
    is_present_for (content g) [1] [9] \<and> content_bytes (env_api (trail_env None)) g [1] [9] = None \<and>
    [9] \<notin> fst ` set (outstanding g)"
  by (rule stale_probe_hides_missing_bytes [OF filled_inv, where store = "[]"])
    (simp_all add: filled_simps race_entry_tracked race_env(1), simp_all add: filled_node_def one_entry_watchers memory_store_def)

end
