(* ===== verification/Node_Types.thy ===== *)
theory Node_Types
  imports Node_System
begin

text \<open>
  Type soundness. Namespaces, content hashes and endpoint ids are \<open>[u8; 32]\<close> in the code and byte
  lists in the model; the author of an entry is a \<open>Vec<u8>\<close> of any length. The lemmas show that every
  run whose inputs are of these types keeps all tables of the node in them.
\<close>

definition id32 :: "bytes \<Rightarrow> bool" where
  "id32 b \<longleftrightarrow> length b = 32"

definition typed_entry :: "tracked_entry \<Rightarrow> bool" where
  "typed_entry t \<longleftrightarrow> id32 (entry_namespace t) \<and> id32 (delivered_by t)"

definition typed_node :: "('d, 'b) stash_node \<Rightarrow> bool" where
  "typed_node node \<longleftrightarrow>
     (\<forall>ns. is_known (registry node) ns \<longrightarrow> id32 ns) \<and>
     (\<forall>ns. hm_get (handles node) ns \<noteq> None \<longrightarrow> id32 ns) \<and>
     (\<forall>ns \<in> set (watchers node). id32 ns) \<and>
     (\<forall>ns h. is_tracked_for (content node) ns h \<longrightarrow> id32 ns \<and> id32 h) \<and>
     (\<forall>h t. hm_get (tracked node) h = Some t \<longrightarrow> id32 h \<and> typed_entry t)"

text \<open>What the parsers of iroh give and what arrives from the network.\<close>

definition typed_env :: "('d, 'b) env \<Rightarrow> bool" where
  "typed_env env \<longleftrightarrow>
     (\<forall>t ns. parse_ticket (env_docs env) t = Ok ns \<longrightarrow> id32 ns) \<and>
     (\<forall>b e. endpoint_from_bytes (env_net env) b = Some e \<longrightarrow> id32 e)"

fun typed_label :: "label \<Rightarrow> bool" where
  "typed_label (Record now ns k h from) \<longleftrightarrow> id32 h \<and> id32 from"
| "typed_label _ \<longleftrightarrow> True"

lemma typed_nodeD:
  assumes "typed_node node"
  shows "is_known (registry node) ns \<Longrightarrow> id32 ns" "hm_get (handles node) ns \<noteq> None \<Longrightarrow> id32 ns"
    "ns \<in> set (watchers node) \<Longrightarrow> id32 ns" "is_tracked_for (content node) ns h \<Longrightarrow> id32 ns"
    "is_tracked_for (content node) ns h \<Longrightarrow> id32 h" "hm_get (tracked node) h = Some t \<Longrightarrow> id32 h"
    "hm_get (tracked node) h = Some t \<Longrightarrow> typed_entry t"
  using assms unfolding typed_node_def by blast+

lemma typed_nodeI:
  assumes "\<And>ns. is_known (registry node) ns \<Longrightarrow> id32 ns" "\<And>ns. hm_get (handles node) ns \<noteq> None \<Longrightarrow> id32 ns"
    "\<And>ns. ns \<in> set (watchers node) \<Longrightarrow> id32 ns" "\<And>ns h. is_tracked_for (content node) ns h \<Longrightarrow> id32 ns \<and> id32 h"
    "\<And>h t. hm_get (tracked node) h = Some t \<Longrightarrow> id32 h \<and> typed_entry t"
  shows "typed_node node"
  using assms unfolding typed_node_def by blast

lemma typed_cong:
  assumes "typed_node node" "registry m = registry node" "handles m = handles node" "watchers m = watchers node"
    "tracked m = tracked node" "\<And>ns h. is_tracked_for (content m) ns h \<Longrightarrow> is_tracked_for (content node) ns h"
  shows "typed_node m"
  using assms unfolding typed_node_def by metis

lemma typed_register:
  assumes "typed_node node" "\<And>ns. parse_ticket docs t = Ok ns \<Longrightarrow> id32 ns"
  shows "typed_node (snd (node_register docs t sub node))"
proof -
  have fin: "typed_node (finish_register ns sub m)" if "typed_node m" "id32 ns" for ns and m :: "('a, 'b) stash_node"
    by (rule typed_nodeI)
      (use that typed_nodeD [OF that(1)] in \<open>auto simp: finish_register_fields split: if_splits\<close>)
  have handle: "typed_node (node\<lparr>handles := hm_insert ns doc (handles node)\<rparr>)" if "id32 ns" for ns doc
    by (rule typed_nodeI) (use that typed_nodeD [OF assms(1)] in \<open>auto split: if_splits\<close>)
  show ?thesis
    by (cases rule: node_register_cases [of docs t sub node]) (use assms fin handle in auto)
qed

lemma typed_unsubscribe:
  assumes "typed_node node"
  shows "typed_node (snd (node_unsubscribe ns sub node))"
  by (rule typed_nodeI) (use typed_nodeD [OF assms] in \<open>auto simp: node_unsubscribe_def split_beta\<close>)

lemma typed_put:
  assumes "typed_node node"
  shows "typed_node (snd (put_content api ns h b node))"
  by (cases rule: put_content_cases [of api ns h b node])
    (use assms in \<open>auto intro!: typed_cong [OF assms]\<close>)

lemma typed_http:
  assumes "typed_node node" "\<And>t ns. parse_ticket docs t = Ok ns \<Longrightarrow> id32 ns"
  shows "typed_node (snd (control_api http api docs secret req node))"
  using assms typed_register [OF assms] typed_unsubscribe [OF assms(1)] typed_put [OF assms(1)]
  by (auto simp: control_api_def psk_guard_def v1_run_def register_handler_def put_content_handler_def
      unsubscribe_handler_def split_beta
      split: option.split route.split http_method.split sum.split)

lemma typed_receive:
  assumes "typed_node node" "id32 ns" "id32 h" "id32 from"
  shows "typed_node (snd (handle_insert_remote api now ns k h from node))"
proof (rule typed_nodeI)
  show "id32 x \<and> typed_entry t" if "hm_get (tracked (snd (handle_insert_remote api now ns k h from node))) x = Some t" for x t
    using that typed_nodeD(6,7) [OF assms(1)] assms(2-4)
    by (cases "hm_get (tracked node) x")
      (auto simp: handle_insert_remote_fields typed_entry_def received_entry_def split: if_splits)
qed (use assms typed_nodeD [OF assms(1)] in \<open>auto simp: handle_insert_remote_fields split: if_splits\<close>)

lemma typed_settle:
  assumes "typed_node node"
  shows "typed_node (snd (settle_entry api net now h e node))"
proof (rule typed_nodeI)
  show "id32 x \<and> typed_entry t" if "hm_get (tracked (snd (settle_entry api net now h e node))) x = Some t" for x t
  proof (cases "hm_get (tracked node) x")
    case (Some u)
    have "delivered_by (settle_live now e p u) = delivered_by u" for p
      by (simp add: settle_live_def settle_retry_def Let_def)
    then show ?thesis
      using that Some typed_nodeD(6,7) [OF assms Some]
      by (auto simp: settle_entry_tracked typed_entry_def split: if_splits)
  qed (use that in \<open>auto simp: settle_entry_tracked split: if_splits\<close>)
qed (use typed_nodeD [OF assms] in \<open>auto simp: settle_entry_eq settle_commit_fields split: if_splits\<close>)

lemma typed_release:
  assumes "node_inv node" "typed_node node"
  shows "typed_node (forget_one ns h node)"
proof (rule typed_nodeI)
  note wf = index_invD(2) [OF node_invD(1) [OF assms(1)]]
  show "id32 n \<and> id32 x" if "is_tracked_for (content (forget_one ns h node)) n x" for n x
    using that typed_nodeD(4,5) [OF assms(2), of n x] by (simp add: forget_one_def forget_simps(1) [OF wf])
  show "id32 x \<and> typed_entry t" if "hm_get (tracked (forget_one ns h node)) x = Some t" for x t
    using that typed_nodeD(6,7) [OF assms(2), of x t] by (auto simp: forget_one_def split: if_splits)
qed (use typed_nodeD [OF assms(2)] in simp_all)

lemma fetch_sources_set:
  "s \<in> set (fetch_sources net t) \<longleftrightarrow>
     s = delivered_by t \<or> length (entry_author t) = 32 \<and> endpoint_from_bytes net (entry_author t) = Some s"
proof -
  consider (none) "fetch_sources net t = [delivered_by t]"
      "length (entry_author t) = 32 \<Longrightarrow> \<forall>a. endpoint_from_bytes net (entry_author t) = Some a \<longrightarrow> a = delivered_by t"
    | (author) a where "fetch_sources net t = [delivered_by t, a]" "length (entry_author t) = 32"
      "endpoint_from_bytes net (entry_author t) = Some a"
  proof (cases "length (entry_author t) = 32 \<and>
      (\<exists>a. endpoint_from_bytes net (entry_author t) = Some a \<and> a \<noteq> delivered_by t)")
    case True
    then obtain a where "endpoint_from_bytes net (entry_author t) = Some a" "a \<noteq> delivered_by t" by blast
    with True show thesis by (intro author [of a]) (simp_all add: fetch_sources_def)
  next
    case False
    then have "fetch_sources net t = [delivered_by t]"
      by (simp add: fetch_sources_def split: option.split)
    with False show thesis by (intro none) auto
  qed
  then show ?thesis
    by cases auto
qed

lemma step_typed:
  assumes "typed_env env" "step env l node m" "typed_label l" "node_inv node" "typed_node node"
  shows "typed_node m"
  using assms(2)
proof cases
  case (http req)
  then show ?thesis
    using assms(1,5) typed_http [of node "env_docs env"] by (simp add: typed_env_def)
next
  case (receive ns now k h "from")
  then show ?thesis
    using assms(3) by (auto intro!: typed_receive [OF assms(5)] typed_nodeD(3) [OF assms(5)])
qed (use assms(4,5) in \<open>auto intro: typed_settle typed_release typed_cong\<close>)

lemma run_typed:
  assumes "env_laws env" "typed_env env" "run env ls node m" "\<forall>l \<in> set ls. typed_label l"
    "node_inv node" "servable (env_api env) node" "typed_node node"
  shows "typed_node m"
  using assms(3-7)
proof (induction rule: run.induct)
  case (more l node node1 ls node2)
  have "node_inv node1 \<and> servable (env_api env) node1"
    by (rule step_inv [OF assms(1) more.hyps(1) more.prems(2,3)])
  moreover have "typed_node node1"
    by (rule step_typed [OF assms(2) more.hyps(1)]) (use more.prems in simp_all)
  ultimately show ?case
    using more.IH more.prems(1) by simp
qed simp

section \<open>Properties\<close>


section \<open>Witnesses\<close>

text \<open>The environment of \<open>Node_System\<close> with parsers that give 32 bytes only.\<close>

definition strict_env :: "(unit, (content_hash, bytes) hmap) env" where
  "strict_env = (trail_env None)
     \<lparr>env_docs := memory_docs\<lparr>parse_ticket := \<lambda>t. if length t = 32 then Ok (as_bytes t) else Err ''length''\<rparr>,
      env_net := silent_net\<lparr>endpoint_from_bytes := \<lambda>b. if length b = 32 then Some b else None\<rparr>\<rparr>"

lemma strict_env_laws: "env_laws strict_env" "typed_env strict_env"
  using memory_store_laws
  by (auto simp: env_laws_def typed_env_def strict_env_def trail_env_def net_laws_def silent_net_def id32_def
      split: if_splits)

definition strict_node :: "(unit, (content_hash, bytes) hmap) stash_node" where
  "strict_node = finish_register trail_ns None (spawn (from_hours 1) []\<lparr>handles := [(trail_ns, ())]\<rparr>)"

lemma strict_post: "step strict_env (Http post_namespace) (spawn (from_hours 1) []) strict_node"
proof -
  have valid: "validate_register \<lparr>read_ticket = trail_ticket, push_token = None, req_platform = None\<rparr> =
      Ok \<lparr>valid_ticket = trail_ticket, subscription = None\<rparr>"
    using trail_valid by (simp add: validate_register_def trail_trim Let_def split: if_splits)
  have "node_register (env_docs strict_env) trail_ticket None (spawn (from_hours 1) []) = (Ok trail_ns, strict_node)"
    by (simp add: node_register_def strict_env_def trail_env_def memory_docs_def strict_node_def trail_ticket_def
        trail_ns_def hm_insert_def chr_byte_def as_bytes_def)
  then show ?thesis
    using valid by (simp add: step_http_iff strict_env_def trail_env_def control_api_def post_namespace_def
        v1_route_path psk_guard_def v1_run_def register_handler_def)
qed


end
