(* ===== verification/Node_Locks.thy ===== *)
theory Node_Locks
  imports Prelude
begin

text \<open>
  The locks of \<open>StashNode\<close>. The state of \<open>rust/src/node.rs\<close> is behind four mutexes: \<open>handles\<close> and
  \<open>tracked\<close> (of tokio, which may be held across an \<open>await\<close>), \<open>content\<close> and the registry's (of the
  standard library, which must not be). This theory follows what every operation does to them, on
  every path, and shows that any number of operations running at once neither deadlock nor hold a
  standard mutex where they wait. The critical sections it delimits are the atomic steps of
  \<open>Node_System\<close> and \<open>Node_Race\<close>.
\<close>

datatype lock = HandlesLock | TrackedLock | ContentLock | RegistryLock

text \<open>\<open>Await\<close> is any wait other than for a lock: for the store, the docs engine or a download.\<close>

datatype lock_action = Acquire lock | Release lock | Await

section \<open>The operations\<close>

text \<open>A critical section of a standard mutex: a method of the index or of the registry.\<close>

definition section_of :: "lock \<Rightarrow> lock_action list" where
  "section_of l = [Acquire l, Release l]"

text \<open>How far a registration gets; the first two leave before or without an import.\<close>

datatype register_path = BadTicket | HandleThere | ImportFails | SyncFails | Imported

definition register_actions :: "register_path \<Rightarrow> lock_action list" where
  "register_actions p =
     (case p of
        BadTicket \<Rightarrow> []
      | HandleThere \<Rightarrow> [Acquire HandlesLock, Release HandlesLock] @ section_of RegistryLock
      | ImportFails \<Rightarrow> [Acquire HandlesLock, Await, Release HandlesLock]
      | SyncFails \<Rightarrow> [Acquire HandlesLock, Await, Await, Release HandlesLock]
      | Imported \<Rightarrow> [Acquire HandlesLock, Await, Await, Release HandlesLock] @ section_of RegistryLock)"

definition content_stats_actions :: "lock_action list" where
  "content_stats_actions = section_of ContentLock"

definition content_bytes_actions :: "bool \<Rightarrow> lock_action list" where
  "content_bytes_actions present = section_of ContentLock @ (if present then [Await] else [])"

datatype put_path = NotKnown | NotTracked | WrongBytes | AddFails | PutStored

definition put_content_actions :: "put_path \<Rightarrow> lock_action list" where
  "put_content_actions p =
     section_of RegistryLock @
     (case p of
        NotKnown \<Rightarrow> []
      | NotTracked \<Rightarrow> section_of ContentLock
      | WrongBytes \<Rightarrow> section_of ContentLock
      | AddFails \<Rightarrow> section_of ContentLock @ [Await]
      | PutStored \<Rightarrow> section_of ContentLock @ [Await] @ section_of ContentLock)"

definition handle_actions :: "lock_action list" where
  "handle_actions = [Acquire HandlesLock, Release HandlesLock]"

definition sync_now_actions :: "bool \<Rightarrow> lock_action list" where
  "sync_now_actions found = handle_actions @ (if found then [Await] else [])"

text \<open>A wake reads the bytes unless it is degraded, and looks up its targets if it is admitted.\<close>

definition wake_for_actions :: "bool \<Rightarrow> bool \<Rightarrow> lock_action list" where
  "wake_for_actions degraded admitted =
     (if degraded then [] else [Await]) @ (if admitted then section_of RegistryLock else [])"

text \<open>One record: the wake, if the record is due for one, comes with its verdict of admission.\<close>

definition watch_actions :: "bool \<Rightarrow> bool option \<Rightarrow> lock_action list" where
  "watch_actions present ready =
     section_of ContentLock @ [Await] @ [Acquire TrackedLock, Release TrackedLock] @
     (if present then section_of ContentLock else []) @
     (case ready of None \<Rightarrow> [] | Some admitted \<Rightarrow> wake_for_actions False admitted)"

text \<open>
  One entry of a pass: whether it is fetched, whether it is still tracked, and whether its bytes are
  there. \<open>mark_present\<close> is called with \<open>tracked\<close> held.
\<close>

definition settle_entry_actions :: "bool \<times> bool \<times> bool \<Rightarrow> lock_action list" where
  "settle_entry_actions = (\<lambda>(fetched, live, present).
     [Await] @ (if fetched then [Await] else []) @
     [Acquire TrackedLock] @ (if live \<and> present then section_of ContentLock else []) @ [Release TrackedLock])"

definition settle_once_actions :: "(bool \<times> bool \<times> bool) list \<Rightarrow> lock_action list" where
  "settle_once_actions paths =
     [Acquire TrackedLock, Release TrackedLock] @ concat (map settle_entry_actions paths)"

definition settle_tick_actions :: "(bool \<times> bool \<times> bool) list \<Rightarrow> (bool \<times> bool) list \<Rightarrow> lock_action list" where
  "settle_tick_actions paths wakes =
     settle_once_actions paths @ concat (map (\<lambda>(degraded, admitted). wake_for_actions degraded admitted) wakes)"

text \<open>
  One hash of a sweep, and one namespace: without a handle, with a query that fails after some
  waits, or with one that ends and a list of hashes to forget, each with whether it was the last reference.
\<close>

definition forget_actions :: "bool \<Rightarrow> lock_action list" where
  "forget_actions last_reference =
     section_of ContentLock @ (if last_reference then [Acquire TrackedLock, Release TrackedLock] else [])"

datatype namespace_path = NoHandle | QueryFails nat | Swept nat "bool list"

fun sweep_actions :: "namespace_path list \<Rightarrow> lock_action list" where
  "sweep_actions [] = content_stats_actions"
| "sweep_actions (NoHandle # paths) = handle_actions @ sweep_actions paths"
| "sweep_actions (QueryFails waits # paths) = handle_actions @ Await # replicate waits Await"
| "sweep_actions (Swept waits lasts # paths) =
     handle_actions @ Await # replicate waits Await @ concat (map forget_actions lasts) @ sweep_actions paths"

definition prune_once_actions :: "namespace_path list \<Rightarrow> lock_action list" where
  "prune_once_actions paths = section_of RegistryLock @ sweep_actions paths"

text \<open>The collector's callback holds the index while it fills the live set.\<close>

definition protect_actions :: "lock_action list" where
  "protect_actions = section_of ContentLock"

definition unsubscribe_actions :: "lock_action list" where
  "unsubscribe_actions = section_of RegistryLock"

text \<open>Whatever any task of the process does.\<close>

datatype operation =
    OpRegister register_path
  | OpUnsubscribe
  | OpGet bool
  | OpPut put_path
  | OpHealth
  | OpSyncNow bool
  | OpRecord bool "bool option"
  | OpSettle "(bool \<times> bool \<times> bool) list" "(bool \<times> bool) list"
  | OpPrune "namespace_path list"
  | OpProtect

fun actions :: "operation \<Rightarrow> lock_action list" where
  "actions (OpRegister p) = register_actions p"
| "actions OpUnsubscribe = unsubscribe_actions"
| "actions (OpGet present) = content_bytes_actions present"
| "actions (OpPut p) = put_content_actions p"
| "actions OpHealth = content_stats_actions"
| "actions (OpSyncNow found) = sync_now_actions found"
| "actions (OpRecord present ready) = watch_actions present ready"
| "actions (OpSettle paths wakes) = settle_tick_actions paths wakes"
| "actions (OpPrune paths) = prune_once_actions paths"
| "actions OpProtect = protect_actions"

section \<open>The discipline\<close>

text \<open>
  Locks are taken in one order, only held locks are given back, all of them before the end, and at
  a wait nothing is held but \<open>handles\<close>.
\<close>

fun lock_rank :: "lock \<Rightarrow> nat" where
  "lock_rank HandlesLock = 0"
| "lock_rank TrackedLock = 1"
| "lock_rank ContentLock = 2"
| "lock_rank RegistryLock = 3"

fun disciplined :: "lock set \<Rightarrow> lock_action list \<Rightarrow> bool" where
  "disciplined held [] \<longleftrightarrow> held = {}"
| "disciplined held (Acquire l # rest) \<longleftrightarrow> (\<forall>k \<in> held. lock_rank k < lock_rank l) \<and> disciplined (insert l held) rest"
| "disciplined held (Release l # rest) \<longleftrightarrow> l \<in> held \<and> disciplined (held - {l}) rest"
| "disciplined held (Await # rest) \<longleftrightarrow> held \<subseteq> {HandlesLock} \<and> disciplined held rest"

named_theorems action_defs

lemmas [action_defs] = section_of_def register_actions_def content_stats_actions_def content_bytes_actions_def
  put_content_actions_def handle_actions_def sync_now_actions_def wake_for_actions_def watch_actions_def
  settle_entry_actions_def settle_once_actions_def settle_tick_actions_def forget_actions_def
  prune_once_actions_def protect_actions_def unsubscribe_actions_def

lemma disciplined_append: "disciplined held xs \<Longrightarrow> disciplined {} ys \<Longrightarrow> disciplined held (xs @ ys)"
  by (induction held xs rule: disciplined.induct) simp_all

lemma disciplined_concat: "(\<And>xs. xs \<in> set xss \<Longrightarrow> disciplined {} xs) \<Longrightarrow> disciplined {} (concat xss)"
  by (induction xss) (simp_all add: disciplined_append)

lemma disciplined_waits: "disciplined {} (replicate n Await)"
  by (induction n) simp_all

lemma sweep_disciplined: "disciplined {} (sweep_actions paths)"
proof (induction paths rule: sweep_actions.induct)
  case (4 waits lasts paths)
  have "disciplined {} (concat (map forget_actions lasts))"
    by (rule disciplined_concat) (auto simp: action_defs)
  then have "disciplined {} (replicate waits Await @ concat (map forget_actions lasts) @ sweep_actions paths)"
    using "4.IH" by (intro disciplined_append disciplined_waits)
  then show ?case
    by (simp add: action_defs)
qed (simp_all add: action_defs disciplined_waits)

lemma settle_disciplined: "disciplined {} (settle_tick_actions paths wakes)"
proof -
  have "disciplined {} (concat (map settle_entry_actions paths))"
    by (rule disciplined_concat) (auto simp: action_defs split: if_splits)
  moreover have "disciplined {} (concat (map (\<lambda>(degraded, admitted). wake_for_actions degraded admitted) wakes))"
    by (rule disciplined_concat) (auto simp: action_defs split: if_splits)
  ultimately show ?thesis
    by (simp add: settle_tick_actions_def settle_once_actions_def disciplined_append)
qed

lemma actions_disciplined: "disciplined {} (actions op)"
proof (cases op)
  case (OpPrune paths)
  then show ?thesis
    using sweep_disciplined by (simp add: action_defs)
next
  case (OpSettle paths wakes)
  then show ?thesis
    using settle_disciplined by simp
next
  case (OpRecord present ready)
  then show ?thesis
    by (cases ready) (simp_all add: action_defs)
qed (auto simp: action_defs split: register_path.split put_path.split)

section \<open>Tasks running at once\<close>

text \<open>
  Any number of tasks, each with what is left of its operation; a mutex has at most one owner. A task
  blocked on a mutex cannot act.
\<close>

record tasks =
  left :: "nat \<Rightarrow> lock_action list"
  owner :: "lock \<Rightarrow> nat option"

definition no_tasks :: tasks where
  "no_tasks = \<lparr>left = \<lambda>_. [], owner = \<lambda>_. None\<rparr>"

definition act :: "nat \<Rightarrow> tasks \<Rightarrow> tasks option" where
  "act t s =
     (case left s t of
        [] \<Rightarrow> None
      | Acquire l # rest \<Rightarrow>
          if owner s l = None
          then Some (s\<lparr>left := (left s)(t := rest), owner := (owner s)(l := Some t)\<rparr>) else None
      | Release l # rest \<Rightarrow>
          if owner s l = Some t
          then Some (s\<lparr>left := (left s)(t := rest), owner := (owner s)(l := None)\<rparr>) else None
      | Await # rest \<Rightarrow> Some (s\<lparr>left := (left s)(t := rest)\<rparr>))"

fun acts :: "nat list \<Rightarrow> tasks \<Rightarrow> tasks option" where
  "acts [] s = Some s"
| "acts (t # ts) s = (case act t s of None \<Rightarrow> None | Some s' \<Rightarrow> acts ts s')"

inductive tasks_reach :: "tasks \<Rightarrow> bool" where
  none: "tasks_reach no_tasks"
| begins: "tasks_reach s \<Longrightarrow> left s t = [] \<Longrightarrow> tasks_reach (s\<lparr>left := (left s)(t := actions op)\<rparr>)"
| acts: "tasks_reach s \<Longrightarrow> act t s = Some s' \<Longrightarrow> tasks_reach s'"

definition holds :: "tasks \<Rightarrow> nat \<Rightarrow> lock set" where
  "holds s t = {l. owner s l = Some t}"

definition busy :: "tasks \<Rightarrow> nat set" where
  "busy s = {t. left s t \<noteq> []}"

definition work :: "tasks \<Rightarrow> nat" where
  "work s = (\<Sum>t \<in> busy s. length (left s t))"

definition tasks_inv :: "tasks \<Rightarrow> bool" where
  "tasks_inv s \<longleftrightarrow> finite (busy s) \<and> (\<forall>t. disciplined (holds s t) (left s t))"

lemma act_cases:
  assumes "act t s = Some s'"
  obtains (acquire) l rest where "left s t = Acquire l # rest" "owner s l = None"
      "s' = s\<lparr>left := (left s)(t := rest), owner := (owner s)(l := Some t)\<rparr>"
    | (release) l rest where "left s t = Release l # rest" "owner s l = Some t"
      "s' = s\<lparr>left := (left s)(t := rest), owner := (owner s)(l := None)\<rparr>"
    | (await) rest where "left s t = Await # rest" "s' = s\<lparr>left := (left s)(t := rest)\<rparr>"
  using assms by (auto simp: act_def split: list.splits lock_action.splits if_splits)

lemma act_left:
  assumes "act t s = Some s'"
  shows "\<exists>a. left s t = a # left s' t" "u \<noteq> t \<Longrightarrow> left s' u = left s u"
  using assms by (cases rule: act_cases; auto)+

lemma act_inv:
  assumes "act t s = Some s'" "tasks_inv s"
  shows "tasks_inv s'"
proof -
  have d: "disciplined (holds s u) (left s u)" for u
    using assms(2) by (simp add: tasks_inv_def)
  have "busy s' \<subseteq> busy s"
    using act_left [OF assms(1)] by (auto simp: busy_def) (metis list.distinct(1))
  then have "finite (busy s')"
    using assms(2) by (auto simp: tasks_inv_def intro: finite_subset)
  moreover have "disciplined (holds s' u) (left s' u)" for u
    using assms(1)
  proof (cases rule: act_cases)
    case (acquire l rest)
    have "holds s' t = insert l (holds s t)" "u \<noteq> t \<Longrightarrow> holds s' u = holds s u"
      using acquire(2,3) by (auto simp: holds_def)
    then show ?thesis
      using d [of t] d [of u] acquire by (cases "u = t") auto
  next
    case (release l rest)
    have "holds s' t = holds s t - {l}" "u \<noteq> t \<Longrightarrow> holds s' u = holds s u"
      using release(2,3) by (auto simp: holds_def)
    then show ?thesis
      using d [of t] d [of u] release by (cases "u = t") auto
  next
    case (await rest)
    then show ?thesis
      using d [of t] d [of u] by (cases "u = t") (auto simp: holds_def)
  qed
  ultimately show ?thesis
    by (simp add: tasks_inv_def)
qed

lemma tasks_reach_inv: "tasks_reach s \<Longrightarrow> tasks_inv s"
proof (induction rule: tasks_reach.induct)
  case none
  then show ?case by (simp add: tasks_inv_def busy_def holds_def no_tasks_def)
next
  case (begins s t op)
  have "disciplined (holds s t) (left s t)"
    using begins.IH by (simp add: tasks_inv_def)
  then have "holds s t = {}"
    by (simp add: begins.hyps)
  moreover have "busy (s\<lparr>left := (left s)(t := actions op)\<rparr>) \<subseteq> insert t (busy s)"
    by (auto simp: busy_def)
  moreover have "finite (insert t (busy s))"
    using begins.IH by (simp add: tasks_inv_def)
  ultimately have "finite (busy (s\<lparr>left := (left s)(t := actions op)\<rparr>))"
    by (auto intro: finite_subset)
  then show ?case
    using begins.IH actions_disciplined \<open>holds s t = {}\<close> by (simp add: tasks_inv_def holds_def)
next
  case (acts s t s')
  then show ?case by (blast intro: act_inv)
qed

section \<open>Progress\<close>

text \<open>The task that holds the highest mutex anybody holds is not blocked.\<close>

text \<open>A task that cannot act waits for a lock above all it holds.\<close>

lemma blocked_waits:
  assumes "tasks_inv s" "act u s = None" "left s u \<noteq> []"
  shows "\<exists>l u'. owner s l = Some u' \<and> (\<forall>k \<in> holds s u. lock_rank k < lock_rank l)"
proof -
  have d: "disciplined (holds s u) (left s u)"
    using assms(1) by (simp add: tasks_inv_def)
  obtain a rest where ar: "left s u = a # rest"
    using assms(3) neq_Nil_conv [of "left s u"] by blast
  show ?thesis
  proof (cases a)
    case (Acquire l)
    then have "owner s l \<noteq> None"
      using assms(2) ar by (auto simp: act_def split: if_splits)
    then show ?thesis
      using d ar Acquire by auto
  next
    case (Release l)
    then show ?thesis
      using assms(2) d ar by (auto simp: act_def holds_def split: if_splits)
  next
    case Await
    then show ?thesis
      using assms(2) ar by (simp add: act_def)
  qed
qed

lemma someone_acts:
  assumes "tasks_inv s" "left s t \<noteq> []"
  shows "\<exists>u s'. act u s = Some s'"
proof (rule ccontr)
  assume stuck: "\<nexists>u s'. act u s = Some s'"
  have d: "disciplined (holds s u) (left s u)" for u
    using assms(1) by (simp add: tasks_inv_def)
  have blocked: "\<exists>l u'. owner s l = Some u' \<and> (\<forall>k \<in> holds s u. lock_rank k < lock_rank l)" if "left s u \<noteq> []" for u
  proof (rule blocked_waits [OF assms(1) _ that])
    show "act u s = None"
      using stuck by (cases "act u s") auto
  qed
  have climb: "\<exists>l' u'. owner s l' = Some u' \<and> lock_rank l < lock_rank l'" if "owner s l = Some u" for l u
  proof -
    have l: "l \<in> holds s u"
      using that by (simp add: holds_def)
    then have "left s u \<noteq> []"
      using d [of u] by auto
    from blocked [OF this] show ?thesis
      using l by blast
  qed
  have "False" if "owner s l = Some u" "3 - lock_rank l = n" for l u n
    using that
  proof (induction n arbitrary: l u rule: less_induct)
    case (less n)
    obtain l' u' where up: "owner s l' = Some u'" "lock_rank l < lock_rank l'"
      using climb [OF less.prems(1)] by blast
    have "lock_rank l' \<le> 3"
      by (cases l') simp_all
    then have "3 - lock_rank l' < n"
      using up(2) less.prems(2) by simp
    from less.IH [OF this up(1) refl] show ?case .
  qed
  then show False
    using blocked [OF assms(2)] by blast
qed

lemma act_work:
  assumes "act t s = Some s'" "finite (busy s)"
  shows "work s = Suc (work s')"
proof -
  obtain a where a: "left s t = a # left s' t" "\<And>u. u \<noteq> t \<Longrightarrow> left s' u = left s u"
    using act_left [OF assms(1)] by blast
  have t: "t \<in> busy s"
    using a(1) by (simp add: busy_def)
  have sum: "work s = length (left s t) + (\<Sum>u \<in> busy s - {t}. length (left s u))"
    unfolding work_def by (rule sum.remove [OF assms(2) t])
  have "busy s' \<subseteq> busy s"
    using t a(2) unfolding busy_def by (metis (mono_tags, lifting) mem_Collect_eq subsetI)
  then have "work s' = (\<Sum>u \<in> busy s. length (left s' u))"
    unfolding work_def by (rule sum.mono_neutral_left [OF assms(2)]) (simp add: busy_def)
  also have "\<dots> = length (left s' t) + (\<Sum>u \<in> busy s - {t}. length (left s' u))"
    by (rule sum.remove [OF assms(2) t])
  also have "(\<Sum>u \<in> busy s - {t}. length (left s' u)) = (\<Sum>u \<in> busy s - {t}. length (left s u))"
    by (rule sum.cong) (use a(2) in auto)
  finally show ?thesis
    using a(1) sum by simp
qed

lemma acts_work:
  assumes "acts ts s = Some s'" "tasks_inv s"
  shows "tasks_inv s' \<and> work s = length ts + work s'"
  using assms
proof (induction ts arbitrary: s)
  case (Cons t ts)
  obtain s1 where s1: "act t s = Some s1" "acts ts s1 = Some s'"
    using Cons.prems(1) by (auto split: option.splits)
  show ?case
    using Cons.IH [OF s1(2) act_inv [OF s1(1) Cons.prems(2)]] act_work [OF s1(1)] Cons.prems(2)
    by (simp add: tasks_inv_def)
qed simp

lemma work_zero: "finite (busy s) \<Longrightarrow> work s = 0 \<longleftrightarrow> (\<forall>t. left s t = [])"
  by (auto simp: work_def busy_def)

section \<open>Properties\<close>

text \<open>
  C18. The operations of the node never deadlock and never sleep on a standard mutex. In every state
  that any number of tasks can reach, on any paths through their operations: a task about to wait
  holds no mutex but \<open>handles\<close>; and there is a number of actions after which all operations under way
  are complete and all mutexes free, whatever the schedule, and before which some task can always act.
\<close>

theorem locks_never_deadlock:
  assumes "tasks_reach s"
  shows "(\<forall>t rest l. left s t = Await # rest \<and> owner s l = Some t \<longrightarrow> l = HandlesLock) \<and>
    (\<exists>n. \<forall>schedule s'. acts schedule s = Some s' \<longrightarrow>
       length schedule \<le> n \<and>
       (length schedule = n \<longrightarrow> (\<forall>t. left s' t = []) \<and> (\<forall>l. owner s' l = None)) \<and>
       (length schedule < n \<longrightarrow> (\<exists>t s''. act t s' = Some s'')))"
proof (rule conjI)
  have d: "disciplined (holds s t) (left s t)" for t
    using tasks_reach_inv [OF assms] by (simp add: tasks_inv_def)
  show "\<forall>t rest l. left s t = Await # rest \<and> owner s l = Some t \<longrightarrow> l = HandlesLock"
  proof (intro allI impI)
    fix t rest l
    assume "left s t = Await # rest \<and> owner s l = Some t"
    then show "l = HandlesLock"
      using d [of t] by (auto simp: holds_def)
  qed
  show "\<exists>n. \<forall>schedule s'. acts schedule s = Some s' \<longrightarrow>
       length schedule \<le> n \<and>
       (length schedule = n \<longrightarrow> (\<forall>t. left s' t = []) \<and> (\<forall>l. owner s' l = None)) \<and>
       (length schedule < n \<longrightarrow> (\<exists>t s''. act t s' = Some s''))"
  proof (intro exI [of _ "work s"] allI impI)
    fix schedule s'
    assume "acts schedule s = Some s'"
    from acts_work [OF this tasks_reach_inv [OF assms]]
    have inv: "tasks_inv s'" and w: "work s = length schedule + work s'"
      by simp_all
    have fin: "finite (busy s')"
      using inv by (simp add: tasks_inv_def)
    have "owner s' l = None" if "\<forall>t. left s' t = []" for l
    proof (cases "owner s' l")
      case (Some t)
      have "disciplined (holds s' t) (left s' t)"
        using inv by (simp add: tasks_inv_def)
      then have "holds s' t = {}"
        using that by simp
      then show ?thesis
        using Some by (auto simp: holds_def)
    qed
    then show "length schedule \<le> work s \<and>
       (length schedule = work s \<longrightarrow> (\<forall>t. left s' t = []) \<and> (\<forall>l. owner s' l = None)) \<and>
       (length schedule < work s \<longrightarrow> (\<exists>t s''. act t s' = Some s''))"
      using w work_zero [OF fin] someone_acts [OF inv] by (cases "work s' = 0") auto
  qed
qed

text \<open>A registration and a settle pass that have both begun.\<close>

definition two_tasks :: tasks where
  "two_tasks = \<lparr>left = (\<lambda>_. [])(0 := actions (OpRegister Imported), 1 := actions (OpSettle [(True, True, True)] [])),
     owner = \<lambda>_. None\<rparr>"

lemma two_tasks_reach: "tasks_reach two_tasks"
proof -
  have "tasks_reach (no_tasks\<lparr>left := (left no_tasks)(0 := actions (OpRegister Imported))\<rparr>)"
    by (rule tasks_reach.begins [OF tasks_reach.none]) (simp add: no_tasks_def)
  from tasks_reach.begins [OF this, of 1 "OpSettle [(True, True, True)] []"] show ?thesis
    by (simp add: no_tasks_def two_tasks_def)
qed

theorem locks_never_deadlock_witness:
  "\<exists>n. \<forall>schedule s'. acts schedule two_tasks = Some s' \<longrightarrow> length schedule \<le> n"
  using locks_never_deadlock [OF two_tasks_reach] by blast

end
