(* ===== verification/Node_Spec.thy ===== *)
theory Node_Spec
  imports Node_System
begin

text \<open>
  What the stash is, said without tables, locks, schedules and stores: who has granted what, who is
  to be woken, which namespace names which ciphertext, and which ciphertext has landed. The node of
  \<open>Node_System\<close>, with all its tasks interleaved, is a refinement: each of its steps is one event of
  this specification, or none, and whatever it shows to a client is a function of the
  specification's state.
\<close>

section \<open>The specification\<close>

record stash =
  accounts :: grants
  books :: ledger

definition empty_stash :: stash where
  "empty_stash = \<lparr>accounts = \<lparr>granted = {}, pairs = {}\<rparr>, books = \<lparr>refs = {}, landed = {}\<rparr>\<rparr>"

datatype event =
    Unchanged
  | Grants namespace_id "push_subscription option"
  | Revokes namespace_id push_subscription
  | References namespace_id content_hash bool
  | Lands content_hash
  | Drops namespace_id content_hash

text \<open>An entry is recorded for a granted namespace only; bytes land only where they are referenced.\<close>

fun permitted :: "event \<Rightarrow> stash \<Rightarrow> bool" where
  "permitted (References ns h here) a \<longleftrightarrow> ns \<in> granted (accounts a)"
| "permitted (Lands h) a \<longleftrightarrow> h \<in> snd ` refs (books a)"
| "permitted e a \<longleftrightarrow> True"

fun happen :: "event \<Rightarrow> stash \<Rightarrow> stash" where
  "happen Unchanged a = a"
| "happen (Grants ns sub) a = a\<lparr>accounts := grant ns sub (accounts a)\<rparr>"
| "happen (Revokes ns sub) a = a\<lparr>accounts := revoke ns sub (accounts a)\<rparr>"
| "happen (References ns h here) a =
     a\<lparr>books := (if here then ledger_mark h (ledger_want ns h (books a)) else ledger_want ns h (books a))\<rparr>"
| "happen (Lands h) a = a\<lparr>books := ledger_mark h (books a)\<rparr>"
| "happen (Drops ns h) a = a\<lparr>books := ledger_forget ns h (books a)\<rparr>"

inductive history :: "event list \<Rightarrow> stash \<Rightarrow> stash \<Rightarrow> bool" where
  nothing: "history [] a a"
| event: "permitted e a \<Longrightarrow> history es (happen e a) b \<Longrightarrow> history (e # es) a b"

text \<open>What a client can see.\<close>

definition serves :: "stash \<Rightarrow> namespace_id \<Rightarrow> content_hash \<Rightarrow> bool" where
  "serves a ns h \<longleftrightarrow> (ns, h) \<in> refs (books a) \<and> h \<in> landed (books a)"

definition health :: "stash \<Rightarrow> nat \<times> nat" where
  "health a = (card (snd ` refs (books a) - landed (books a)), card (snd ` refs (books a)))"

definition upload_verdict :: "stash \<Rightarrow> namespace_id \<Rightarrow> content_hash \<Rightarrow> bool \<Rightarrow> put_outcome" where
  "upload_verdict a ns h genuine =
     (if ns \<notin> granted (accounts a) then UnknownNamespace
      else if (ns, h) \<notin> refs (books a) then UntrackedHash
      else if genuine then Stored else HashMismatch)"

text \<open>The books balance in every history.\<close>

definition balanced :: "stash \<Rightarrow> bool" where
  "balanced a \<longleftrightarrow>
     refs (books a) \<subseteq> granted (accounts a) \<times> UNIV \<and>
     landed (books a) \<subseteq> snd ` refs (books a) \<and>
     pairs (accounts a) \<subseteq> granted (accounts a) \<times> UNIV"

lemma empty_balanced: "balanced empty_stash"
  by (simp add: balanced_def empty_stash_def)

lemma forget_balanced:
  assumes "landed l \<subseteq> snd ` refs l"
  shows "landed (ledger_forget ns h l) \<subseteq> snd ` refs (ledger_forget ns h l)"
proof
  fix k
  assume k: "k \<in> landed (ledger_forget ns h l)"
  then have "k \<in> landed l"
    by (auto simp: ledger_forget_def split: if_splits)
  then obtain n where n: "(n, k) \<in> refs l"
    using assms by auto
  have "\<exists>m. (m, k) \<in> refs l - {(ns, h)}"
  proof (cases "n = ns \<and> k = h")
    case True
    then have "\<not> ledger_last ns h l"
      using k by (auto simp: ledger_forget_def)
    then show ?thesis
      using n True by (auto simp: ledger_last_def)
  qed (use n in blast)
  then show "k \<in> snd ` refs (ledger_forget ns h l)"
    by (force simp: ledger_forget_def)
qed

lemma happen_balanced: "balanced a \<Longrightarrow> permitted e a \<Longrightarrow> balanced (happen e a)"
proof (cases e)
  case (Drops ns h)
  assume "balanced a"
  then show ?thesis
    using forget_balanced [of "books a" ns h] by (auto simp: balanced_def Drops ledger_forget_def)
qed (auto simp: balanced_def grant_def revoke_def ledger_mark_def ledger_want_def)

lemma happen_grants: "granted (accounts a) \<subseteq> granted (accounts (happen e a))"
  by (cases e) (auto simp: grant_def revoke_def)

lemma history_sound:
  "history es a b \<Longrightarrow> balanced a \<Longrightarrow> balanced b \<and> granted (accounts a) \<subseteq> granted (accounts b)"
  by (induction rule: history.induct) (use happen_balanced happen_grants in blast)+

section \<open>The node as a stash\<close>

definition stash_of :: "('d, 'b) stash_node \<Rightarrow> stash" where
  "stash_of node = \<lparr>accounts = grants_of (registry node), books = ledger_of (content node)\<rparr>"

lemma stash_of_spawn: "stash_of (spawn policy store) = empty_stash"
  by (simp add: stash_of_def empty_stash_def ledger_of_new grants_of_def)
    (simp add: new_registry_def wake_targets_def)

lemma stash_of_cong: "registry m = registry n \<Longrightarrow> content m = content n \<Longrightarrow> stash_of m = stash_of n"
  by (simp add: stash_of_def)

text \<open>What a step may amount to.\<close>

fun request_event :: "request \<Rightarrow> event \<Rightarrow> bool" where
  "request_event req (Grants ns sub) \<longleftrightarrow> v1_route (path req) = Some Namespaces \<and> http_method req = POST"
| "request_event req (Revokes ns sub) \<longleftrightarrow>
     (\<exists>ident. v1_route (path req) = Some (Subscription ident) \<and> parse_namespace_hex ident = Ok ns) \<and>
     http_method req = DELETE"
| "request_event req (Lands h) \<longleftrightarrow>
     (\<exists>ident hash. v1_route (path req) = Some (Content ident hash)) \<and> http_method req = PUT"
| "request_event req e \<longleftrightarrow> False"

fun may_cause :: "string option \<Rightarrow> label \<Rightarrow> event \<Rightarrow> bool" where
  "may_cause psk (Http req) e \<longleftrightarrow>
     e = Unchanged \<or> is_allowed (authorize psk (bearer_token (authorization req))) \<and> request_event req e"
| "may_cause psk (Record now ns k h from) e \<longleftrightarrow> (\<exists>here. e = References ns h here)"
| "may_cause psk (Settle now h entry) e \<longleftrightarrow> e = Unchanged \<or> e = Lands h"
| "may_cause psk (Release ns h) e \<longleftrightarrow> e = Drops ns h"
| "may_cause psk Engine e \<longleftrightarrow> e = Unchanged"
| "may_cause psk Collect e \<longleftrightarrow> e = Unchanged"

section \<open>Each step is an event\<close>

definition amounts_to :: "(event \<Rightarrow> bool) \<Rightarrow> ('d, 'b) stash_node \<Rightarrow> ('d, 'b) stash_node \<Rightarrow> bool" where
  "amounts_to kind node m \<longleftrightarrow>
     (\<exists>e. kind e \<and> permitted e (stash_of node) \<and> stash_of m = happen e (stash_of node))"

lemma amounts_toI:
  "kind e \<Longrightarrow> permitted e (stash_of node) \<Longrightarrow> stash_of m = happen e (stash_of node) \<Longrightarrow> amounts_to kind node m"
  unfolding amounts_to_def by blast

lemma amounts_to_same: "kind Unchanged \<Longrightarrow> stash_of m = stash_of node \<Longrightarrow> amounts_to kind node m"
  by (rule amounts_toI [of _ Unchanged]) simp_all

lemma amounts_to_weaken: "amounts_to kind node m \<Longrightarrow> (\<And>e. kind e \<Longrightarrow> kind' e) \<Longrightarrow> amounts_to kind' node m"
  unfolding amounts_to_def by blast

lemma stash_of_register:
  "stash_of (finish_register ns sub node) = happen (Grants ns sub) (stash_of node)"
  by (simp add: stash_of_def finish_register_fields wr.abs_reg del: register_simps)

lemma stash_of_mark:
  assumes "node_inv node"
  shows "ledger_of (mark_present h (content node)) = ledger_mark h (ledger_of (content node))"
  by (rule idx.abs_mark [OF node_invD(1) [OF assms]])

lemma register_amounts:
  "amounts_to (\<lambda>e. e = Unchanged \<or> (\<exists>ns sub. e = Grants ns sub)) node (snd (register_handler docs json node))"
proof -
  have "amounts_to (\<lambda>e. e = Unchanged \<or> (\<exists>ns sub. e = Grants ns sub)) node (snd (node_register docs t sub node))" for t sub
  proof (cases rule: node_register_cases [of docs t sub node])
    case (known ns doc)
    then show ?thesis
      by (intro amounts_toI [of _ "Grants ns sub"]) (simp_all add: stash_of_register)
  next
    case (imported ns doc)
    then show ?thesis
      by (intro amounts_toI [of _ "Grants ns sub"]) (simp_all add: stash_of_register, simp_all add: stash_of_def)
  qed (auto intro: amounts_to_same)
  then show ?thesis
    by (auto simp: register_handler_def split_beta intro: amounts_to_same split: sum.split)
qed

lemma unsubscribe_amounts:
  "amounts_to (\<lambda>e. e = Unchanged \<or> (\<exists>ns sub. parse_namespace_hex ident = Ok ns \<and> e = Revokes ns sub)) node
     (snd (unsubscribe_handler ident json node))"
proof -
  have "stash_of (snd (node_unsubscribe ns sub node)) = happen (Revokes ns sub) (stash_of node)" for ns sub
    by (simp add: stash_of_def node_unsubscribe_def split_beta wr.abs_unsub del: unsubscribe_simps)
  then have "amounts_to (\<lambda>e. e = Unchanged \<or> (\<exists>ns sub. parse_namespace_hex ident = Ok ns \<and> e = Revokes ns sub)) node
      (snd (node_unsubscribe ns sub node))" if "parse_namespace_hex ident = Ok ns" for ns sub
    using that by (intro amounts_toI [of _ "Revokes ns sub"]) auto
  then show ?thesis
    by (auto simp: unsubscribe_handler_def intro: amounts_to_same split: sum.split option.split)
qed

lemma put_amounts:
  assumes "node_inv node"
  shows "amounts_to (\<lambda>e. e = Unchanged \<or> (\<exists>h. e = Lands h)) node (snd (put_content_handler http api ident hash b node))"
proof -
  have "amounts_to (\<lambda>e. e = Unchanged \<or> (\<exists>h. e = Lands h)) node (snd (put_content api ns h b node))" for ns h
  proof (cases rule: put_content_cases [of api ns h b node])
    case stored
    show ?thesis
    proof (rule amounts_toI [of _ "Lands h"])
      show "permitted (Lands h) (stash_of node)"
        using stored(2) by (force simp: stash_of_def ledger_of_def)
    qed (simp_all add: stored(6) stash_of_def stash_of_mark [OF assms])
  qed (auto intro: amounts_to_same simp: stash_of_def)
  then show ?thesis
    by (auto simp: put_content_handler_def split_beta intro: amounts_to_same split: sum.split option.split)
qed

lemma http_amounts:
  assumes "node_inv node"
  shows "amounts_to (may_cause psk (Http req)) node (snd (control_api http api docs psk req node))"
proof (cases "v1_route (path req)")
  case None
  then show ?thesis
    by (intro amounts_to_same) (simp_all add: control_api_def)
next
  case (Some r)
  let ?kind = "\<lambda>e. e = Unchanged \<or> request_event req e"
  have same: "amounts_to ?kind node node"
    by (rule amounts_to_same) simp_all
  have reg: "amounts_to ?kind node (snd (register_handler docs json node))"
    if "r = Namespaces" "http_method req = POST" for json
    by (rule amounts_to_weaken [OF register_amounts]) (use Some that in auto)
  have unsub: "amounts_to ?kind node (snd (unsubscribe_handler ident json node))"
    if "r = Subscription ident" "http_method req = DELETE" for ident json
    by (rule amounts_to_weaken [OF unsubscribe_amounts]) (use Some that in auto)
  have put: "amounts_to ?kind node (snd (put_content_handler http api ident hash (body req) node))"
    if "r = Content ident hash" "http_method req = PUT" for ident hash
    by (rule amounts_to_weaken [OF put_amounts [OF assms]]) (use Some that in auto)
  have run: "amounts_to ?kind node (snd (v1_run http api docs r req node))"
    using same reg unsub put by (auto simp: v1_run_def split: route.split http_method.split sum.split)
  show ?thesis
  proof (cases "is_allowed (authorize psk (bearer_token (authorization req)))")
    case True
    then show ?thesis
      using run by (auto simp: control_api_def Some psk_guard_def elim: amounts_to_weaken)
  next
    case False
    then show ?thesis
      by (intro amounts_to_same) (simp_all add: control_api_def Some psk_guard_def)
  qed
qed

lemma step_amounts:
  assumes "step env l node m" "node_inv node"
  shows "amounts_to (may_cause (env_psk env) l) node m"
  using assms(1)
proof cases
  case (http req)
  then show ?thesis
    using http_amounts [OF assms(2)] by simp
next
  case (receive ns now k h "from")
  let ?here = "store_has (env_api env) (blobs node) h"
  have "is_known (registry node) ns"
    using receive(3) node_invD(6) [OF assms(2)] by (simp add: is_known_def)
  then show ?thesis
    using idx.abs_want [OF node_invD(1) [OF assms(2)], of ns h]
      idx.abs_mark [OF idx.inv_want [OF node_invD(1) [OF assms(2)]], of h ns h]
    by (intro amounts_toI [of _ "References ns h ?here"])
      (simp_all add: receive stash_of_def handle_insert_remote_fields grants_of_def is_known_def)
next
  case (settle now h entry)
  show ?thesis
  proof (cases "content m = content node")
    case True
    then show ?thesis
      by (intro amounts_to_same stash_of_cong) (simp_all add: settle settle_entry_eq settle_commit_fields)
  next
    case False
    then have lands: "content m = mark_present h (content node)" "hm_get (tracked node) h \<noteq> None"
      by (auto simp: settle settle_entry_eq settle_commit_fields split: if_splits)
    have "h \<in> snd ` refs (ledger_of (content node))"
      using lands(2) tracked_iff [OF assms(2), of h] index_invD(3) [OF node_invD(1) [OF assms(2)], of h]
      by (force simp: ledger_of_def)
    moreover have "registry m = registry node"
      by (simp add: settle settle_entry_eq settle_commit_fields)
    ultimately show ?thesis
      by (intro amounts_toI [of _ "Lands h"]) (simp_all add: settle(1) stash_of_def lands(1) stash_of_mark [OF assms(2)])
  qed
next
  case (release ns h)
  then show ?thesis
    by (intro amounts_toI [of _ "Drops ns h"])
      (simp_all add: stash_of_def forget_one_def split_beta idx.abs_forget [OF node_invD(1) [OF assms(2)]])
qed (auto intro: amounts_to_same simp: stash_of_def)

lemma run_history:
  assumes laws: "env_laws env" and "run env ls node m" "node_inv node" "servable (env_api env) node"
  shows "\<exists>es. list_all2 (may_cause (env_psk env)) ls es \<and> history es (stash_of node) (stash_of m)"
  using assms(2-4)
proof (induction rule: run.induct)
  case (more l node node1 ls node2)
  then obtain es where "list_all2 (may_cause (env_psk env)) ls es" "history es (stash_of node1) (stash_of node2)"
    using step_inv [OF laws] by blast
  moreover obtain e where "may_cause (env_psk env) l e" "permitted e (stash_of node)"
      "stash_of node1 = happen e (stash_of node)"
    using step_amounts [OF more.hyps(1) more.prems(1)] by (auto simp: amounts_to_def)
  ultimately show ?case
    by (intro exI [of _ "e # es"]) (auto intro: history.event)
qed (auto intro: history.nothing)

section \<open>What clients see\<close>

lemma sees_bytes:
  "servable api node \<Longrightarrow> content_bytes api node ns h \<noteq> None \<longleftrightarrow> serves (stash_of node) ns h"
  by (auto simp: content_bytes_def is_present_for_iff serves_def stash_of_def ledger_of_def servable_def)

lemma sees_health: "node_inv node \<Longrightarrow> content_stats node = health (stash_of node)"
  using health_counts_exact [OF node_invD(1), of node] by (simp add: content_stats_def health_def stash_of_def)

lemma sees_verdict:
  "fst (put_content api ns h b node) = Ok v \<Longrightarrow> blob_laws api \<Longrightarrow>
   v = upload_verdict (stash_of node) ns h (hash_new api b = h)"
  using put_content_rejections [of api ns h b node]
  by (cases v) (auto simp: upload_verdict_def stash_of_def grants_of_def ledger_of_def is_known_def put_content_def
      split: if_splits)

section \<open>Property\<close>



end
