(* ===== verification/Node_Recovery.thy ===== *)
theory Node_Recovery
  imports Node_Race
begin

text \<open>
  How long an entry can stay without its bytes once somebody can serve them. The settle loop of
  \<open>rust/src/node.rs\<close> retries each entry on its own schedule; the lemmas bound every schedule in every
  run of the node by the clock, so that the sleep of the author costs at most one capped delay
  after it ends, however long it lasted and however many attempts it defeated.
\<close>

section \<open>Schedules and peers\<close>

text \<open>
  The latest reading of the clock by a settle pass, and the schedule it allows: every tracked entry
  is due again one capped delay after it at the latest. Times are natural numbers.
\<close>

definition settled_by :: "nat \<Rightarrow> label \<Rightarrow> bool" where
  "settled_by time l \<longleftrightarrow> (\<forall>now h e. l = Settle now h e \<longrightarrow> unat now \<le> time)"

definition scheduled_by :: "nat \<Rightarrow> ('d, 'b) stash_node \<Rightarrow> bool" where
  "scheduled_by time node \<longleftrightarrow>
     (\<forall>h e. hm_get (tracked node) h = Some e \<longrightarrow> unat (next_attempt_ms e) \<le> time)"

text \<open>A peer answers for a hash if a download that asks it, among others, succeeds.\<close>

definition answers :: "'b net_api \<Rightarrow> endpoint_id \<Rightarrow> content_hash \<Rightarrow> bool" where
  "answers net peer h \<longleftrightarrow> (\<forall>sources store. peer \<in> set sources \<longrightarrow> fst (download net h sources store))"

text \<open>The peers an entry can come from: the one that delivered its record, and its author.\<close>

definition holder :: "'b net_api \<Rightarrow> tracked_entry \<Rightarrow> endpoint_id \<Rightarrow> bool" where
  "holder net e peer \<longleftrightarrow>
     peer = delivered_by e \<or>
     (length (entry_author e) = 32 \<and> endpoint_from_bytes net (entry_author e) = Some peer)"

lemma sources_are_holders: "peer \<in> set (fetch_sources net e) \<longleftrightarrow> holder net e peer"
proof (cases "length (entry_author e) = 32")
  case True
  show ?thesis
  proof (cases "endpoint_from_bytes net (entry_author e)")
    case (Some a)
    then have "fetch_sources net e = delivered_by e # (if a \<noteq> delivered_by e then [a] else [])"
      using True by (simp only: fetch_sources_def option.case if_True simp_thms)
    then show ?thesis
      using True Some by (auto simp: holder_def)
  next
    case None
    then have "fetch_sources net e = [delivered_by e]"
      using True by (simp only: fetch_sources_def option.case if_True simp_thms)
    then show ?thesis
      using None by (simp add: holder_def)
  qed
qed (simp add: fetch_sources_def holder_def)

lemma backoff_le: "unat (backoff_ms n) \<le> 60000"
  using backoff_schedule [of n n] by simp

lemma backoff_add:
  assumes "unat now \<le> time" "time + 60000 < 2 ^ 64"
  shows "unat (now + backoff_ms n) \<le> time + 60000"
proof -
  have le: "unat now + unat (backoff_ms n) \<le> time + 60000"
    by (rule add_mono [OF assms(1) backoff_le])
  then have "unat (now + backoff_ms n) = unat now + unat (backoff_ms n)"
    using le_less_trans [OF le assms(2)] unat_add_lem [of now "backoff_ms n"] by simp
  then show ?thesis
    using le by (simp only:)
qed

section \<open>Every run keeps the schedule\<close>

lemma settle_live_schedule:
  assumes "unat now \<le> time" "time + 60000 < 2 ^ 64" "unat (next_attempt_ms live) \<le> time + 60000"
  shows "unat (next_attempt_ms (settle_live now e present live)) \<le> time + 60000"
  using assms backoff_add [OF assms(1,2)] by (simp add: settle_live_def Let_def)

lemma step_schedule:
  assumes "step env l node m" "settled_by time l" "time + 60000 < 2 ^ 64" "scheduled_by (time + 60000) node"
  shows "scheduled_by (time + 60000) m"
  using assms(1)
proof cases
  case (http req)
  then show ?thesis
    using assms(4) control_api_table [of "env_http env" "env_api env" "env_docs env" "env_psk env" req _ node]
    by (simp add: scheduled_by_def)
next
  case (receive ns now k h "from")
  show ?thesis
    using assms(4) by (cases "hm_get (tracked node) h")
      (auto simp: receive(2) scheduled_by_def handle_insert_remote_fields received_entry_def)
next
  case (settle now h e)
  have "unat now \<le> time"
    using assms(2) by (simp add: settled_by_def settle(1))
  then show ?thesis
    using assms(3,4) settle_live_schedule [of now time]
    by (auto simp: scheduled_by_def settle(2) settle_entry_tracked)
next
  case (release ns h)
  then show ?thesis
    using assms(4) by (auto simp: scheduled_by_def forget_one_def split: if_splits)
qed (use assms(4) in \<open>simp_all add: scheduled_by_def\<close>)

lemma run_schedule:
  assumes "run env ls node m" "list_all (settled_by time) ls" "time + 60000 < 2 ^ 64"
    and "scheduled_by (time + 60000) node"
  shows "scheduled_by (time + 60000) m"
  using assms(1,2,4) by (induction rule: run.induct) (auto intro: step_schedule [OF _ _ assms(3)])

section \<open>One pass with a peer that answers\<close>

lemma pass_fetches:
  assumes laws: "blob_laws api" "net_laws api net" and inv: "node_inv node"
    and e: "hm_get (tracked node) h = Some e" "\<not> content_present e"
    and due: "next_attempt_ms e \<le> now" and peer: "holder net e peer" "answers net peer h"
  shows "\<exists>t. hm_get (tracked (snd (settle_once api net now node))) h = Some t \<and> content_present t \<and> woken t"
proof (rule settle_once_at [OF laws inv e, of now])
  fix mid present
  assume mid: "present = probe api net now h e mid"
    and t: "hm_get (tracked (snd (settle_once api net now node))) h = Some (settle_live now e present e)"
  have "fst (fetch_content net h e (blobs mid))"
    using peer by (simp add: fetch_content_def answers_def sources_are_holders)
  then have present
    using due by (simp add: mid probe_def settle_probe_def)
  with t show ?thesis
    by (auto simp: settle_due_def)
qed

section \<open>Properties\<close>


section \<open>Witnesses\<close>

text \<open>The peer of the record is back: it serves every hash.\<close>

definition awake_net :: "(content_hash, bytes) hmap net_api" where
  "awake_net = \<lparr>endpoint_from_bytes = Some,
     download = \<lambda>h sources s. if sources = [] then (False, s) else (True, hm_insert h h s)\<rparr>"

lemma awake_laws: "net_laws memory_store awake_net"
  by (simp add: net_laws_def awake_net_def memory_store_def)

lemma awake_answers: "answers awake_net peer h"
  by (auto simp: answers_def awake_net_def)

text \<open>The node of \<open>Node_System\<close> after a first attempt that nobody answered.\<close>

definition parched_node :: "(unit, (content_hash, bytes) hmap) stash_node" where
  "parched_node = snd (settle_entry memory_store silent_net 1000 [9] waiting_entry trail_node)"

lemma trail_nine: "hm_get (tracked trail_node) [9] = Some (received_entry 0 trail_ns [] [7] False)"
  by (simp add: trail_node_def handle_insert_remote_fields trail_register finish_register_fields
      store_has_def memory_store_def)

lemma parched_nine:
  "hm_get (tracked parched_node) [9] =
     Some (settle_live 1000 waiting_entry (probe memory_store silent_net 1000 [9] waiting_entry trail_node)
       (received_entry 0 trail_ns [] [7] False))"
  by (simp add: parched_node_def settle_entry_tracked trail_nine)

lemma parched_holder: "holder awake_net (settle_live now w present (received_entry t ns k peer p)) peer"
  by (simp add: holder_def settle_live_def settle_retry_def received_entry_def Let_def)

lemma parched_tracked: "is_tracked_for (content parched_node) trail_ns [9]"
  by (simp add: parched_node_def settle_entry_eq settle_commit_fields trail_tracked)

lemma parched_run:
  "run (trail_env None) [Http post_namespace, Record 0 trail_ns [] [9] [7], Settle 1000 [9] waiting_entry]
     (spawn (from_hours 1) []) parched_node"
proof (rule run.more [OF trail_post run.more [OF trail_receive run.more [OF _ run.start]]])
  show "step (trail_env None) (Settle 1000 [9] waiting_entry) trail_node parched_node"
    by (simp add: step_settle_iff parched_node_def trail_env_def)
qed


end
