(* ===== verification/Node_Memory.thy ===== *)
theory Node_Memory
  imports Node_Prune
begin

text \<open>
  What the retention sweep of \<open>rust/src/node.rs\<close> and the policy of \<open>rust/src/retention.rs\<close> together say
  about the memory of the process: how much ciphertext a namespace can still pin after a sweep, and
  which keys escape the rule that keeps one fix of each author.
\<close>

section \<open>Fixes and other entries\<close>

definition fix_of :: "prune_candidate \<Rightarrow> fix_key option" where
  "fix_of c = decode_fix_key (cand_key c)"

text \<open>Authors with a fix inside the window, and the hashes of the other entries inside it.\<close>

definition fresh :: "retention_policy \<Rightarrow> u64 \<Rightarrow> prune_candidate \<Rightarrow> bool" where
  "fresh p now c \<longleftrightarrow> unat now \<le> unat (cand_written_ms c) + unat (retention_ms p)"

definition fresh_authors :: "prune_candidate list \<Rightarrow> retention_policy \<Rightarrow> u64 \<Rightarrow> bytes set" where
  "fresh_authors cs p now = {author f |f. \<exists>c \<in> set cs. fresh p now c \<and> fix_of c = Some f}"

definition fresh_others :: "prune_candidate list \<Rightarrow> retention_policy \<Rightarrow> u64 \<Rightarrow> content_hash set" where
  "fresh_others cs p now = cand_hash ` {c \<in> set cs. fresh p now c \<and> fix_of c = None}"

lemma keeps_iff:
  "keeps cs p now c \<longleftrightarrow> fresh p now c \<and>
     (\<forall>f d g. fix_of c = Some f \<and> d \<in> set cs \<and> fix_of d = Some g \<and> author g = author f \<longrightarrow> seq g \<le> seq f)"
proof -
  have "superseded_in (set (map entry_of cs)) (entry_of c) \<longleftrightarrow>
      (\<exists>f d g. fix_of c = Some f \<and> d \<in> set cs \<and> fix_of d = Some g \<and> author g = author f \<and> seq f < seq g)"
    by (auto simp: superseded_in_def entry_of_def fix_of_def)
  moreover have "is_expired p (written_ms (entry_of c)) now \<longleftrightarrow> \<not> fresh p now c"
    by (simp add: is_expired_iff entry_of_def fresh_def not_le)
  ultimately show ?thesis
    unfolding keeps_def release_spec_None by (auto simp: not_less [symmetric])
qed

lemma finite_fresh: "finite (fresh_authors cs p now)" "finite (fresh_others cs p now)"
proof -
  have "fresh_authors cs p now \<subseteq> (\<lambda>c. author (the (fix_of c))) ` set cs"
    by (force simp: fresh_authors_def)
  then show "finite (fresh_authors cs p now)"
    by (rule finite_subset) simp
  show "finite (fresh_others cs p now)"
    by (simp add: fresh_others_def)
qed

text \<open>Kept fixes of one author carry one sequence number; if that names one hash, one hash is kept.\<close>

lemma kept_fixes_card:
  assumes "\<And>c d f. c \<in> set cs \<Longrightarrow> d \<in> set cs \<Longrightarrow> fix_of c = Some f \<Longrightarrow> fix_of d = Some f \<Longrightarrow> cand_hash c = cand_hash d"
  shows "card (cand_hash ` {c \<in> set cs. keeps cs p now c \<and> fix_of c \<noteq> None}) \<le> card (fresh_authors cs p now)"
proof (rule surj_card_le [OF finite_fresh(1)])
  define pick where "pick a = cand_hash (SOME c. c \<in> set cs \<and> keeps cs p now c \<and> (\<exists>f. fix_of c = Some f \<and> author f = a))" for a
  show "cand_hash ` {c \<in> set cs. keeps cs p now c \<and> fix_of c \<noteq> None} \<subseteq> pick ` fresh_authors cs p now"
  proof
    fix h
    assume "h \<in> cand_hash ` {c \<in> set cs. keeps cs p now c \<and> fix_of c \<noteq> None}"
    then obtain c f where c: "c \<in> set cs" "keeps cs p now c" "fix_of c = Some f" "h = cand_hash c"
      by auto
    let ?P = "\<lambda>d. d \<in> set cs \<and> keeps cs p now d \<and> (\<exists>g. fix_of d = Some g \<and> author g = author f)"
    have "?P (SOME d. ?P d)"
      by (rule someI [of ?P c]) (use c in auto)
    then obtain g where d: "(SOME d. ?P d) \<in> set cs" "keeps cs p now (SOME d. ?P d)"
      "fix_of (SOME d. ?P d) = Some g" "author g = author f"
      by (elim conjE exE)
    have le: "seq g' \<le> seq f'" if "keeps cs p now c'" "fix_of c' = Some f'" "d' \<in> set cs" "fix_of d' = Some g'"
      "author g' = author f'" for c' d' f' g'
      using that unfolding keeps_iff by blast
    have "seq g = seq f"
      by (rule order_antisym [OF le [OF c(2,3) d(1,3,4)] le [OF d(2,3) c(1,3) d(4) [symmetric]]])
    with d(4) have "g = f"
      by simp
    then have "pick (author f) = h"
      using assms [OF d(1) c(1) d(3)] c(3,4) by (simp add: pick_def)
    moreover have "fresh p now c"
      using c(2) by (simp add: keeps_iff)
    then have "author f \<in> fresh_authors cs p now"
      using c(1,3) unfolding fresh_authors_def by blast
    ultimately show "h \<in> pick ` fresh_authors cs p now"
      by blast
  qed
qed

section \<open>Properties\<close>

text \<open>
  C14. The memory bound of latest-only retention: after a completed sweep, the hashes a namespace still
  references among those its document names are at most one for each author with a fix inside
  the window, plus those of the other entries inside the window, however many fixes were written.
  The bound needs that one author and sequence number name one hash.
\<close>

theorem sweep_bounds_memory:
  assumes "node_inv node" "iteration_order order" "prune_once get_many order now node = (Ok c, node')"
    and "docs_of get_many node ns = Some cs"
    and "\<And>c d f. c \<in> set cs \<Longrightarrow> d \<in> set cs \<Longrightarrow> fix_of c = Some f \<Longrightarrow> fix_of d = Some f \<Longrightarrow> cand_hash c = cand_hash d"
  shows "card {h \<in> cand_hash ` set cs. is_tracked_for (content node') ns h} \<le>
    card (fresh_authors cs (node_retention node) now) + card (fresh_others cs (node_retention node) now)"
proof -
  let ?p = "node_retention node"
  let ?fixes = "cand_hash ` {c \<in> set cs. keeps cs ?p now c \<and> fix_of c \<noteq> None}"
  have "{h \<in> cand_hash ` set cs. is_tracked_for (content node') ns h} \<subseteq> ?fixes \<union> fresh_others cs ?p now"
  proof
    fix h
    assume "h \<in> {h \<in> cand_hash ` set cs. is_tracked_for (content node') ns h}"
    then have "h \<in> cand_hash ` set cs" "\<not> may_release get_many now node ns h"
      using prune_once_result(9) [OF assms(1,2), where get_many = get_many and now = now] assms(3) by auto
    then obtain c where "c \<in> set cs" "cand_hash c = h" "keeps cs ?p now c"
      using assms(4) by (auto simp: may_release_def releasable_def)
    then show "h \<in> ?fixes \<union> fresh_others cs ?p now"
      by (cases "fix_of c") (auto simp: fresh_others_def keeps_iff)
  qed
  then have "card {h \<in> cand_hash ` set cs. is_tracked_for (content node') ns h} \<le>
      card (?fixes \<union> fresh_others cs ?p now)"
    by (intro card_mono) (simp_all add: finite_fresh)
  also have "\<dots> \<le> card ?fixes + card (fresh_others cs ?p now)"
    by (rule card_Un_le)
  also have "card ?fixes \<le> card (fresh_authors cs ?p now)"
    by (rule kept_fixes_card) (rule assms(5))
  finally show ?thesis
    by simp
qed

text \<open>
  C24. Where that premise fails the bound does: the parser does not look at the letter case of the
  author's hex digits, the docs engine does. Fixes whose keys spell one author and one sequence
  number in different letter cases are different entries, and if no higher number exists a sweep
  inside the window releases none of them.
\<close>

theorem spelling_variants_all_kept:
  assumes "node_inv node" "iteration_order order" "docs_of get_many node ns = Some cs"
    and "\<And>c. c \<in> set cs \<Longrightarrow> map ascii_lower (cand_key c) = encode_fix_key a n \<and> fresh (node_retention node) now c"
    and "a \<noteq> []"
  shows "is_tracked_for (content (snd (prune_once get_many order now node))) ns h \<longleftrightarrow>
    is_tracked_for (content node) ns h"
proof -
  have "fix_of c = Some \<lparr>author = a, seq = n\<rparr>" if "c \<in> set cs" for c
    using assms(4) [OF that] assms(5) by (simp add: fix_of_def decode_fix_key_canonical)
  then have "keeps cs (node_retention node) now c" if "c \<in> set cs" for c
    using that assms(4) [OF that] unfolding keeps_iff by (metis fix_key.select_convs(2) option.inject order_refl)
  then have "\<not> may_release get_many now node ns h"
    using assms(3) by (auto simp: may_release_def releasable_def)
  then show ?thesis
    using prune_once_result(6,7) [OF assms(1,2), where get_many = get_many and now = now] by blast
qed

section \<open>A document that cannot be read\<close>

lemma prune_loop_stops:
  assumes "iteration_order order"
  shows "node_inv node \<Longrightarrow> hm_get (handles node) ns \<noteq> None \<Longrightarrow> docs_of get_many node ns = None \<Longrightarrow>
    (\<exists>e. fst (prune_loop get_many order now (earlier @ ns # later) acc node) = Err e) \<and>
    snd (prune_loop get_many order now (earlier @ ns # later) acc node) =
      snd (prune_loop get_many order now earlier acc node)"
proof (induction earlier arbitrary: acc node)
  case Nil
  then show ?case
    by (cases rule: prune_loop_step [of get_many node ns order now later acc]) simp_all
next
  case (Cons n earlier)
  show ?case
  proof (cases rule: prune_loop_step [of get_many node n order now "earlier @ ns # later" acc])
    case skip
    then show ?thesis
      using Cons.IH [OF Cons.prems, of acc] by simp
  next
    case (stop e)
    moreover have "snd (prune_loop get_many order now (n # earlier) acc node) = node"
      by (cases rule: prune_loop_step [of get_many node n order now earlier acc]) (use stop(1,2) in simp_all)
    ultimately show ?thesis
      by simp
  next
    case (sweep cs)
    let ?acc = "fst (prune_namespace order now n cs acc node)" and ?node = "snd (prune_namespace order now n cs acc node)"
    have same: "node_inv ?node" "handles ?node = handles node"
      using prune_namespace_result [OF Cons.prems(1) assms, of now n cs acc] by blast+
    have "prune_loop get_many order now (n # earlier) acc node = prune_loop get_many order now earlier ?acc ?node"
      by (cases rule: prune_loop_step [of get_many node n order now earlier acc]) (use sweep(1) in simp_all)
    then show ?thesis
      using Cons.IH [OF same(1), of ?acc] Cons.prems(2,3) sweep(2) by (simp add: same(2) docs_of_cong [OF same(2)])
  qed
qed

text \<open>The sweeps of a process, at the given times.\<close>

fun sweeps :: "'d docs_query \<Rightarrow> (content_hash list \<Rightarrow> content_hash list) \<Rightarrow> u64 list \<Rightarrow> ('d, 'b) stash_node \<Rightarrow>
    (string, sweep) result list \<times> ('d, 'b) stash_node" where
  "sweeps get_many order [] node = ([], node)"
| "sweeps get_many order (now # nows) node =
     (let (r, node1) = prune_once get_many order now node;
          (rs, node2) = sweeps get_many order nows node1
      in (r # rs, node2))"

text \<open>
  C26. One unreadable document ends retention for all that come after it. While the query of a granted
  namespace fails, every sweep fails, and neither that namespace nor any that follows it in the order
  of the registry ever loses a reference, however old its entries are and however often the sweep runs.
\<close>

theorem unreadable_document_blocks_sweep:
  assumes "node_inv node" "iteration_order order"
    and "known_namespaces (registry node) = earlier @ ns # later"
    and "docs_of get_many node ns = None" "k \<in> set (ns # later)"
  shows "list_all (\<lambda>r. \<exists>e. r = Err e) (fst (sweeps get_many order nows node)) \<and>
    (is_tracked_for (content (snd (sweeps get_many order nows node))) k h \<longleftrightarrow> is_tracked_for (content node) k h)"
  using assms(1,3,4)
proof (induction nows arbitrary: node)
  case (Cons now nows)
  let ?m = "snd (prune_once get_many order now node)"
  have known: "distinct (earlier @ ns # later)" "hm_get (handles node) ns \<noteq> None"
    using Cons.prems(2) registry_inv_simps(1) [OF node_invD(2) [OF Cons.prems(1)]] node_invD(7) [OF Cons.prems(1)]
    by (auto simp: known_namespaces_def)
  note res = prune_once_result [OF Cons.prems(1) assms(2), where get_many = get_many and now = now]
  have same: "known_namespaces (registry ?m) = earlier @ ns # later" "docs_of get_many ?m ns = None"
    using Cons.prems(2,3) by (simp_all add: res(2) docs_of_cong [OF res(3)])
  have stops: "\<exists>e. fst (prune_once get_many order now node) = Err e"
      "?m = snd (prune_loop get_many order now earlier \<lparr>released = 0, superseded = 0, expired = 0\<rparr> node)"
    using prune_loop_stops [OF assms(2) Cons.prems(1) known(2) Cons.prems(3)] Cons.prems(2)
    by (simp_all add: prune_once_def)
  have "k \<notin> set earlier"
    using known(1) assms(5) by auto
  then have "is_tracked_for (content ?m) k h \<longleftrightarrow> is_tracked_for (content node) k h"
    using prune_loop_result [OF Cons.prems(1) assms(2), of get_many now earlier "\<lparr>released = 0, superseded = 0, expired = 0\<rparr>"]
    unfolding stops(2) by blast
  then show ?case
    using Cons.IH [OF res(1) same] stops(1) by (simp add: split_beta Let_def)
qed simp

section \<open>Witnesses\<close>

lemma two_fix_authors:
  "fresh_authors [old_fix, new_fix] (from_hours 1) 10 = {[0xA1]}" "fresh_others [old_fix, new_fix] (from_hours 1) 10 = {}"
  using two_fix_decode
  by (force simp: fresh_authors_def fresh_others_def fix_of_def fresh_def hour_window)+

theorem sweep_bounds_memory_witness:
  "card {h \<in> {[9], [8]}. is_tracked_for (content (snd (prune_once two_fix_docs (\<lambda>xs. xs) 10 one_entry_node))) [1] h} \<le> 1"
proof -
  obtain c node' where run: "prune_once two_fix_docs (\<lambda>xs. xs) 10 one_entry_node = (Ok c, node')"
    by (rule two_fix_sweep)
  have "docs_of two_fix_docs one_entry_node [1] = Some [old_fix, new_fix]"
    by (simp add: two_fix_docs_of)
  moreover have "cand_hash c = cand_hash d"
    if "c \<in> set [old_fix, new_fix]" "d \<in> set [old_fix, new_fix]" "fix_of c = Some f" "fix_of d = Some f" for c d f
    using that two_fix_decode by (auto simp: fix_of_def)
  ultimately have "card {h \<in> cand_hash ` set [old_fix, new_fix]. is_tracked_for (content node') [1] h} \<le>
      card (fresh_authors [old_fix, new_fix] (node_retention one_entry_node) 10) +
      card (fresh_others [old_fix, new_fix] (node_retention one_entry_node) 10)"
    by (rule sweep_bounds_memory [OF one_entry_inv identity_order run])
  then show ?thesis
    by (simp add: run two_fix_hashes one_entry_retention two_fix_authors)
qed

text \<open>Author \<open>A1\<close>, spelt in lower and in upper case.\<close>

definition spelt_docs :: "unit docs_query" where
  "spelt_docs doc = Ok
     [Ok \<lparr>entry_key = encode_fix_key [0xA1] 1, entry_hash = [9], entry_timestamp = 5000\<rparr>,
      Ok \<lparr>entry_key = 65 # tl (encode_fix_key [0xA1] 1), entry_hash = [8], entry_timestamp = 5000\<rparr>]"

lemma spelt_docs_of: "docs_of spelt_docs one_entry_node [1] = Some [old_fix,
    \<lparr>cand_hash = [8], cand_key = 65 # tl (encode_fix_key [0xA1] 1), cand_written_ms = 5\<rparr>]"
  by (simp add: docs_of_def one_entry_node_def spelt_docs_def old_fix_def entry_written_ms_def)

lemma spelt_key: "map ascii_lower (65 # tl (encode_fix_key [0xA1] 1)) = encode_fix_key [0xA1] 1"
  by code_simp

lemma plain_key: "map ascii_lower (encode_fix_key [0xA1] 1) = encode_fix_key [0xA1] 1"
  by code_simp

theorem spelling_variants_all_kept_witness:
  "is_tracked_for (content (snd (prune_once spelt_docs (\<lambda>xs. xs) 10 one_entry_node))) [1] [9]"
proof -
  have "map ascii_lower (cand_key c) = encode_fix_key [0xA1] 1 \<and> fresh (node_retention one_entry_node) 10 c"
    if "c \<in> set [old_fix, \<lparr>cand_hash = [8], cand_key = 65 # tl (encode_fix_key [0xA1] 1), cand_written_ms = 5\<rparr>]" for c
    using that spelt_key by (auto simp: plain_key old_fix_def fresh_def hour_window one_entry_retention)
  then show ?thesis
    by (subst spelling_variants_all_kept [OF one_entry_inv identity_order spelt_docs_of, of "[0xA1]" 1])
      (auto simp: one_entry_tracked)
qed

text \<open>The stream of the only document breaks off.\<close>

definition broken_docs :: "unit docs_query" where
  "broken_docs doc = Ok [Err ''connection lost'']"

theorem unreadable_document_blocks_sweep_witness:
  "list_all (\<lambda>r. \<exists>e. r = Err e) (fst (sweeps broken_docs (\<lambda>xs. xs) [10, 3600010] one_entry_node)) \<and>
   is_tracked_for (content (snd (sweeps broken_docs (\<lambda>xs. xs) [10, 3600010] one_entry_node))) [1] [9]"
proof -
  have "known_namespaces (registry one_entry_node) = [] @ [1] # []"
    by (simp add: one_entry_node_def known_namespaces_def register_fields) (simp add: new_registry_def hs_insert_def)
  moreover have "docs_of broken_docs one_entry_node [1] = None"
    by (simp add: docs_of_def broken_docs_def one_entry_node_def)
  ultimately show ?thesis
    using unreadable_document_blocks_sweep [OF one_entry_inv identity_order, of "[]" "[1]" "[]" broken_docs "[1]"]
    by (simp add: one_entry_tracked del: sweeps.simps)
qed

end
