(* ===== verification/Node_Lifetime.thy ===== *)
theory Node_Lifetime
  imports Node_System
begin

text \<open>
  The life of a watch task (\<open>spawn_watch\<close> in \<open>rust/src/node.rs\<close>). A task serves the events of its
  namespace one after the other and ends when it cannot subscribe, when the event stream fails and
  when the stream closes. \<open>Node_System\<close> takes every spawned task to be alive; here the tasks that are
  still running are part of the state, and the lemmas show what becomes of a namespace whose task
  has ended.
\<close>

section \<open>One task\<close>

text \<open>What the docs engine delivers; the variants other than \<open>InsertRemote\<close> are not looked at.\<close>

datatype live_event = InsertRemote bytes content_hash endpoint_id | OtherEvent

text \<open>
  The loop over the events, each with the clock at which it is handled, on the node that only this
  task changes: the wakes sent and the node when the task ends.
\<close>

fun watch_loop :: "'b blob_api \<Rightarrow> delivery_service \<Rightarrow> waker \<Rightarrow> push_credentials \<Rightarrow> namespace_id \<Rightarrow>
    (u64 \<times> (string, live_event) result) list \<Rightarrow> ('d, 'b) stash_node \<Rightarrow> wake_event list \<times> ('d, 'b) stash_node" where
  "watch_loop api delivery wk creds ns [] node = ([], node)"
| "watch_loop api delivery wk creds ns ((now, Err e) # events) node = ([], node)"
| "watch_loop api delivery wk creds ns ((now, Ok OtherEvent) # events) node =
     watch_loop api delivery wk creds ns events node"
| "watch_loop api delivery wk creds ns ((now, Ok (InsertRemote k hash from)) # events) node =
     (let (ready, node1) = handle_insert_remote api now ns k hash from node;
          sent = (case ready of None \<Rightarrow> [] | Some entry \<Rightarrow> wake_for api delivery wk creds node1 hash entry False);
          (sent', node2) = watch_loop api delivery wk creds ns events node1
      in (sent @ sent', node2))"

definition spawn_watch :: "'b blob_api \<Rightarrow> delivery_service \<Rightarrow> waker \<Rightarrow> push_credentials \<Rightarrow> namespace_id \<Rightarrow>
    (string, (u64 \<times> (string, live_event) result) list) result \<Rightarrow> ('d, 'b) stash_node \<Rightarrow>
    wake_event list \<times> ('d, 'b) stash_node" where
  "spawn_watch api delivery wk creds ns subscribed node =
     (case subscribed of Err e \<Rightarrow> ([], node) | Ok events \<Rightarrow> watch_loop api delivery wk creds ns events node)"

text \<open>The events a task handles: those before the first error.\<close>

fun handled :: "namespace_id \<Rightarrow> (u64 \<times> (string, live_event) result) list \<Rightarrow> label list" where
  "handled ns [] = []"
| "handled ns ((now, Err e) # events) = []"
| "handled ns ((now, Ok OtherEvent) # events) = handled ns events"
| "handled ns ((now, Ok (InsertRemote k h from)) # events) = Record now ns k h from # handled ns events"

lemma watch_loop_run:
  "ns \<in> set (watchers node) \<Longrightarrow>
   run env (handled ns events) node (snd (watch_loop (env_api env) delivery wk creds ns events node))"
proof (induction ns events arbitrary: node rule: handled.induct)
  case (4 ns now k h "from" events)
  let ?n = "snd (handle_insert_remote (env_api env) now ns k h from node)"
  have "run env (handled ns events) ?n (snd (watch_loop (env_api env) delivery wk creds ns events ?n))"
    by (rule "4.IH") (simp add: handle_insert_remote_fields "4.prems")
  from run.more [OF step.receive [OF "4.prems"] this] show ?case
    by (simp add: split_beta Let_def)
qed (simp_all add: run.start)

section \<open>All tasks\<close>

text \<open>Why a task ends, and the node with the set of the namespaces whose task is running.\<close>

datatype task_end = SubscribeFailed | StreamFailed | StreamClosed

datatype life_label = Work label | Ends task_end namespace_id

record ('d, 'b) life =
  living :: "('d, 'b) stash_node"
  running :: "namespace_id set"

definition boot :: "('d, 'b) stash_node \<Rightarrow> ('d, 'b) life" where
  "boot node = \<lparr>living = node, running = {}\<rparr>"

text \<open>
  A record is handled by a running task only; a task that a registration spawns runs from then on
  (\<open>watchers\<close> lists all that were ever spawned).
\<close>

inductive life_step :: "('d, 'b) env \<Rightarrow> life_label \<Rightarrow> ('d, 'b) life \<Rightarrow> ('d, 'b) life \<Rightarrow> bool"
  for env where
  works: "step env l (living s) node \<Longrightarrow> (\<And>now ns k h from. l = Record now ns k h from \<Longrightarrow> ns \<in> running s) \<Longrightarrow>
    life_step env (Work l) s
      \<lparr>living = node, running = running s \<union> (set (watchers node) - set (watchers (living s)))\<rparr>"
| ends: "ns \<in> running s \<Longrightarrow> life_step env (Ends why ns) s (s\<lparr>running := running s - {ns}\<rparr>)"

inductive life_run :: "('d, 'b) env \<Rightarrow> life_label list \<Rightarrow> ('d, 'b) life \<Rightarrow> ('d, 'b) life \<Rightarrow> bool"
  for env where
  start: "life_run env [] s s"
| more: "life_step env l s s1 \<Longrightarrow> life_run env ls s1 s2 \<Longrightarrow> life_run env (l # ls) s s2"

inductive_simps life_works_iff: "life_step env (Work l) s t"
inductive_simps life_ends_iff: "life_step env (Ends why ns) s t"

fun work_of :: "life_label list \<Rightarrow> label list" where
  "work_of [] = []"
| "work_of (Work l # ls) = l # work_of ls"
| "work_of (Ends why ns # ls) = work_of ls"

text \<open>Forgetting which tasks run gives a run of \<open>Node_System\<close>, so all its guarantees hold.\<close>

lemma life_run_works: "life_run env ls s t \<Longrightarrow> run env (work_of ls) (living s) (living t)"
proof (induction rule: life_run.induct)
  case (more l s s1 ls s2)
  then show ?case
    by (cases l) (auto simp: life_works_iff life_ends_iff intro: run.intros)
qed (simp add: run.start)

section \<open>A task that has ended\<close>

lemma step_watchers:
  assumes "step env l node m" "node_inv node" "node_inv m" "is_known (registry node) ns"
  shows "ns \<in> set (watchers node) \<and> ns \<in> set (watchers m)"
  using step_grants [OF assms(1,4)] assms(4) node_invD(6) [OF assms(2)] node_invD(6) [OF assms(3)]
  by (simp add: is_known_def)

lemma control_api_references:
  "is_tracked_for (content (snd (control_api http api docs secret req node))) ns h \<longleftrightarrow>
     is_tracked_for (content node) ns h"
proof -
  have put: "is_tracked_for (content (snd (put_content api n x b node))) ns h \<longleftrightarrow> is_tracked_for (content node) ns h" for n x b
    by (cases rule: put_content_cases [of api n x b node]) simp_all
  show ?thesis
    using put
    by (auto simp: node_register_content(1) node_unsubscribe_content(1) control_api_def psk_guard_def v1_run_def
        register_handler_def put_content_handler_def unsubscribe_handler_def split_beta
        split: option.split route.split http_method.split sum.split)
qed

text \<open>Only a record of the namespace adds a reference of it.\<close>

lemma step_references:
  assumes "step env l node m" "node_inv node" "is_tracked_for (content m) ns h" "\<not> is_tracked_for (content node) ns h"
  shows "\<exists>now k from. l = Record now ns k h from"
  using assms(1)
proof cases
  case (http req)
  then show ?thesis
    using assms(3,4) by (simp add: control_api_references)
next
  case (receive n now k h' "from")
  then show ?thesis
    using assms(3,4) by (auto simp: handle_insert_remote_fields split: if_splits)
next
  case (settle now h' e)
  then show ?thesis
    using assms(3,4) by (simp add: settle_entry_eq settle_commit_fields split: if_splits)
next
  case (release n h')
  then show ?thesis
    using assms(3,4) forget_simps(1) [OF index_invD(2) [OF node_invD(1) [OF assms(2)]]] by simp
qed (use assms(3,4) in simp_all)

text \<open>What a namespace without a task keeps.\<close>

definition abandoned :: "namespace_id \<Rightarrow> ('d, 'b) life \<Rightarrow> ('d, 'b) life \<Rightarrow> bool" where
  "abandoned ns s t \<longleftrightarrow>
     is_known (registry (living t)) ns \<and> ns \<notin> running t \<and> node_inv (living t) \<and>
     (\<forall>h. is_tracked_for (content (living t)) ns h \<longrightarrow> is_tracked_for (content (living s)) ns h)"

lemma life_step_abandoned:
  assumes laws: "env_laws env" and st: "life_step env l t u" and ab: "abandoned ns s t"
    and srv: "servable (env_api env) (living t)"
  shows "abandoned ns s u \<and> servable (env_api env) (living u)"
  using st
proof cases
  case (works lb node)
  have inv: "node_inv (living t)" and known: "is_known (registry (living t)) ns" and dead: "ns \<notin> running t"
    using ab by (simp_all add: abandoned_def)
  note inv' = step_inv [OF laws works(3) inv srv]
  have "is_tracked_for (content (living s)) ns h" if "is_tracked_for (content node) ns h" for h
  proof (cases "is_tracked_for (content (living t)) ns h")
    case True
    then show ?thesis using ab by (simp add: abandoned_def)
  next
    case False
    then show ?thesis using step_references [OF works(3) inv that] works(4) dead by blast
  qed
  then show ?thesis
    using inv' dead step_watchers [OF works(3) inv conjunct1 [OF inv'] known] step_grants [OF works(3) known]
    by (simp add: works(2) abandoned_def)
next
  case (ends n why)
  then show ?thesis
    using ab srv by (simp add: abandoned_def)
qed

lemma life_run_abandoned:
  assumes laws: "env_laws env" and r: "life_run env ls t u" and ab: "abandoned ns s t"
    and srv: "servable (env_api env) (living t)"
  shows "abandoned ns s u"
  using r ab srv
  by (induction rule: life_run.induct) (use life_step_abandoned [OF laws] in blast)+

section \<open>Properties\<close>

text \<open>
  C23. A watch task that ends is never replaced. Once the task of a granted namespace has ended, for
  whatever reason, then in every continuation no task runs for it and no entry it replicates is ever
  referenced, while the namespace stays granted: registering it again succeeds and changes nothing
  but the subscriptions, and an upload for any entry that is not yet referenced is refused as not
  reconciled.
\<close>

theorem dead_watch_never_revived:
  assumes "env_laws env" "life_run env ls (boot (spawn policy store)) s"
    and "is_known (registry (living s)) ns" "ns \<notin> running s" "life_run env ls' s t"
  shows "ns \<notin> running t \<and>
    (\<forall>h. is_tracked_for (content (living t)) ns h \<longrightarrow> is_tracked_for (content (living s)) ns h) \<and>
    (parse_ticket docs ticket = Ok ns \<longrightarrow>
       fst (node_register docs ticket sub (living t)) = Ok ns \<and>
       watchers (snd (node_register docs ticket sub (living t))) = watchers (living t) \<and>
       content (snd (node_register docs ticket sub (living t))) = content (living t)) \<and>
    (\<not> is_tracked_for (content (living s)) ns h \<longrightarrow>
       put_content (env_api env) ns h b (living t) = (Ok UntrackedHash, living t))"
proof -
  have "reachable env (living s)"
    using life_run_works [OF assms(2)] by (auto simp: boot_def reachable_def)
  note inv = reachable_inv [OF assms(1) this]
  have "abandoned ns s s"
    using assms(3,4) inv by (simp add: abandoned_def)
  from life_run_abandoned [OF assms(1,5) this inv(2)]
  have ab: "is_known (registry (living t)) ns" "ns \<notin> running t" "node_inv (living t)"
    "\<And>h. is_tracked_for (content (living t)) ns h \<Longrightarrow> is_tracked_for (content (living s)) ns h"
    by (simp_all add: abandoned_def)
  have "ns \<in> dom (hm_get (handles (living t)))"
    using node_invD(7) [OF ab(3)] ab(1) by (auto simp: is_known_def)
  then have "node_register docs ticket sub (living t) = (Ok ns, finish_register ns sub (living t))"
    if "parse_ticket docs ticket = Ok ns"
    using that by (auto simp: node_register_def)
  moreover have "\<not> fst (register ns sub (registry (living t)))"
    using ab(1) by (simp add: register_def split_beta is_known_def hs_insert_def Let_def split: option.split)
  ultimately show ?thesis
    using ab by (auto simp: finish_register_fields put_content_def)
qed

section \<open>Witnesses\<close>

text \<open>A registration whose task cannot subscribe, and the same registration again.\<close>

definition registered_node :: "(unit, (content_hash, bytes) hmap) stash_node" where
  "registered_node = snd (node_register memory_docs trail_ticket None (spawn (from_hours 1) []))"

lemma post_step:
  "step (trail_env None) (Http post_namespace) node (snd (node_register memory_docs trail_ticket None node))"
proof -
  have "validate_register \<lparr>read_ticket = trail_ticket, push_token = None, req_platform = None\<rparr> =
      Ok \<lparr>valid_ticket = trail_ticket, subscription = None\<rparr>"
    using trail_valid by (simp add: validate_register_def trail_trim Let_def split: if_splits)
  then show ?thesis
    by (simp add: step_http_iff trail_env_def control_api_def post_namespace_def v1_route_path psk_guard_def
        v1_run_def register_handler_def split_beta split: sum.split)
qed

lemma registered_fields:
  "watchers registered_node = [trail_ns]" "is_known (registry registered_node) ns \<longleftrightarrow> ns = trail_ns"
  "\<not> is_tracked_for (content registered_node) ns h"
  by (simp_all add: registered_node_def trail_register finish_register_fields)
    (simp_all add: new_registry_def is_known_def)

lemma deaf_run:
  "life_run (trail_env None) [Work (Http post_namespace), Ends SubscribeFailed trail_ns]
     (boot (spawn (from_hours 1) [])) \<lparr>living = registered_node, running = {}\<rparr>"
proof (rule life_run.more [OF _ life_run.more [OF _ life_run.start]])
  show "life_step (trail_env None) (Work (Http post_namespace)) (boot (spawn (from_hours 1) []))
      \<lparr>living = registered_node, running = {trail_ns}\<rparr>"
    using post_step [of "spawn (from_hours 1) []"] registered_fields(1)
    by (simp add: life_works_iff boot_def registered_node_def)
qed (simp add: life_ends_iff)

theorem dead_watch_never_revived_witness:
  "fst (put_content memory_store trail_ns [9] [9] (snd (node_register memory_docs trail_ticket None registered_node)))
     = Ok UntrackedHash"
proof -
  let ?n = "snd (node_register memory_docs trail_ticket None registered_node)"
  have "life_run (trail_env None) [Work (Http post_namespace)] \<lparr>living = registered_node, running = {}\<rparr>
      \<lparr>living = ?n, running = set (watchers ?n) - set (watchers registered_node)\<rparr>"
    using post_step [of registered_node] by (intro life_run.more [OF _ life_run.start]) (simp add: life_works_iff)
  from dead_watch_never_revived [OF trail_env_laws deaf_run _ _ this, of trail_ns memory_docs trail_ticket None "[9]" "[9]"]
  show ?thesis
    by (simp add: registered_fields trail_env_fields)
qed

end
