(* ===== verification/Node_Trail.thy ===== *)
theory Node_Trail
  imports Node_Recovery Node_Memory Node_Lifetime
begin

text \<open>
  The whole path of a trail through \<open>rust/src/node.rs\<close>: a peer delivers the records of a document, the
  settle loop fetches their bytes, and the sweep collapses the trail to what a reader needs. The
  lemmas compose the watch task, the settle pass and the sweep; the property is the scenario of the
  integration test \<open>prune_collapses_a_trail_to_its_latest_fix_and_still_serves_it\<close> for trails of any
  length, any author and any payloads.
\<close>

section \<open>Delivery\<close>

text \<open>The records of a document as one peer delivers them: keys and content hashes.\<close>

definition deliver :: "'b blob_api \<Rightarrow> u64 \<Rightarrow> namespace_id \<Rightarrow> endpoint_id \<Rightarrow> (bytes \<times> content_hash) list \<Rightarrow>
    ('d, 'b) stash_node \<Rightarrow> ('d, 'b) stash_node" where
  "deliver api now ns from records node =
     fold (\<lambda>(k, h) n. snd (handle_insert_remote api now ns k h from n)) records node"

lemma deliver_simps [simp]:
  "deliver api now ns from [] node = node"
  "deliver api now ns from ((k, h) # records) node =
     deliver api now ns from records (snd (handle_insert_remote api now ns k h from node))"
  by (simp_all add: deliver_def)

lemma deliver_fields:
  "registry (deliver api now ns from records node) = registry node \<and>
   handles (deliver api now ns from records node) = handles node \<and>
   blobs (deliver api now ns from records node) = blobs node \<and>
   node_retention (deliver api now ns from records node) = node_retention node"
  by (induction records arbitrary: node) (auto simp: handle_insert_remote_fields)

lemma deliver_inv: "node_inv node \<Longrightarrow> is_known (registry node) ns \<Longrightarrow> node_inv (deliver api now ns from records node)"
proof (induction records arbitrary: node)
  case (Cons r records)
  obtain k h where "r = (k, h)" by (cases r)
  then show ?case
    using Cons.IH [of "snd (handle_insert_remote api now ns k h from node)"] Cons.prems
    by (simp add: handle_insert_remote_inv handle_insert_remote_fields(1))
qed simp

lemma deliver_servable:
  assumes "blob_laws api"
  shows "servable api node \<Longrightarrow> servable api (deliver api now ns from records node)"
proof (induction records arbitrary: node)
  case (Cons r records)
  obtain k h where "r = (k, h)" by (cases r)
  then show ?case
    using Cons.IH handle_insert_remote_servable [OF assms Cons.prems] by simp
qed simp

lemma deliver_references:
  "is_tracked_for (content (deliver api now ns from records node)) ns' h \<longleftrightarrow>
     is_tracked_for (content node) ns' h \<or> ns' = ns \<and> h \<in> snd ` set records"
proof (induction records arbitrary: node)
  case (Cons r records)
  obtain k h' where r: "r = (k, h')" by (cases r)
  have "is_tracked_for (content (snd (handle_insert_remote api now ns k h' from node))) ns' h \<longleftrightarrow>
      is_tracked_for (content node) ns' h \<or> ns' = ns \<and> h = h'"
    by (simp add: handle_insert_remote_fields)
  then show ?case
    unfolding r deliver_simps Cons.IH by auto
qed simp

text \<open>What a record that is new to the table leaves in it.\<close>

lemma deliver_tracked:
  "hm_get (tracked (deliver api now ns from records node)) h = Some e \<Longrightarrow>
   hm_get (tracked node) h = Some e \<or> (\<exists>k present. e = received_entry now ns k from present)"
proof (induction records arbitrary: node)
  case (Cons r records)
  obtain k h' where r: "r = (k, h')" by (cases r)
  let ?n = "snd (handle_insert_remote api now ns k h' from node)"
  have get: "hm_get (tracked ?n) h = (if h = h'
      then Some (unwrap_or (received_entry now ns k from (store_has api (blobs node) h')) (hm_get (tracked node) h'))
      else hm_get (tracked node) h)"
    by (simp add: handle_insert_remote_fields)
  consider "hm_get (tracked ?n) h = Some e" | "\<exists>k present. e = received_entry now ns k from present"
    using Cons.IH [of ?n] Cons.prems unfolding r deliver_simps by blast
  then show ?case
  proof cases
    case 1
    then show ?thesis
      unfolding get by (cases "hm_get (tracked node) h'") (auto split: if_splits)
  qed simp
qed simp

section \<open>Counting\<close>

lemma stats_card:
  assumes "node_inv node"
  shows "content_stats node =
    (card {h. is_tracked (content node) h \<and> \<not> is_present (content node) h}, card {h. is_tracked (content node) h})"
proof -
  note wf = index_invD(1) [OF node_invD(1) [OF assms]]
  have "{h. \<exists>s. hm_get (state (content node)) h = Some s \<and> s = Wanted} =
      {h. is_tracked (content node) h \<and> \<not> is_present (content node) h}"
    by (auto simp: is_tracked_def is_present_def) (metis state.exhaust)
  moreover have "dom (hm_get (state (content node))) = {h. is_tracked (content node) h}"
    by (auto simp: is_tracked_def)
  ultimately show ?thesis
    using hm_count [OF wf, of "\<lambda>s. s = Wanted"] hm_length [OF wf]
    by (simp add: content_stats_def missing_count_def tracked_count_def)
qed

lemma tracked_references: "node_inv node \<Longrightarrow> is_tracked (content node) h \<longleftrightarrow> (\<exists>ns. is_tracked_for (content node) ns h)"
  by (rule index_invD(3) [OF node_invD(1)])

section \<open>A pass that reaches everybody\<close>

lemma settle_once_references:
  assumes "blob_laws api" "net_laws api net"
  shows "is_tracked_for (content (snd (settle_once api net now node))) ns h \<longleftrightarrow> is_tracked_for (content node) ns h"
    "registry (snd (settle_once api net now node)) = registry node"
    "handles (snd (settle_once api net now node)) = handles node"
  using settle_list_le [OF assms, of node now "outstanding node"] unfolding settle_once_def settle_le_def by blast+

lemma pass_completes:
  assumes laws: "blob_laws api" "net_laws api net" and inv: "node_inv node"
    and reach: "\<And>h e. hm_get (tracked node) h = Some e \<Longrightarrow> \<not> content_present e \<Longrightarrow>
      next_attempt_ms e \<le> now \<and> (\<exists>peer. holder net e peer \<and> answers net peer h)"
    and h: "is_tracked (content node) h"
  shows "is_present (content (snd (settle_once api net now node))) h"
proof -
  let ?m = "snd (settle_once api net now node)"
  obtain e where e: "hm_get (tracked node) h = Some e"
    using tracked_iff [OF inv, of h] h by auto
  have "\<exists>t. hm_get (tracked ?m) h = Some t \<and> content_present t"
  proof (cases "content_present e")
    case True
    then show ?thesis
      using settle_once_skips(1) [OF inv, of h] e by simp
  next
    case False
    then show ?thesis
      using reach [OF e] pass_fetches [OF laws inv e False] by blast
  qed
  then show ?thesis
    using node_invD(10) [OF settle_once_inv [OF inv]] by blast
qed

section \<open>A trail\<close>

text \<open>\<open>spawn_trail_writer\<close>: the fixes 1 to n of one author, then the control slot, which reuses fix 1's bytes.\<close>

definition trail :: "bytes \<Rightarrow> nat \<Rightarrow> (nat \<Rightarrow> content_hash) \<Rightarrow> (bytes \<times> content_hash) list" where
  "trail a n sealed =
     map (\<lambda>i. (encode_fix_key a (of_nat i), sealed i)) [1..<Suc n] @ [(encode_ctl_key a, sealed 1)]"

definition record_of :: "prune_candidate \<Rightarrow> bytes \<times> content_hash" where
  "record_of c = (cand_key c, cand_hash c)"

lemma trail_set:
  "set (trail a n sealed) =
     (\<lambda>i. (encode_fix_key a (of_nat i), sealed i)) ` {1..n} \<union> {(encode_ctl_key a, sealed 1)}"
  by (simp only: trail_def set_append set_map set_upt atLeastLessThanSuc_atLeastAtMost list.set)

lemma trail_hashes: "1 \<le> n \<Longrightarrow> snd ` set (trail a n sealed) = sealed ` {1..n}"
  unfolding trail_set by (auto simp: image_Un image_image)

lemma trail_fix_of:
  assumes "map record_of cs = trail a n sealed" "c \<in> set cs" "a \<noteq> []"
  obtains (numbered) i where "1 \<le> i" "i \<le> n" "fix_of c = Some \<lparr>author = a, seq = of_nat i\<rparr>" "cand_hash c = sealed i"
    | (control) "fix_of c = None" "cand_hash c = sealed 1"
proof -
  have "record_of c \<in> set (trail a n sealed)"
    using assms(1,2) by (metis image_eqI list.set_map)
  then consider i where "1 \<le> i" "i \<le> n" "cand_key c = encode_fix_key a (of_nat i)" "cand_hash c = sealed i"
    | "cand_key c = encode_ctl_key a" "cand_hash c = sealed 1"
    unfolding trail_set record_of_def by auto
  then show ?thesis
  proof cases
    case 1
    then show ?thesis
      using assms(3) by (intro numbered) (simp_all add: fix_of_def)
  next
    case 2
    then show ?thesis
      using decode_ctl_key [of "fmt_hex a"] by (intro control) (simp_all add: fix_of_def encode_ctl_key_def)
  qed
qed

lemma trail_member:
  assumes "map record_of cs = trail a n sealed" "a \<noteq> []"
  shows "1 \<le> i \<Longrightarrow> i \<le> n \<Longrightarrow> \<exists>c \<in> set cs. fix_of c = Some \<lparr>author = a, seq = of_nat i\<rparr> \<and> cand_hash c = sealed i"
    "\<exists>c \<in> set cs. fix_of c = None \<and> cand_hash c = sealed 1"
proof -
  have mem: "\<exists>c \<in> set cs. cand_key c = k \<and> cand_hash c = h" if "(k, h) \<in> set (trail a n sealed)" for k h
  proof -
    have "(k, h) \<in> record_of ` set cs"
      using that assms(1) by (metis list.set_map)
    then show ?thesis by (auto simp: record_of_def)
  qed
  show "\<exists>c \<in> set cs. fix_of c = Some \<lparr>author = a, seq = of_nat i\<rparr> \<and> cand_hash c = sealed i" if "1 \<le> i" "i \<le> n"
  proof -
    have "(encode_fix_key a (of_nat i), sealed i) \<in> set (trail a n sealed)"
      unfolding trail_set using that by auto
    then obtain c where "c \<in> set cs" "cand_key c = encode_fix_key a (of_nat i)" "cand_hash c = sealed i"
      using mem by blast
    then show ?thesis
      by (intro bexI [of _ c]) (simp_all only: fix_of_def decode_encode_fix_key [OF assms(2)] simp_thms)
  qed
  show "\<exists>c \<in> set cs. fix_of c = None \<and> cand_hash c = sealed 1"
  proof -
    have "(encode_ctl_key a, sealed 1) \<in> set (trail a n sealed)"
      unfolding trail_set by simp
    then obtain c where "c \<in> set cs" "cand_key c = encode_ctl_key a" "cand_hash c = sealed 1"
      using mem by blast
    then show ?thesis
      using decode_ctl_key [of "fmt_hex a"] by (intro bexI [of _ c]) (simp_all only: fix_of_def encode_ctl_key_def simp_thms)
  qed
qed

text \<open>Inside the window the policy keeps the last fix and the control slot.\<close>

lemma trail_number: "j \<le> n \<Longrightarrow> n < 2 ^ 64 \<Longrightarrow> unat (of_nat j :: u64) = j"
  by (intro unat_of_nat_u64) simp

lemma trail_keeps:
  assumes cs: "map record_of cs = trail a n sealed" "a \<noteq> []" and n: "1 \<le> n" "n < 2 ^ 64"
    and fr: "\<And>c. c \<in> set cs \<Longrightarrow> fresh p now c" and c: "c \<in> set cs"
  shows "keeps cs p now c \<longleftrightarrow> fix_of c \<in> {None, Some \<lparr>author = a, seq = of_nat n\<rparr>}"
  using cs(1) c cs(2)
proof (cases rule: trail_fix_of)
  case control
  then show ?thesis
    using fr [OF c] by (simp add: keeps_iff)
next
  case (numbered i)
  note nat = trail_number [OF _ n(2)]
  have le: "(of_nat j :: u64) \<le> of_nat i \<longleftrightarrow> j \<le> i" if "j \<le> n" for j
    using nat [OF that] nat [OF numbered(2)] by (simp add: u64_le_iff)
  have "keeps cs p now c \<longleftrightarrow> i = n"
  proof
    assume "keeps cs p now c"
    moreover obtain d where "d \<in> set cs" "fix_of d = Some \<lparr>author = a, seq = of_nat n\<rparr>"
      using trail_member(1) [OF cs n(1) order_refl] by blast
    ultimately have "(of_nat n :: u64) \<le> of_nat i"
      using numbered(3) unfolding keeps_iff by (metis fix_key.select_convs)
    then show "i = n"
      using le [of n] numbered(2) by simp
  next
    assume i: "i = n"
    have "seq g \<le> of_nat n" if "d \<in> set cs" "fix_of d = Some g" for d g
      using cs(1) that(1) cs(2) by (cases rule: trail_fix_of) (use that(2) le i in auto)
    then show "keeps cs p now c"
      using fr [OF c] numbered(3) i unfolding keeps_iff by (metis fix_key.select_convs(2) option.inject)
  qed
  moreover have "(of_nat i :: u64) = of_nat n \<longleftrightarrow> i = n"
    using nat [OF numbered(2)] nat [of n] by (metis order_refl)
  ultimately show ?thesis
    by (simp add: numbered(3))
qed

text \<open>A blob other than the first is named by one key of the trail only.\<close>

lemma trail_named_once:
  assumes cs: "map record_of cs = trail a n sealed" "a \<noteq> []" and inj: "inj_on sealed {1..n}"
    and c: "c \<in> set cs" "cand_hash c = sealed i" "2 \<le> i" "i \<le> n"
  shows "fix_of c = Some \<lparr>author = a, seq = of_nat i\<rparr>"
  using cs(1) c(1) cs(2)
proof (cases rule: trail_fix_of)
  case control
  then have "i = 1"
    using inj_onD [OF inj, of i 1] c(2-4) by simp
  then show ?thesis
    using c(3) by simp
next
  case (numbered j)
  then have "j = i"
    using c(2-4) by (intro inj_onD [OF inj]) simp_all
  then show ?thesis
    using numbered(3) by simp
qed

lemma trail_releasable:
  assumes cs: "map record_of cs = trail a n sealed" "a \<noteq> []" and n: "1 \<le> n" "n < 2 ^ 64"
    and inj: "inj_on sealed {1..n}" and fr: "\<And>c. c \<in> set cs \<Longrightarrow> fresh p now c"
  shows "releasable cs p now h \<longleftrightarrow> h \<in> sealed ` {2..<n}"
proof
  note keep = trail_keeps [OF cs n fr]
  assume r: "releasable cs p now h"
  then obtain c where c: "c \<in> set cs" "cand_hash c = h" "\<not> keeps cs p now c"
    by (auto simp: releasable_def)
  obtain i where i: "1 \<le> i" "i \<le> n" "h = sealed i" "fix_of c = Some \<lparr>author = a, seq = of_nat i\<rparr>"
    using cs(1) c(1) cs(2) by (cases rule: trail_fix_of) (use c keep in auto)
  have "i \<noteq> n"
    using i(4) c keep by auto
  moreover have "i \<noteq> 1"
    using r i(3) trail_member(2) [OF cs] keep unfolding releasable_def by (metis insertI1)
  ultimately show "h \<in> sealed ` {2..<n}"
    using i by auto
next
  note keep = trail_keeps [OF cs n fr]
  assume "h \<in> sealed ` {2..<n}"
  then obtain i where i: "2 \<le> i" "i < n" "h = sealed i"
    by auto
  have "(of_nat i :: u64) \<noteq> of_nat n"
    using trail_number [OF less_imp_le n(2), of i] trail_number [OF order_refl n(2)] i(2) by (metis less_irrefl)
  then have "\<not> keeps cs p now c" if c: "c \<in> set cs" "cand_hash c = h" for c
    using keep [OF _ c(1)] trail_named_once [OF cs inj c(1)] c(2) i by auto
  moreover have "h \<in> cand_hash ` set cs"
    using trail_member(1) [OF cs, of i] i by (metis image_eqI less_imp_le numeral_One one_le_numeral order_trans)
  ultimately show "releasable cs p now h"
    by (simp add: releasable_def)
qed

text \<open>Delivery and one pass.\<close>

definition catch_up :: "'b blob_api \<Rightarrow> 'b net_api \<Rightarrow> u64 \<Rightarrow> u64 \<Rightarrow> namespace_id \<Rightarrow> endpoint_id \<Rightarrow>
    (bytes \<times> content_hash) list \<Rightarrow> ('d, 'b) stash_node \<Rightarrow> ('d, 'b) stash_node" where
  "catch_up api net t now ns from records node = snd (settle_once api net now (deliver api t ns from records node))"

text \<open>Delivery and one pass: every blob of the trail is here.\<close>

lemma trail_caught_up:
  assumes full_def: "full = catch_up api net t now ns from (trail a n sealed) node"
    and laws: "blob_laws api" "net_laws api net"
    and node: "node_inv node" "servable api node" "is_known (registry node) ns"
      "\<And>ns' h. \<not> is_tracked_for (content node) ns' h"
    and n: "1 \<le> n"
    and peer: "\<And>i. 1 \<le> i \<Longrightarrow> i \<le> n \<Longrightarrow> answers net from (sealed i)"
  shows "node_inv full" "servable api full"
    "is_tracked_for (content full) ns' h \<longleftrightarrow> ns' = ns \<and> h \<in> sealed ` {1..n}"
    "h \<in> sealed ` {1..n} \<Longrightarrow> is_present (content full) h"
proof -
  let ?d = "deliver api t ns from (trail a n sealed) node"
  have inv: "node_inv ?d" "servable api ?d"
    using deliver_inv [OF node(1,3)] deliver_servable [OF laws(1) node(2)] by blast+
  have refs: "is_tracked_for (content ?d) ns' h \<longleftrightarrow> ns' = ns \<and> h \<in> sealed ` {1..n}" for ns' h
    using deliver_references [of api t ns "from" "trail a n sealed" node ns' h] trail_hashes [of n a sealed] n node(4)
    by simp
  show full: "node_inv full" "servable api full"
    unfolding full_def catch_up_def using inv laws by (auto intro: settle_once_inv settle_once_servable)
  show frefs: "is_tracked_for (content full) ns' h \<longleftrightarrow> ns' = ns \<and> h \<in> sealed ` {1..n}" for ns' h
    unfolding full_def catch_up_def settle_once_references(1) [OF laws(1,2)] by (rule refs)
  show "is_present (content full) h" if "h \<in> sealed ` {1..n}" for h
    unfolding full_def catch_up_def
  proof (rule pass_completes [OF laws(1,2) inv(1)])
    show "is_tracked (content ?d) h"
      using that by (simp add: tracked_references [OF inv(1)] refs)
    fix h e
    assume e: "hm_get (tracked ?d) h = Some e" "\<not> content_present e"
    have "hm_get (tracked node) h = None"
      using tracked_iff [OF node(1), of h] tracked_references [OF node(1), of h] node(4) by blast
    then obtain k p where "e = received_entry t ns k from p"
      using deliver_tracked [OF e(1)] by auto
    then have "next_attempt_ms e = 0" "delivered_by e = from"
      by (simp_all add: received_entry_def)
    moreover have "h \<in> sealed ` {1..n}"
      using e(1) tracked_iff [OF inv(1), of h] by (simp add: tracked_references [OF inv(1)] refs)
    ultimately show "next_attempt_ms e \<le> now \<and> (\<exists>peer. holder net e peer \<and> answers net peer h)"
      using peer by (auto simp: holder_def)
  qed
qed

text \<open>A sweep of a stash that holds the whole trail, all of it inside the window.\<close>

lemma trail_swept:
  assumes full: "node_inv full" "\<And>ns' h. is_tracked_for (content full) ns' h \<longleftrightarrow> ns' = ns \<and> h \<in> sealed ` {1..n}"
      "\<And>h. h \<in> sealed ` {1..n} \<Longrightarrow> is_present (content full) h"
    and order: "iteration_order order"
    and n: "2 \<le> n" "n < 2 ^ 64" "a \<noteq> []" "inj_on sealed {1..n}"
    and docs: "docs_of get_many full ns = Some cs" "map record_of cs = trail a n sealed"
      "\<And>c. c \<in> set cs \<Longrightarrow> fresh (node_retention full) now' c"
    and sweep: "prune_once get_many order now' full = (Ok c, node')"
  shows "is_tracked_for (content node') ns' h \<longleftrightarrow> ns' = ns \<and> h \<in> {sealed 1, sealed n}"
    "h \<in> {sealed 1, sealed n} \<Longrightarrow> is_present (content node') h"
    "content_stats node' = (0, 2)"
proof -
  note res = prune_once_result [OF full(1) order, where get_many = get_many and now = now', unfolded sweep fst_conv snd_conv]
  have may: "may_release get_many now' full ns h \<longleftrightarrow> h \<in> sealed ` {2..<n}" for h
    using trail_releasable [OF docs(2) n(3) _ n(2,4) docs(3)] n(1) docs(1) by (simp add: may_release_def)
  show prefs: "is_tracked_for (content node') ns' h \<longleftrightarrow> ns' = ns \<and> h \<in> {sealed 1, sealed n}" for ns' h
  proof -
    have "is_tracked_for (content node') ns h \<longleftrightarrow> h \<in> sealed ` {1..n} \<and> h \<notin> sealed ` {2..<n}"
      using res(6,7) [of ns h] res(9) [OF refl, of ns h] may [of h] full(2) [of ns h] by blast
    also have "\<dots> \<longleftrightarrow> h \<in> sealed ` ({1..n} - {2..<n})"
    proof -
      have "{1..n} - {2..<n} \<subseteq> {1..n}" "{2..<n} \<subseteq> {1..n}"
        by auto
      from inj_on_image_set_diff [OF n(4) this] show ?thesis
        by blast
    qed
    also have "{1..n} - {2..<n} = {1, n}"
      using n(1) by auto
    finally show ?thesis
      using res(6) [of ns' h] full(2) [of ns' h] by auto
  qed
  then have ptracked: "is_tracked (content node') h \<longleftrightarrow> h \<in> {sealed 1, sealed n}" for h
    by (simp add: tracked_references [OF res(1)])
  show ppresent: "is_present (content node') h" if "h \<in> {sealed 1, sealed n}" for h
    using that res(8) [of h] ptracked [of h] full(3) [of h] n(1) by auto
  have "sealed 1 \<noteq> sealed n"
    using inj_onD [OF n(4), of 1 n] n(1) by auto
  then have card: "card {sealed 1, sealed n} = 2"
    by simp
  have sets: "{h. is_tracked (content node') h} = {sealed 1, sealed n}"
    "{h. is_tracked (content node') h \<and> \<not> is_present (content node') h} = {}"
    using ptracked ppresent by blast+
  show "content_stats node' = (0, 2)"
    unfolding stats_card [OF res(1)] sets card by simp
qed

section \<open>Properties\<close>

text \<open>
  C16. Catching up from the stash. A peer that answers delivers a trail of \<open>n\<close> fixes and the control slot
  to a stash that holds nothing else. One settle pass later all \<open>n\<close> blobs are here. A sweep inside the
  window then releases exactly the superseded fixes but the one whose bytes the control slot shares:
  the latest fix and the control message are served, the others are gone, nothing is missing, and a
  second sweep releases nothing.
\<close>

theorem trail_collapses_to_latest:
  assumes full_def: "full = catch_up api net t now ns from (trail a n sealed) node"
    and laws: "blob_laws api" "net_laws api net" "iteration_order order"
    and node: "node_inv node" "servable api node" "is_known (registry node) ns"
      "\<And>ns' h. \<not> is_tracked_for (content node) ns' h"
    and n: "2 \<le> n" "n < 2 ^ 64" "a \<noteq> []" "inj_on sealed {1..n}"
    and peer: "\<And>i. 1 \<le> i \<Longrightarrow> i \<le> n \<Longrightarrow> answers net from (sealed i)"
    and docs: "docs_of get_many full ns = Some cs" "map record_of cs = trail a n sealed"
      "\<And>c. c \<in> set cs \<Longrightarrow> fresh (node_retention full) now' c"
    and sweep: "prune_once get_many order now' full = (Ok c, node')"
  shows "content_stats full = (0, n) \<and> released c = n - 2 \<and> content_stats node' = (0, 2) \<and>
    content_bytes api node' ns (sealed n) \<noteq> None \<and> content_bytes api node' ns (sealed 1) \<noteq> None \<and>
    (\<forall>i. 1 < i \<and> i < n \<longrightarrow> content_bytes api node' ns (sealed i) = None) \<and>
    (\<exists>c'. fst (prune_once get_many order now' node') = Ok c' \<and> released c' = 0)"
proof -
  note full = trail_caught_up [OF full_def laws(1,2) node _ peer]
  have one: "1 \<le> n"
    using n(1) by simp
  have refs: "is_tracked_for (content full) ns' h \<longleftrightarrow> ns' = ns \<and> h \<in> sealed ` {1..n}"
    and present: "h \<in> sealed ` {1..n} \<Longrightarrow> is_present (content full) h" for ns' h
    using full(3,4) one by blast+
  have inv: "node_inv full" "servable api full"
    using full(1,2) one by blast+
  note swept = trail_swept [OF inv(1) refs present laws(3) n docs sweep]
  note res = prune_once_result [OF inv(1) laws(3), where get_many = get_many and now = now', unfolded sweep fst_conv snd_conv]
  have "content_stats full = (0, card (sealed ` {1..n}))"
    using present by (simp add: stats_card [OF inv(1)] tracked_references [OF inv(1)] refs cong: conj_cong)
  then have s1: "content_stats full = (0, n)"
    using card_image [OF n(4)] by simp
  then have "released c + 2 = n"
    using res(10) [OF refl] swept(3) by (simp add: content_stats_def)
  moreover have "servable api node'"
    using inv(2) res(8) by (simp add: servable_def res(4))
  then have "content_bytes api node' ns h \<noteq> None" if "h \<in> {sealed 1, sealed n}" for h
    using that swept(1,2) by (auto simp: content_bytes_def is_present_for_iff servable_def)
  moreover have "content_bytes api node' ns (sealed i) = None" if "1 < i" "i < n" for i
  proof -
    have "sealed i \<notin> {sealed 1, sealed n}"
      using inj_onD [OF n(4), of i 1] inj_onD [OF n(4), of i n] that by auto
    then show ?thesis
      using swept(1) by (simp add: content_bytes_def is_present_for_iff)
  qed
  moreover have "\<exists>c'. fst (prune_once get_many order now' node') = Ok c' \<and> released c' = 0"
    using sweep_idempotent [OF inv(1) laws(3) laws(3) sweep] by blast
  ultimately show ?thesis
    using s1 swept(3) by auto
qed

section \<open>Witnesses\<close>

text \<open>A document as a query result: every record written at the same time, in microseconds.\<close>

definition docs_query_of :: "u64 \<Rightarrow> (bytes \<times> content_hash) list \<Rightarrow> 'd docs_query" where
  "docs_query_of stamp records doc =
     Ok (map (\<lambda>(k, h). Ok \<lparr>entry_key = k, entry_hash = h, entry_timestamp = stamp\<rparr>) records)"

definition candidates_of :: "u64 \<Rightarrow> (bytes \<times> content_hash) list \<Rightarrow> prune_candidate list" where
  "candidates_of stamp records =
     map (\<lambda>(k, h). \<lparr>cand_hash = h, cand_key = k, cand_written_ms = entry_written_ms stamp\<rparr>) records"

lemma collect_records:
  "collect_candidates (map (\<lambda>(k, h). Ok \<lparr>entry_key = k, entry_hash = h, entry_timestamp = stamp\<rparr>) records) =
     Ok (candidates_of stamp records)"
  by (induction records) (auto simp: candidates_of_def)

lemma docs_of_query:
  "hm_get (handles node) ns = Some doc \<Longrightarrow> docs_of (docs_query_of stamp records) node ns = Some (candidates_of stamp records)"
  by (simp add: docs_of_def docs_query_of_def collect_records)

lemma candidates_records: "map record_of (candidates_of stamp records) = records"
  by (induction records) (auto simp: candidates_of_def record_of_def)

lemma candidates_fresh:
  "unat now \<le> unat (entry_written_ms stamp) + unat (retention_ms p) \<Longrightarrow>
   c \<in> set (candidates_of stamp records) \<Longrightarrow> fresh p now c"
  by (auto simp: candidates_of_def fresh_def)

lemma query_sweep_ok:
  assumes "node_inv node"
  shows "\<exists>c. fst (prune_once (docs_query_of stamp records) (\<lambda>xs. xs) now node) = Ok c"
proof -
  have "hm_get (handles node) ns = None \<or> docs_of (docs_query_of stamp records) node ns \<noteq> None" for ns
    by (cases "hm_get (handles node) ns") (simp_all add: docs_of_query)
  then show ?thesis
    unfolding prune_once_def prune_loop_ok [OF assms identity_order] by blast
qed

lemma catch_up_fields:
  assumes "blob_laws api" "net_laws api net"
  shows "registry (catch_up api net t now ns from records node) = registry node"
    "handles (catch_up api net t now ns from records node) = handles node"
    "node_inv node \<Longrightarrow> is_known (registry node) ns \<Longrightarrow> node_inv (catch_up api net t now ns from records node)"
  by (simp_all add: catch_up_def settle_once_inv deliver_inv deliver_fields settle_once_references(2,3) [OF assms])

lemma settle_retention:
  fixes node :: "('d, 'b) stash_node"
  shows "node_retention (snd (settle_once api net now node)) = node_retention node"
proof -
  have "node_retention (snd (settle_entry api net now h e n)) = node_retention n" for h e and n :: "('d, 'b) stash_node"
    by (cases "hm_get (tracked n) h") (simp_all add: settle_entry_eq settle_commit_eq)
  then have "node_retention (snd (settle_list api net now xs n)) = node_retention n" for xs and n :: "('d, 'b) stash_node"
    by (induction xs arbitrary: n) (auto simp: Let_def)
  then show ?thesis
    by (simp add: settle_once_def)
qed

lemma catch_up_retention: "node_retention (catch_up api net t now ns from records node) = node_retention node"
  by (simp add: catch_up_def settle_retention deliver_fields)

definition byte_of :: "nat \<Rightarrow> content_hash" where
  "byte_of i = [of_nat i]"

lemma byte_of_inj: "inj_on byte_of {1..4}"
proof (rule inj_onI)
  fix i j
  assume "i \<in> {1..4}" "j \<in> {1..4}" "byte_of i = byte_of j"
  moreover have "unat (of_nat k :: u8) = k" if "k \<le> 4" for k
    using that by (simp add: unat_of_nat)
  ultimately show "i = j"
    unfolding byte_of_def by (metis atLeastAtMost_iff list.inject)
qed

lemma registered_node_inv: "node_inv registered_node"
  unfolding registered_node_def by (intro inv_intros)

lemma registered_more: "hm_get (handles registered_node) trail_ns = Some ()" "blobs registered_node = []"
  "node_retention registered_node = from_hours 1" "\<not> is_present (content registered_node) h"
  by (simp_all add: registered_node_def trail_register finish_register_fields)

theorem trail_collapses_to_latest_witness:
  "content_stats (snd (prune_once (docs_query_of 5000 (trail [0xA1] 4 byte_of)) (\<lambda>xs. xs) 10
     (catch_up memory_store awake_net 5 6 trail_ns [7] (trail [0xA1] 4 byte_of) registered_node))) = (0, 2)"
proof -
  define full where "full = catch_up memory_store awake_net 5 6 trail_ns [7] (trail [0xA1] 4 byte_of) registered_node"
  have full: "node_inv full" "handles full = handles registered_node" "node_retention full = from_hours 1"
    by (simp_all add: full_def catch_up_retention registered_more registered_node_inv registered_fields(2)
        catch_up_fields [OF memory_store_laws awake_laws])
  obtain c node' where sweep: "prune_once (docs_query_of 5000 (trail [0xA1] 4 byte_of)) (\<lambda>xs. xs) 10 full = (Ok c, node')"
    using query_sweep_ok [OF full(1)] by (metis prod.collapse)
  have "servable memory_store registered_node"
    by (simp add: servable_def registered_more)
  moreover have "docs_of (docs_query_of 5000 (trail [0xA1] 4 byte_of)) full trail_ns =
      Some (candidates_of 5000 (trail [0xA1] 4 byte_of))"
    by (rule docs_of_query) (simp add: full(2) registered_more)
  moreover have "fresh (node_retention full) 10 d" if "d \<in> set (candidates_of 5000 (trail [0xA1] 4 byte_of))" for d
    by (rule candidates_fresh [OF _ that]) (simp add: full(3) hour_window)
  ultimately have "content_stats full = (0, 4) \<and> content_stats node' = (0, 2)"
    using trail_collapses_to_latest [OF full_def memory_store_laws awake_laws identity_order registered_node_inv
        _ _ registered_fields(3) _ _ _ byte_of_inj _ _ candidates_records _ sweep]
    by (simp add: registered_fields awake_answers)
  then show ?thesis
    by (simp add: full_def [symmetric] sweep)
qed

end
