(* ===== verification/Node_Timing.thy ===== *)
theory Node_Timing
  imports Node_Trail "HOL-Library.Code_Target_Nat"
begin

text \<open>
  How long the settle loop of \<open>rust/src/node.rs\<close> takes. A pass asks for the missing blobs one after the
  other, each attempt is cut off after twenty seconds, and the wakes that a pass released are sent
  when it is over. Time is counted in milliseconds; only the attempts to download take any. The
  lemmas bound a pass from above by the entries that are due, and from below by the peers that do not
  answer.
\<close>

section \<open>Attempts and passes\<close>

definition SETTLE_INTERVAL_MS :: nat where
  "SETTLE_INTERVAL_MS = 250"

definition FETCH_TIMEOUT_SECS :: nat where
  "FETCH_TIMEOUT_SECS = 20"

text \<open>How long a download would take, and the store it leaves behind when it is cut off.\<close>

record 'b timing =
  takes :: "content_hash \<Rightarrow> endpoint_id list \<Rightarrow> 'b \<Rightarrow> nat"
  cut_off :: "content_hash \<Rightarrow> endpoint_id list \<Rightarrow> 'b \<Rightarrow> 'b"

text \<open>The \<open>timeout\<close> around the download in \<open>fetch_content\<close>: the network as the loop sees it.\<close>

definition within_timeout :: "'b timing \<Rightarrow> 'b net_api \<Rightarrow> 'b net_api" where
  "within_timeout timing net =
     \<lparr>endpoint_from_bytes = endpoint_from_bytes net,
      download = \<lambda>h sources store.
        if takes timing h sources store \<le> 1000 * FETCH_TIMEOUT_SECS then download net h sources store
        else (False, cut_off timing h sources store)\<rparr>"

definition attempt_ms :: "'b timing \<Rightarrow> 'b net_api \<Rightarrow> content_hash \<Rightarrow> tracked_entry \<Rightarrow> 'b \<Rightarrow> nat" where
  "attempt_ms timing net h e store = min (takes timing h (fetch_sources net e) store) (1000 * FETCH_TIMEOUT_SECS)"

definition probe_ms :: "'b blob_api \<Rightarrow> 'b timing \<Rightarrow> 'b net_api \<Rightarrow> u64 \<Rightarrow> content_hash \<Rightarrow> tracked_entry \<Rightarrow> 'b \<Rightarrow>
    nat" where
  "probe_ms api timing net now h e store =
     (if store_has api store h then 0
      else if next_attempt_ms e \<le> now then attempt_ms timing net h e store
      else 0)"

fun pass_ms :: "'b blob_api \<Rightarrow> 'b timing \<Rightarrow> 'b net_api \<Rightarrow> u64 \<Rightarrow> (content_hash \<times> tracked_entry) list \<Rightarrow>
    ('d, 'b) stash_node \<Rightarrow> nat" where
  "pass_ms api timing net now [] node = 0"
| "pass_ms api timing net now ((h, e) # rest) node =
     probe_ms api timing net now h e (blobs node) +
     pass_ms api timing net now rest (snd (settle_entry api (within_timeout timing net) now h e node))"

text \<open>
  The loop: ticks are due every interval, a tick that is missed is made up for at once, and the wakes of
  a tick go out at its end. Of each tick the result has the start, the end and the wakes sent.
\<close>

fun run_settle_loop :: "nat \<Rightarrow> 'b blob_api \<Rightarrow> 'b timing \<Rightarrow> 'b net_api \<Rightarrow> delivery_service \<Rightarrow> waker \<Rightarrow> push_credentials \<Rightarrow>
    nat \<Rightarrow> nat \<Rightarrow> ('d, 'b) stash_node \<Rightarrow> (nat \<times> nat \<times> wake_event list) list" where
  "run_settle_loop 0 api timing net delivery wk creds due clock node = []"
| "run_settle_loop (Suc ticks) api timing net delivery wk creds due clock node =
     (let start = max due clock;
          (sent, node1) = settle_tick api (within_timeout timing net) delivery wk creds (of_nat start) node;
          finish = start + pass_ms api timing net (of_nat start) (outstanding node) node
      in (start, finish, sent) #
         run_settle_loop ticks api timing net delivery wk creds (due + SETTLE_INTERVAL_MS) finish node1)"

section \<open>A pass is bounded by what is due\<close>

text \<open>The bytes of the hashes in \<open>H\<close> are in the store; they cost nothing.\<close>

lemma probe_bound:
  "probe_ms api timing net now h e store \<le> (if next_attempt_ms e \<le> now \<and> \<not> store_has api store h then 20000 else 0)"
  by (simp add: probe_ms_def attempt_ms_def FETCH_TIMEOUT_SECS_def)

lemma store_has_settled:
  assumes "net_laws api net" "store_has api (blobs node) k"
  shows "store_has api (blobs (snd (settle_entry api net now h e node))) k"
  using assms by (auto simp: settle_entry_eq settle_commit_fields settle_probe_def fetch_content_def net_laws_def store_has_iff)

lemma pass_bound:
  assumes laws: "net_laws api (within_timeout timing net)"
  shows "(\<And>h. h \<in> H \<Longrightarrow> store_has api (blobs node) h) \<Longrightarrow>
    pass_ms api timing net now xs node \<le> 20000 * length (filter (\<lambda>(h, e). next_attempt_ms e \<le> now \<and> h \<notin> H) xs)"
proof (induction xs arbitrary: node)
  case (Cons x xs)
  obtain h e where x: "x = (h, e)" by (cases x)
  let ?m = "snd (settle_entry api (within_timeout timing net) now h e node)"
  have "pass_ms api timing net now xs ?m \<le> 20000 * length (filter (\<lambda>(h, e). next_attempt_ms e \<le> now \<and> h \<notin> H) xs)"
    using Cons.prems store_has_settled [OF laws] by (intro Cons.IH) blast
  moreover have "probe_ms api timing net now h e (blobs node) \<le> (if next_attempt_ms e \<le> now \<and> h \<notin> H then 20000 else 0)"
    using probe_bound [of api timing net now h e "blobs node"] Cons.prems [of h] by (auto split: if_splits)
  ultimately show ?case
    by (auto simp: x split: if_splits)
qed simp

definition missing_due :: "'b blob_api \<Rightarrow> u64 \<Rightarrow> ('d, 'b) stash_node \<Rightarrow> content_hash set" where
  "missing_due api now node =
     {h. \<exists>e. hm_get (tracked node) h = Some e \<and> \<not> content_present e \<and> next_attempt_ms e \<le> now \<and>
        \<not> store_has api (blobs node) h}"

lemma outstanding_card:
  assumes "node_inv node"
  shows "length (filter (\<lambda>(h, e). P h e) (outstanding node)) =
    card {h. \<exists>e. hm_get (tracked node) h = Some e \<and> \<not> content_present e \<and> P h e}"
proof -
  let ?xs = "filter (\<lambda>(h, e). P h e) (outstanding node)"
  have "distinct (map fst ?xs)"
    by (rule distinct_map_filter [OF outstanding_iff(1) [OF assms]])
  then have "length ?xs = card (fst ` set ?xs)"
    by (metis distinct_card length_map list.set_map)
  moreover have "fst ` set ?xs = {h. \<exists>e. hm_get (tracked node) h = Some e \<and> \<not> content_present e \<and> P h e}"
    using outstanding_iff(2) [OF assms] by force
  ultimately show ?thesis
    by simp
qed

lemma settle_pass_bound:
  assumes "node_inv node" "net_laws api (within_timeout timing net)"
  shows "pass_ms api timing net now (outstanding node) node \<le> 20000 * card (missing_due api now node)"
  using pass_bound [OF assms(2), of "{h. store_has api (blobs node) h}" node now "outstanding node"]
  by (simp add: outstanding_card [OF assms(1)] missing_due_def)

section \<open>Peers that do not answer\<close>

text \<open>
  No download gets the bytes of the hashes in \<open>S\<close>: theirs run into the timeout, and no other brings
  them. Their entries are in the table and due by the time \<open>t\<close>.
\<close>

definition unreachable :: "'b blob_api \<Rightarrow> 'b timing \<Rightarrow> 'b net_api \<Rightarrow> content_hash set \<Rightarrow> bool" where
  "unreachable api timing net S \<longleftrightarrow>
     (\<forall>h \<in> S. \<forall>sources store. 20000 < takes timing h sources store) \<and>
     (\<forall>h \<in> S. \<forall>h' sources store. \<not> store_has api store h \<longrightarrow>
        \<not> store_has api (snd (download (within_timeout timing net) h' sources store)) h)"

definition sleeping :: "'b blob_api \<Rightarrow> content_hash set \<Rightarrow> nat \<Rightarrow> ('d, 'b) stash_node \<Rightarrow> bool" where
  "sleeping api S t node \<longleftrightarrow>
     (\<forall>h \<in> S. \<not> store_has api (blobs node) h \<and>
        (\<exists>e. hm_get (tracked node) h = Some e \<and> \<not> content_present e \<and> unat (next_attempt_ms e) \<le> t))"

lemma sleeping_mono: "sleeping api S t node \<Longrightarrow> t \<le> t' \<Longrightarrow> sleeping api S t' node"
  unfolding sleeping_def by (meson order_trans)

lemma sleeping_entry:
  assumes u: "unreachable api timing net S" and s: "sleeping api S t node" and t: "unat now + 60000 \<le> t" "t < 2 ^ 64"
  shows "sleeping api S t (snd (settle_entry api (within_timeout timing net) now h e node))"
    (is "sleeping api S t ?m")
  unfolding sleeping_def
proof
  fix k
  assume k: "k \<in> S"
  obtain live where live: "\<not> store_has api (blobs node) k" "hm_get (tracked node) k = Some live"
      "\<not> content_present live" "unat (next_attempt_ms live) \<le> t"
    using s k by (auto simp: sleeping_def)
  let ?probe = "settle_probe api (within_timeout timing net) now h e (blobs node)"
  have "\<not> store_has api (snd ?probe) k"
    using u k live(1) by (auto simp: settle_probe_def fetch_content_def unreachable_def)
  then have store: "\<not> store_has api (blobs ?m) k"
    by (simp add: settle_entry_eq settle_commit_fields)
  have absent: "\<not> fst ?probe" if "h = k"
  proof -
    have "\<not> takes timing k sources store \<le> 20000" for sources store
      using u k by (simp add: unreachable_def not_le)
    then show ?thesis
      using live(1) that
      by (auto simp: settle_probe_def fetch_content_def within_timeout_def FETCH_TIMEOUT_SECS_def)
  qed
  have "unat (now + backoff_ms n) \<le> t" for n
    using backoff_add [OF order_refl, of now n] t by linarith
  then have "\<not> content_present (settle_live now e False live) \<and> unat (next_attempt_ms (settle_live now e False live)) \<le> t"
    using live(3,4) by (simp add: settle_live_def settle_retry_def Let_def)
  then have "\<exists>x. hm_get (tracked ?m) k = Some x \<and> \<not> content_present x \<and> unat (next_attempt_ms x) \<le> t"
    using live(2-4) absent by (cases "h = k") (auto simp: settle_entry_tracked probe_def)
  then show "\<not> store_has api (blobs ?m) k \<and>
      (\<exists>x. hm_get (tracked ?m) k = Some x \<and> \<not> content_present x \<and> unat (next_attempt_ms x) \<le> t)"
    using store by blast
qed

lemma sleeping_pass:
  assumes "unreachable api timing net S" "unat now + 60000 \<le> t" "t < 2 ^ 64"
  shows "sleeping api S t node \<Longrightarrow> sleeping api S t (snd (settle_list api (within_timeout timing net) now xs node))"
  by (induction xs arbitrary: node) (auto simp: Let_def sleeping_entry [OF assms(1) _ assms(2,3)])

lemma pass_lower:
  assumes u: "unreachable api timing net S" and t: "unat now + 60000 \<le> t" "t < 2 ^ 64"
    and "\<And>h e. (h, e) \<in> set xs \<Longrightarrow> h \<in> S \<Longrightarrow> next_attempt_ms e \<le> now" "sleeping api S t node"
  shows "20000 * length (filter (\<lambda>(h, e). h \<in> S) xs) \<le> pass_ms api timing net now xs node"
  using assms(4,5)
proof (induction xs arbitrary: node)
  case (Cons x xs)
  obtain h e where x: "x = (h, e)" by (cases x)
  let ?m = "snd (settle_entry api (within_timeout timing net) now h e node)"
  have rest: "20000 * length (filter (\<lambda>(h, e). h \<in> S) xs) \<le> pass_ms api timing net now xs ?m"
    using Cons.prems sleeping_entry [OF u _ t] by (intro Cons.IH) auto
  have "probe_ms api timing net now h e (blobs node) = 20000" if "h \<in> S"
  proof -
    have "20000 < takes timing h (fetch_sources net e) (blobs node)" "\<not> store_has api (blobs node) h"
      using u Cons.prems(2) that by (auto simp: unreachable_def sleeping_def)
    then show ?thesis
      using Cons.prems(1) [of h e] that x by (simp add: probe_ms_def attempt_ms_def FETCH_TIMEOUT_SECS_def)
  qed
  with rest show ?case
    by (auto simp: x)
qed simp

lemma tick_lower:
  assumes inv: "node_inv node" and u: "unreachable api timing net S" and s: "sleeping api S (unat now) node"
    and bound: "unat now + 60000 < 2 ^ 64"
  shows "20000 * card S \<le> pass_ms api timing net now (outstanding node) node"
proof -
  have get: "\<exists>e. hm_get (tracked node) h = Some e \<and> \<not> content_present e \<and> next_attempt_ms e \<le> now" if "h \<in> S" for h
    using s that by (auto simp: sleeping_def u64_le_iff)
  then have sub: "S \<subseteq> fst ` set (filter (\<lambda>(h, e). h \<in> S) (outstanding node))"
    using outstanding_iff(2) [OF inv] by force
  have "card S \<le> card (fst ` set (filter (\<lambda>(h, e). h \<in> S) (outstanding node)))"
    by (rule card_mono [OF _ sub]) simp
  also have "\<dots> \<le> length (filter (\<lambda>(h, e). h \<in> S) (outstanding node))"
    using card_length [of "map fst (filter (\<lambda>(h, e). h \<in> S) (outstanding node))"] by (simp only: set_map length_map)
  finally have "20000 * card S \<le> 20000 * length (filter (\<lambda>(h, e). h \<in> S) (outstanding node))"
    by simp
  also have "\<dots> \<le> pass_ms api timing net now (outstanding node) node"
  proof (rule pass_lower [OF u order_refl bound])
    show "next_attempt_ms e \<le> now" if "(h, e) \<in> set (outstanding node)" "h \<in> S" for h e
      using get [OF that(2)] that(1) [unfolded outstanding_iff(2) [OF inv]] by (elim exE conjE) simp
  qed (rule sleeping_mono [OF s], simp)
  finally show ?thesis .
qed

lemma loop_lower:
  assumes u: "unreachable api timing net S" and S: "3 \<le> card S"
  shows "node_inv node \<Longrightarrow> sleeping api S (max due clock) node \<Longrightarrow>
    (\<And>start finish sent. (start, finish, sent) \<in> set (run_settle_loop ticks api timing net delivery wk creds due clock node) \<Longrightarrow>
       start + 60000 < 2 ^ 64) \<Longrightarrow>
    i < ticks \<Longrightarrow> run_settle_loop ticks api timing net delivery wk creds due clock node ! i = (start, finish, sent) \<Longrightarrow>
    max due clock + i * (20000 * card S) \<le> start \<and> start + 20000 * card S \<le> finish"
proof (induction ticks arbitrary: due clock node i)
  case (Suc ticks)
  let ?now = "of_nat (max due clock) :: u64"
  let ?node = "snd (settle_once api (within_timeout timing net) ?now node)"
  let ?finish = "max due clock + pass_ms api timing net ?now (outstanding node) node"
  let ?sent = "fst (settle_tick api (within_timeout timing net) delivery wk creds ?now node)"
  have run: "run_settle_loop (Suc ticks) api timing net delivery wk creds due clock node =
      (max due clock, ?finish, ?sent) #
      run_settle_loop ticks api timing net delivery wk creds (due + SETTLE_INTERVAL_MS) ?finish ?node"
    by (simp add: Let_def split_beta settle_tick_def)
  have bound: "max due clock + 60000 < 2 ^ 64"
    by (rule Suc.prems(3) [of _ ?finish ?sent]) (unfold run, simp)
  then have now: "unat ?now = max due clock"
    by (intro unat_of_nat_u64) linarith
  have wait: "max due clock + 20000 * card S \<le> ?finish"
    using tick_lower [OF Suc.prems(1) u, of ?now] Suc.prems(2) bound by (simp add: now)
  show ?case
  proof (cases i)
    case 0
    then have "start = max due clock" "finish = ?finish"
      using Suc.prems(5) [unfolded run 0 nth_Cons_0 prod.inject] by blast+
    then show ?thesis
      using wait 0 by (simp only: mult_0 add_0_right order_refl simp_thms)
  next
    case (Suc j)
    have "sleeping api S (max due clock + 60000) ?node"
      unfolding settle_once_def
    proof (rule sleeping_pass [OF u])
      show "sleeping api S (max due clock + 60000) node"
        by (rule sleeping_mono [OF Suc.prems(2)]) simp
    qed (simp_all only: now bound order_refl)
    moreover have "max due clock + 60000 \<le> max (due + SETTLE_INTERVAL_MS) ?finish"
      using wait S by linarith
    ultimately have "sleeping api S (max (due + SETTLE_INTERVAL_MS) ?finish) ?node"
      by (rule sleeping_mono)
    from Suc.IH [OF settle_once_inv [OF Suc.prems(1)] this, of j]
    have "max (due + SETTLE_INTERVAL_MS) ?finish + j * (20000 * card S) \<le> start \<and> start + 20000 * card S \<le> finish"
      using Suc.prems(3-5) unfolding run Suc by fastforce
    moreover have "?finish \<le> max (due + SETTLE_INTERVAL_MS) ?finish"
      by simp
    ultimately show ?thesis
      unfolding Suc mult_Suc using wait by linarith
  qed
qed simp

section \<open>Properties\<close>

text \<open>
  C9. A wake goes out within twenty seconds per blob that is missing and due. When a tick of the
  settle loop finds the bytes of an entry in the store whose subscribers were not woken yet, it wakes
  them at its end, and it ends no later than that: the entries that are not due cost nothing.
\<close>

theorem wakes_wait_at_most:
  assumes "blob_laws api" "net_laws api (within_timeout timing net)" "node_inv node"
    and "hm_get (tracked node) h = Some e" "\<not> content_present e" "\<not> woken e" "store_has api (blobs node) h"
    and "run_settle_loop (Suc ticks) api timing net delivery wk creds due clock node = (start, finish, sent) # rest"
  shows "start = max due clock \<and> finish \<le> start + 20000 * card (missing_due api (of_nat start) node) \<and>
    set (wake_for api delivery wk creds (snd (settle_once api (within_timeout timing net) (of_nat start) node)) h e False)
      \<subseteq> set sent"
proof -
  let ?net = "within_timeout timing net"
  have tick: "start = max due clock" "finish = start + pass_ms api timing net (of_nat start) (outstanding node) node"
      "sent = fst (settle_tick api ?net delivery wk creds (of_nat start) node)"
    using assms(8) by (auto simp: Let_def split_beta)
  have "(h, e, False) \<in> set (fst (settle_once api ?net (of_nat start) node))"
  proof (rule settle_once_at [OF assms(1-5), of "of_nat start"])
    fix mid present
    assume "settle_le api node mid" and present: "present = probe api ?net (of_nat start) h e mid"
      and due: "\<And>e' d. (h, e', d) \<in> set (fst (settle_once api ?net (of_nat start) node)) \<longleftrightarrow>
        settle_due (of_nat start) present e \<and> e' = e \<and> d = (\<not> present)"
    then have "blob_has api (blobs mid) h = Some True"
      using settle_le_dests(2) assms(7) by (simp add: store_has_iff)
    then show ?thesis
      using settle_probe_laws(4) [OF assms(1,2)] assms(6) unfolding due by (simp add: present probe_def settle_due_def)
  qed
  then have "set (wake_for api delivery wk creds (snd (settle_once api ?net (of_nat start) node)) h e False) \<subseteq> set sent"
    unfolding tick(3) settle_tick_def split_beta Let_def fst_conv set_concat set_map by force
  then show ?thesis
    using tick(1,2) settle_pass_bound [OF assms(3,2), of "of_nat start"] by simp
qed

text \<open>
  C25. Peers that do not answer hold up everybody. With three or more missing blobs whose peers let a
  download run into its timeout, the settle loop is never idle again: the backoff of each is over
  before the pass ends, every tick asks for all of them, one after the other, and no tick ends earlier
  than twenty seconds times their number after it began. The wakes of all other entries, also those
  whose bytes are here and those known for thirty seconds, wait for that end.
\<close>

theorem sleepers_delay_every_wake:
  assumes "node_inv node" "unreachable api timing net S" "sleeping api S (max due clock) node" "3 \<le> card S"
    and "\<And>start finish sent.
      (start, finish, sent) \<in> set (run_settle_loop ticks api timing net delivery wk creds due clock node) \<Longrightarrow>
      start + 60000 < 2 ^ 64"
    and "i < ticks" "run_settle_loop ticks api timing net delivery wk creds due clock node ! i = (start, finish, sent)"
  shows "max due clock + i * (20000 * card S) \<le> start \<and> start + 20000 * card S \<le> finish"
  by (rule loop_lower [OF assms(2,4,1,3,5-7)])

section \<open>Witnesses\<close>

definition slow :: "(content_hash, bytes) hmap timing" where
  "slow = \<lparr>takes = \<lambda>_ _ _. 30000, cut_off = \<lambda>_ _ store. store\<rparr>"

definition no_credentials :: push_credentials where
  "no_credentials = \<lparr>apns_bearer = None, fcm_bearer = None\<rparr>"

definition three_sleepers :: "(unit, (content_hash, bytes) hmap) stash_node" where
  "three_sleepers = deliver memory_store 0 trail_ns [7] [([1], [1]), ([2], [2]), ([3], [3])] registered_node"

lemma slow_laws: "net_laws memory_store (within_timeout slow silent_net)"
  by (simp add: net_laws_def within_timeout_def slow_def FETCH_TIMEOUT_SECS_def)

lemma slow_unreachable: "unreachable memory_store slow silent_net S"
  by (simp add: unreachable_def within_timeout_def slow_def FETCH_TIMEOUT_SECS_def)

lemma three_entries:
  "list_all (\<lambda>h. map_option (\<lambda>e. (content_present e, unat (next_attempt_ms e))) (hm_get (tracked three_sleepers) h) =
     Some (False, 0) \<and> \<not> store_has memory_store (blobs three_sleepers) h) [[1], [2], [3]]"
  by code_simp

lemma three_sleeping: "sleeping memory_store {[1], [2], [3]} 0 three_sleepers"
  using three_entries by (auto simp: sleeping_def)

lemma three_inv: "node_inv three_sleepers"
  unfolding three_sleepers_def
  by (rule deliver_inv [OF registered_node_inv]) (simp add: registered_fields)

theorem sleepers_delay_every_wake_witness:
  "\<exists>finish sent. run_settle_loop 1 memory_store slow silent_net default_delivery default_waker no_credentials 0 0 three_sleepers =
     [(0, finish, sent)] \<and> 60000 \<le> finish"
proof -
  let ?log = "run_settle_loop 1 memory_store slow silent_net default_delivery default_waker no_credentials 0 0 three_sleepers"
  obtain finish sent where log: "?log = [(0, finish, sent)]"
    by (simp add: Let_def split_beta)
  have three: "sleeping memory_store {[1], [2], [3]} (max 0 0) three_sleepers" "3 \<le> card {[1], [2], [3] :: content_hash}"
    using three_sleeping by simp_all
  have early: "start + 60000 < 2 ^ 64" if "(start, finish, sent) \<in> set ?log" for start finish sent
    using that unfolding log by simp
  have first: "0 < (1 :: nat)" "?log ! 0 = (0, finish, sent)"
    unfolding log by simp_all
  have "20000 * card {[1], [2], [3] :: content_hash} \<le> finish"
    using sleepers_delay_every_wake [OF three_inv slow_unreachable three early first] by (simp only: add_0_left)
  then show ?thesis
    unfolding log by simp
qed

theorem wakes_wait_at_most_witness:
  "\<exists>finish sent. run_settle_loop 1 memory_store slow silent_net default_delivery default_waker no_credentials 0 5 filled_node =
     [(5, finish, sent)] \<and> finish \<le> 5 + 20000 * card (missing_due memory_store 5 filled_node)"
proof -
  obtain start finish sent rest where log:
      "run_settle_loop (Suc 0) memory_store slow silent_net default_delivery default_waker no_credentials 0 5 filled_node =
        (start, finish, sent) # rest"
    by (simp add: Let_def split_beta)
  have entry: "hm_get (tracked filled_node) [9] = Some waiting_entry" "\<not> content_present waiting_entry"
      "\<not> woken waiting_entry" "store_has memory_store (blobs filled_node) [9]"
    by (simp_all add: filled_simps waiting_simps store_has_iff)
  note tick = wakes_wait_at_most [OF memory_store_laws slow_laws filled_inv entry log]
  have "start = 5" "finish \<le> start + 20000 * card (missing_due memory_store (of_nat start) filled_node)"
    using tick [THEN conjunct1] tick [THEN conjunct2, THEN conjunct1] by (simp_all only: max.absorb2 zero_le)
  moreover have "rest = []"
    using log by (simp add: Let_def split_beta)
  ultimately show ?thesis
    using log by (intro exI [of _ finish] exI [of _ sent]) (simp only: One_nat_def, simp)
qed

end
