(* ===== verification/Node_Tests.thy ===== *)
theory Node_Tests
  imports Node_Trail "HOL-Library.Code_Target_Nat"
begin

text \<open>
  The integration tests of \<open>rust/src/node.rs\<close> on the model. They run two real nodes over a network;
  here the writer is its identity and its records, reconciliation delivers the records to the watch
  task, the writer's blobs can be downloaded while it is awake, and a poll of a test is a settle pass
  per round. Each test is the truth of its assertions on the state it reaches. The store is the
  in-memory one, in which the bytes are their own address. Left out is the test of the
  docs engine's connection handling.
\<close>

section \<open>Fixtures\<close>

type_synonym mem_node = "(unit, (content_hash, bytes) hmap) stash_node"

definition start_stash :: "u64 \<Rightarrow> mem_node" where
  "start_stash hours = spawn (from_hours hours) []"

text \<open>\<open>spawn_writer_inner\<close> and \<open>spawn_trail_writer\<close>: keys and payloads of the document's entries.\<close>

definition writer_records :: "string \<Rightarrow> (bytes \<times> bytes) list" where
  "writer_records author_hex =
     [(as_bytes (author_hex @ ''/'' @ pad_dec 20 1), as_bytes ''opaque-sealed-envelope'')]"

definition shared_or_unique_payload :: "nat \<Rightarrow> bytes" where
  "shared_or_unique_payload n = as_bytes (''sealed-envelope-'' @ fmt_dec n)"

definition trail_records :: "string \<Rightarrow> nat \<Rightarrow> (bytes \<times> bytes) list" where
  "trail_records author_hex fixes =
     map (\<lambda>n. (as_bytes (author_hex @ ''/'' @ pad_dec 20 n), shared_or_unique_payload n)) [1..<Suc fixes] @
     [(as_bytes (''ctl/'' @ author_hex), shared_or_unique_payload 1)]"

text \<open>\<open>SleepableBlobs\<close>: the writer serves its own blobs while it is awake.\<close>

definition writer_net :: "endpoint_id \<Rightarrow> bool \<Rightarrow> (bytes \<times> bytes) list \<Rightarrow> (content_hash, bytes) hmap net_api" where
  "writer_net writer awake records = \<lparr>endpoint_from_bytes = Some,
     download = \<lambda>h sources store.
       if awake \<and> writer \<in> set sources \<and> h \<in> snd ` set records then (True, hm_insert h h store)
       else (False, store)\<rparr>"

text \<open>The loops \<open>for _ in 0..n\<close> that wait for a condition; a settle pass runs between two looks.\<close>

fun poll :: "nat \<Rightarrow> (content_hash, bytes) hmap net_api \<Rightarrow> (mem_node \<Rightarrow> bool) \<Rightarrow> u64 \<Rightarrow> mem_node \<Rightarrow> mem_node option" where
  "poll 0 net done_yet now node = None"
| "poll (Suc n) net done_yet now node =
     (if done_yet node then Some node
      else poll n net done_yet (now + 250) (snd (settle_once memory_store net now node)))"

text \<open>Registering and the writer's \<open>start_sync\<close> towards the stash, which delivers its records.\<close>

definition register_and_sync :: "u64 \<Rightarrow> endpoint_id \<Rightarrow> (bytes \<times> bytes) list \<Rightarrow> mem_node \<Rightarrow> mem_node" where
  "register_and_sync now writer records stash =
     (let (registered, stash1) = node_register memory_docs trail_ticket None stash
      in (case registered of
            Err e \<Rightarrow> stash1
          | Ok ns \<Rightarrow> deliver memory_store now ns writer records stash1))"

section \<open>Tests\<close>

definition opaque_content_upload_requires_registered_referenced_hash :: bool where
  "opaque_content_upload_requires_registered_referenced_hash \<longleftrightarrow>
     (let ns = replicate 32 7; other_ns = replicate 32 8; b = [0, 159, 146, 150, 255, 1, 2, 3];
          h = hash_new memory_store b; untracked = as_bytes ''an entry nobody referenced'';
          stash0 = start_stash 48;
          stash = stash0\<lparr>registry := snd (register ns None (registry stash0)), content := want ns h (content stash0)\<rparr>;
          (stored, stash') = put_content memory_store ns h b stash
      in fst (put_content memory_store other_ns h b stash) = Ok UnknownNamespace \<and>
         fst (put_content memory_store ns (hash_new memory_store untracked) untracked stash) = Ok UntrackedHash \<and>
         fst (put_content memory_store ns h (as_bytes ''wrong bytes'') stash) = Ok HashMismatch \<and>
         stored = Ok Stored \<and> content_bytes memory_store stash' ns h = Some b)"

text \<open>
  \<open>CountWaker\<close> counts the targets of each call; the node calls it with targets only, and the HTTP waker
  reports one event for each, so the count is the number of its events.
\<close>

fun poll_wakes :: "nat \<Rightarrow> (content_hash, bytes) hmap net_api \<Rightarrow> u64 \<Rightarrow> nat \<Rightarrow> mem_node \<Rightarrow> bool" where
  "poll_wakes 0 net now calls node = False"
| "poll_wakes (Suc n) net now calls node =
     (1 \<le> calls \<or>
      (let (sent, node1) = settle_tick memory_store net default_delivery
             (HttpPushWaker \<lparr>apns_host = [], bundle_id = [], fcm_project_id = []\<rparr>)
             \<lparr>apns_bearer = None, fcm_bearer = None\<rparr> now node
       in poll_wakes n net (now + 100) (calls + length sent) node1))"

definition stash_reconciles_a_writers_entry_offline :: "u64 \<Rightarrow> endpoint_id \<Rightarrow> bool" where
  "stash_reconciles_a_writers_entry_offline now writer \<longleftrightarrow>
     (let records = writer_records (replicate 64 (CHR ''0''));
          sub = \<lparr>platform = Fcm, token = ''integration''\<rparr>;
          (registered, stash) = node_register memory_docs trail_ticket (Some sub) (start_stash 48)
      in (case registered of
            Err e \<Rightarrow> False
          | Ok ns \<Rightarrow>
              (case sync_now memory_docs ns [writer] stash of
                 Err e \<Rightarrow> False
               | Ok _ \<Rightarrow> poll_wakes 300 (writer_net writer True records) now 0 (deliver memory_store now ns writer records stash))))"

definition stash_stores_the_content_not_just_the_entry :: "u64 \<Rightarrow> endpoint_id \<Rightarrow> bool" where
  "stash_stores_the_content_not_just_the_entry now writer \<longleftrightarrow>
     (let records = writer_records (replicate 64 (CHR ''0'')); h = snd (hd records);
          (registered, stash) = node_register memory_docs trail_ticket None (start_stash 48)
      in (case registered of
            Err e \<Rightarrow> False
          | Ok ns \<Rightarrow>
              (case sync_now memory_docs ns [writer] stash of
                 Err e \<Rightarrow> False
               | Ok _ \<Rightarrow>
                   (case poll 300 (writer_net writer True records) (\<lambda>s. blob_get memory_store (blobs s) h \<noteq> None) now
                      (deliver memory_store now ns writer records stash) of
                      None \<Rightarrow> False
                    | Some s \<Rightarrow> blob_get memory_store (blobs s) h = Some (as_bytes ''opaque-sealed-envelope'')))))"

definition stash_stores_content_when_only_the_writer_dials :: "u64 \<Rightarrow> endpoint_id \<Rightarrow> bool" where
  "stash_stores_content_when_only_the_writer_dials now writer \<longleftrightarrow>
     (let records = writer_records (replicate 64 (CHR ''0'')); h = snd (hd records);
          stash = register_and_sync now writer records (start_stash 48)
      in (case poll 300 (writer_net writer True records) (\<lambda>s. blob_get memory_store (blobs s) h \<noteq> None) now stash of
            None \<Rightarrow> False
          | Some s \<Rightarrow> blob_get memory_store (blobs s) h \<noteq> None))"

definition stash_recovers_content_after_the_writer_wakes_again :: "u64 \<Rightarrow> endpoint_id \<Rightarrow> bool" where
  "stash_recovers_content_after_the_writer_wakes_again now writer \<longleftrightarrow>
     (let records = writer_records (replicate 64 (CHR ''0'')); h = snd (hd records);
          stash = register_and_sync now writer records (start_stash 48)
      in (case poll 300 (writer_net writer False records) (\<lambda>s. snd (content_stats s) = 1) now stash of
            None \<Rightarrow> False
          | Some frozen \<Rightarrow>
              fst (content_stats frozen) = 1 \<and>
              (case poll 600 (writer_net writer True records) (\<lambda>s. fst (content_stats s) = 0) now frozen of
                 None \<Rightarrow> False
               | Some s \<Rightarrow> blob_get memory_store (blobs s) h = Some (as_bytes ''opaque-sealed-envelope''))))"

definition pruning_an_entry_releases_its_content_for_collection :: "u64 \<Rightarrow> u64 \<Rightarrow> endpoint_id \<Rightarrow> bool" where
  "pruning_an_entry_releases_its_content_for_collection now stamp writer \<longleftrightarrow>
     (let records = writer_records (replicate 64 (CHR ''0''));
          stash = register_and_sync now writer records (start_stash 0)
      in (case poll 300 (writer_net writer True records) (\<lambda>s. content_stats s = (0, 1)) now stash of
            None \<Rightarrow> False
          | Some s \<Rightarrow>
              (let (pruned, s') = prune_once (docs_query_of stamp records) (\<lambda>xs. xs) (now + 3600000) s
               in (case pruned of Err e \<Rightarrow> False | Ok c \<Rightarrow> released c = 1 \<and> content_stats s' = (0, 0)))))"

definition content_is_fetched_from_the_relaying_peer_not_only_the_author :: "u64 \<Rightarrow> endpoint_id \<Rightarrow> bool" where
  "content_is_fetched_from_the_relaying_peer_not_only_the_author now relay \<longleftrightarrow>
     (let records = writer_records (concat (replicate 32 ''ab'')); h = snd (hd records);
          stash = register_and_sync now relay records (start_stash 48)
      in (case poll 300 (writer_net relay True records) (\<lambda>s. content_stats s = (0, 1)) now stash of
            None \<Rightarrow> False
          | Some s \<Rightarrow> blob_get memory_store (blobs s) h = Some (as_bytes ''opaque-sealed-envelope'')))"

definition prune_collapses_a_trail_to_its_latest_fix_and_still_serves_it :: "u64 \<Rightarrow> u64 \<Rightarrow> endpoint_id \<Rightarrow> bool" where
  "prune_collapses_a_trail_to_its_latest_fix_and_still_serves_it now stamp writer \<longleftrightarrow>
     (let records = trail_records (concat (replicate 32 ''cd'')) 5;
          stash = register_and_sync now writer records (start_stash 48)
      in (case poll 300 (writer_net writer True records) (\<lambda>s. content_stats s = (0, 5)) now stash of
            None \<Rightarrow> False
          | Some s \<Rightarrow>
              (let (pruned, s') = prune_once (docs_query_of stamp records) (\<lambda>xs. xs) now s
               in (case pruned of
                     Err e \<Rightarrow> False
                   | Ok c \<Rightarrow>
                       released c = 3 \<and> content_stats s' = (0, 2) \<and>
                       blob_get memory_store (blobs s') (shared_or_unique_payload 5) = Some (shared_or_unique_payload 5) \<and>
                       blob_get memory_store (blobs s') (shared_or_unique_payload 1) = Some (shared_or_unique_payload 1) \<and>
                       (let (pruned', s'') = prune_once (docs_query_of stamp records) (\<lambda>xs. xs) now s'
                        in (case pruned' of
                              Err e \<Rightarrow> False
                            | Ok c' \<Rightarrow> released c' = 0 \<and> content_stats s'' = (0, 2)))))))"

definition unparseable_keys_do_not_escape_retention :: "u64 \<Rightarrow> u64 \<Rightarrow> endpoint_id \<Rightarrow> bool" where
  "unparseable_keys_do_not_escape_retention now stamp writer \<longleftrightarrow>
     (let records = writer_records ''not-hex-and-not-a-fix-key'';
          stash = register_and_sync now writer records (start_stash 1)
      in (case poll 300 (writer_net writer True records) (\<lambda>s. content_stats s = (0, 1)) now stash of
            None \<Rightarrow> False
          | Some s \<Rightarrow>
              (let (pruned, s1) = prune_once (docs_query_of stamp records) (\<lambda>xs. xs) now s
               in (case pruned of
                     Err e \<Rightarrow> False
                   | Ok c \<Rightarrow>
                       released c = 0 \<and> content_stats s1 = (0, 1) \<and>
                       (let (pruned', s2) =
                          prune_once (docs_query_of stamp records) (\<lambda>xs. xs) (now + 2 * MS_PER_HOUR) s1
                        in (case pruned' of
                              Err e \<Rightarrow> False
                            | Ok c' \<Rightarrow> released c' = 1 \<and> content_stats s2 = (0, 0)))))))"

section \<open>The stash after the records, and after one pass\<close>

lemma poll_once:
  assumes "\<not> ok s" "ok (snd (settle_once memory_store net now s))" "2 \<le> n"
  shows "poll n net ok now s = Some (snd (settle_once memory_store net now s))"
proof -
  obtain m where "n = Suc (Suc m)"
    using assms(3) by (metis One_nat_def Suc_1 Suc_le_D Suc_le_mono)
  then show ?thesis
    using assms(1,2) by simp
qed

lemma writer_laws: "net_laws memory_store (writer_net writer awake records)"
  by (auto simp: net_laws_def writer_net_def memory_store_def)

lemma writer_answers: "h \<in> snd ` set records \<Longrightarrow> answers (writer_net writer True records) writer h"
  by (auto simp: answers_def writer_net_def)

definition self_addressed :: "mem_node \<Rightarrow> bool" where
  "self_addressed s \<longleftrightarrow> (\<forall>h b. blob_get memory_store (blobs s) h = Some b \<longrightarrow> b = h)"

lemma settle_once_self_addressed:
  fixes s :: mem_node
  assumes "self_addressed s"
  shows "self_addressed (snd (settle_once memory_store (writer_net writer awake records) now s))"
proof -
  have entry: "self_addressed (snd (settle_entry memory_store (writer_net writer awake records) now h e n))"
    if "self_addressed n" for h e and n :: mem_node
    using that
    by (auto simp: self_addressed_def settle_entry_eq settle_commit_fields settle_probe_def fetch_content_def
        writer_net_def memory_store_def split: if_splits)
  have "self_addressed n \<Longrightarrow> self_addressed (snd (settle_list memory_store (writer_net writer awake records) now xs n))"
    for xs and n :: mem_node
    by (induction xs arbitrary: n) (auto simp: Let_def entry)
  then show ?thesis
    using assms by (simp add: settle_once_def)
qed

definition synced :: "u64 \<Rightarrow> endpoint_id \<Rightarrow> (bytes \<times> bytes) list \<Rightarrow> u64 \<Rightarrow> mem_node" where
  "synced now writer records hours = register_and_sync now writer records (start_stash hours)"

definition fetched :: "u64 \<Rightarrow> endpoint_id \<Rightarrow> (bytes \<times> bytes) list \<Rightarrow> u64 \<Rightarrow> mem_node" where
  "fetched now writer records hours =
     snd (settle_once memory_store (writer_net writer True records) now (synced now writer records hours))"

definition granted :: "u64 \<Rightarrow> mem_node" where
  "granted hours = snd (node_register memory_docs trail_ticket None (start_stash hours))"

lemma synced_deliver: "synced now writer records hours = deliver memory_store now trail_ns writer records (granted hours)"
  by (simp add: synced_def register_and_sync_def granted_def start_stash_def trail_register)

lemma fetched_catch_up:
  "fetched now writer records hours =
     catch_up memory_store (writer_net writer True records) now now trail_ns writer records (granted hours)"
  by (simp add: fetched_def synced_deliver catch_up_def)

lemma granted_fields:
  "is_known (registry (granted hours)) ns \<longleftrightarrow> ns = trail_ns" "\<not> is_tracked_for (content (granted hours)) ns h"
  "blobs (granted hours) = []" "handles (granted hours) = [(trail_ns, ())]"
  "node_retention (granted hours) = from_hours hours" "node_inv (granted hours)"
  "servable memory_store (granted hours)"
proof -
  show "node_inv (granted hours)"
    unfolding granted_def start_stash_def by (intro inv_intros)
qed (simp_all add: granted_def start_stash_def trail_register finish_register_fields servable_def,
  simp_all add: new_registry_def is_known_def)

lemma synced_facts:
  "node_inv (synced now writer records hours)" "blobs (synced now writer records hours) = []"
  "is_tracked_for (content (synced now writer records hours)) ns h \<longleftrightarrow> ns = trail_ns \<and> h \<in> snd ` set records"
  "\<not> is_present (content (synced now writer records hours)) h"
  "self_addressed (synced now writer records hours)"
proof -
  let ?s = "synced now writer records hours"
  show blobs: "blobs ?s = []"
    by (simp add: synced_deliver deliver_fields granted_fields)
  show "node_inv ?s"
    unfolding synced_deliver by (rule deliver_inv) (simp_all add: granted_fields)
  show "is_tracked_for (content ?s) ns h \<longleftrightarrow> ns = trail_ns \<and> h \<in> snd ` set records"
    by (simp add: synced_deliver deliver_references granted_fields)
  have "servable memory_store ?s"
    unfolding synced_deliver by (rule deliver_servable [OF memory_store_laws granted_fields(7)])
  then show "\<not> is_present (content ?s) h"
    by (auto simp: servable_def blobs memory_store_def)
  show "self_addressed ?s"
    by (simp add: self_addressed_def blobs memory_store_def)
qed

lemma fetched_facts:
  "node_inv (fetched now writer records hours)" "handles (fetched now writer records hours) = [(trail_ns, ())]"
  "node_retention (fetched now writer records hours) = from_hours hours"
  "is_tracked_for (content (fetched now writer records hours)) ns h \<longleftrightarrow> ns = trail_ns \<and> h \<in> snd ` set records"
  "h \<in> snd ` set records \<Longrightarrow> is_present (content (fetched now writer records hours)) h"
  "h \<in> snd ` set records \<Longrightarrow> blob_get memory_store (blobs (fetched now writer records hours)) h = Some h"
proof -
  let ?s = "synced now writer records hours" and ?f = "fetched now writer records hours"
  let ?net = "writer_net writer True records"
  show inv: "node_inv ?f"
    unfolding fetched_def by (rule settle_once_inv [OF synced_facts(1)])
  show "handles ?f = [(trail_ns, ())]" "node_retention ?f = from_hours hours"
    by (simp_all add: fetched_catch_up catch_up_fields [OF memory_store_laws writer_laws] catch_up_retention granted_fields)
  show "is_tracked_for (content ?f) ns h \<longleftrightarrow> ns = trail_ns \<and> h \<in> snd ` set records" for ns h
    unfolding fetched_def settle_once_references(1) [OF memory_store_laws writer_laws] by (rule synced_facts(3))
  have sref: "is_tracked (content ?s) h \<longleftrightarrow> h \<in> snd ` set records" for h
    by (simp add: tracked_references [OF synced_facts(1)] synced_facts(3))
  show present: "is_present (content ?f) h" if "h \<in> snd ` set records" for h
    unfolding fetched_def
  proof (rule pass_completes [OF memory_store_laws writer_laws synced_facts(1)])
    show "is_tracked (content ?s) h"
      using that by (simp add: sref)
    fix h e
    assume e: "hm_get (tracked ?s) h = Some e"
    have "hm_get (tracked (granted hours)) h = None"
      using tracked_iff [OF granted_fields(6), where hash = h] tracked_references [OF granted_fields(6), where h = h]
      by (simp add: granted_fields(2))
    then obtain k p where "e = received_entry now trail_ns k writer p"
      using deliver_tracked [of memory_store now trail_ns writer records "granted hours" h e] e
      by (auto simp: synced_deliver)
    then have "next_attempt_ms e \<le> now" "holder ?net e writer"
      by (simp_all add: received_entry_def holder_def)
    moreover have "answers ?net writer h"
      using sref [of h] tracked_iff [OF synced_facts(1), where hash = h] e by (intro writer_answers) blast
    ultimately show "next_attempt_ms e \<le> now \<and> (\<exists>peer. holder ?net e peer \<and> answers ?net peer h)"
      by blast
  qed
  have "servable memory_store ?s"
    using synced_facts(4) by (simp add: servable_def)
  then have "servable memory_store ?f"
    unfolding fetched_def by (rule settle_once_servable [OF memory_store_laws writer_laws])
  moreover have "self_addressed ?f"
    unfolding fetched_def by (rule settle_once_self_addressed [OF synced_facts(5)])
  ultimately show "blob_get memory_store (blobs ?f) h = Some h" if "h \<in> snd ` set records"
    using present [OF that] by (cases "blob_get memory_store (blobs ?f) h") (auto simp: servable_def self_addressed_def)
qed

lemma record_stats:
  "content_stats (synced now writer records hours) = (card (snd ` set records), card (snd ` set records))"
  "content_stats (fetched now writer records hours) = (0, card (snd ` set records))"
proof -
  have s: "is_tracked (content (synced now writer records hours)) h \<longleftrightarrow> h \<in> snd ` set records" for h
    by (simp add: tracked_references [OF synced_facts(1)] synced_facts(3))
  have f: "is_tracked (content (fetched now writer records hours)) h \<longleftrightarrow> h \<in> snd ` set records" for h
    by (simp add: tracked_references [OF fetched_facts(1)] fetched_facts(4))
  show "content_stats (synced now writer records hours) = (card (snd ` set records), card (snd ` set records))"
    by (simp add: stats_card [OF synced_facts(1)] s synced_facts(4))
  show "content_stats (fetched now writer records hours) = (0, card (snd ` set records))"
    using fetched_facts(5) by (simp add: stats_card [OF fetched_facts(1)] f cong: conj_cong)
qed

section \<open>The tests pass\<close>

lemma upload_test: "opaque_content_upload_requires_registered_referenced_hash"
  by code_simp

lemma sync_fold:
  "register_and_sync now writer records (start_stash hours) = synced now writer records hours"
  "snd (settle_once memory_store (writer_net writer True records) now (synced now writer records hours)) =
     fetched now writer records hours"
  by (simp_all add: synced_def fetched_def)

lemma one_record: "card (snd ` set (writer_records author_hex)) = 1" "snd (hd (writer_records author_hex)) = as_bytes ''opaque-sealed-envelope''"
  "as_bytes ''opaque-sealed-envelope'' \<in> snd ` set (writer_records author_hex)"
  by (simp_all add: writer_records_def)

lemma one_record_poll:
  "2 \<le> n \<Longrightarrow> poll n (writer_net writer True (writer_records author_hex)) (\<lambda>s. content_stats s = (0, 1)) now
     (synced now writer (writer_records author_hex) hours) = Some (fetched now writer (writer_records author_hex) hours)"
  "2 \<le> n \<Longrightarrow> poll n (writer_net writer True (writer_records author_hex)) (\<lambda>s. fst (content_stats s) = 0) now
     (synced now writer (writer_records author_hex) hours) = Some (fetched now writer (writer_records author_hex) hours)"
  "2 \<le> n \<Longrightarrow> poll n (writer_net writer True (writer_records author_hex))
     (\<lambda>s. blob_get memory_store (blobs s) (as_bytes ''opaque-sealed-envelope'') \<noteq> None) now
     (synced now writer (writer_records author_hex) hours) = Some (fetched now writer (writer_records author_hex) hours)"
proof -
  note f = fetched_facts(6) [OF one_record(3), of now writer author_hex hours]
  have none: "blob_get memory_store [] h = None" for h
    by (simp add: memory_store_def)
  show "2 \<le> n \<Longrightarrow> poll n (writer_net writer True (writer_records author_hex)) (\<lambda>s. content_stats s = (0, 1)) now
      (synced now writer (writer_records author_hex) hours) = Some (fetched now writer (writer_records author_hex) hours)"
    "2 \<le> n \<Longrightarrow> poll n (writer_net writer True (writer_records author_hex)) (\<lambda>s. fst (content_stats s) = 0) now
      (synced now writer (writer_records author_hex) hours) = Some (fetched now writer (writer_records author_hex) hours)"
    by (subst poll_once; simp add: sync_fold record_stats one_record)+
  show "2 \<le> n \<Longrightarrow> poll n (writer_net writer True (writer_records author_hex))
      (\<lambda>s. blob_get memory_store (blobs s) (as_bytes ''opaque-sealed-envelope'') \<noteq> None) now
      (synced now writer (writer_records author_hex) hours) = Some (fetched now writer (writer_records author_hex) hours)"
    by (subst poll_once; simp only: sync_fold f synced_facts(2) none simp_thms option.distinct)
qed

lemma early_poll: "ok s \<Longrightarrow> 2 \<le> n \<Longrightarrow> poll n net ok now s = Some s"
  by (cases n) simp_all

lemma content_tests:
  "stash_stores_content_when_only_the_writer_dials now writer"
  "stash_recovers_content_after_the_writer_wakes_again now writer"
  "content_is_fetched_from_the_relaying_peer_not_only_the_author now writer"
proof -
  show "stash_stores_content_when_only_the_writer_dials now writer"
    "content_is_fetched_from_the_relaying_peer_not_only_the_author now writer"
    unfolding stash_stores_content_when_only_the_writer_dials_def
      content_is_fetched_from_the_relaying_peer_not_only_the_author_def Let_def one_record(2) sync_fold
    by (simp_all only: one_record_poll option.case fetched_facts(6) [OF one_record(3)]) blast
  show "stash_recovers_content_after_the_writer_wakes_again now writer"
    unfolding stash_recovers_content_after_the_writer_wakes_again_def Let_def one_record(2) sync_fold
    by (subst early_poll; simp only: record_stats one_record(1) option.case snd_conv fst_conv; (subst one_record_poll)?;
        simp only: option.case fetched_facts(6) [OF one_record(3)]; simp?)
qed

lemma writer_record:
  "writer_records author_hex = [(as_bytes (author_hex @ ''/'' @ pad_dec 20 1), as_bytes ''opaque-sealed-envelope'')]"
  by (simp only: writer_records_def)

text \<open>The first tick wakes the subscriber.\<close>

definition phoned :: mem_node where
  "phoned = snd (node_register memory_docs trail_ticket (Some \<lparr>platform = Fcm, token = ''integration''\<rparr>) (start_stash 48))"

lemma phoned_fields:
  "node_inv phoned" "handles phoned = [(trail_ns, ())]" "tracked phoned = []" "blobs phoned = []"
  "is_known (registry phoned) trail_ns"
  "{t. (trail_ns, t) \<in> pairs (grants_of (registry phoned))} = {\<lparr>platform = Fcm, token = ''integration''\<rparr>}"
proof -
  show "node_inv phoned"
    unfolding phoned_def start_stash_def by (intro inv_intros)
  have reg: "registry phoned = snd (register trail_ns (Some \<lparr>platform = Fcm, token = ''integration''\<rparr>) new_registry)"
    by (simp add: phoned_def start_stash_def trail_register finish_register_fields)
  show "is_known (registry phoned) trail_ns"
    unfolding reg by simp
  show "{t. (trail_ns, t) \<in> pairs (grants_of (registry phoned))} = {\<lparr>platform = Fcm, token = ''integration''\<rparr>}"
    unfolding reg wr.abs_reg by (simp add: grant_def) (simp add: grants_of_def wake_targets_def new_registry_def)
qed (simp_all add: phoned_def start_stash_def trail_register finish_register_fields)

lemma phoned_entry:
  assumes "s = deliver memory_store now trail_ns writer (writer_records author_hex) phoned"
  obtains e where "hm_get (tracked s) (as_bytes ''opaque-sealed-envelope'') = Some e" "\<not> content_present e" "\<not> woken e"
    "entry_namespace e = trail_ns" "next_attempt_ms e \<le> now" "delivered_by e = writer"
proof -
  have "hm_get (tracked s) (as_bytes ''opaque-sealed-envelope'') =
      Some (received_entry now trail_ns (as_bytes (author_hex @ ''/'' @ pad_dec 20 1)) writer False)"
    unfolding assms writer_record deliver_simps handle_insert_remote_fields phoned_fields(3,4)
    by (simp add: store_has_def memory_store_def del: as_bytes_simps)
  then show ?thesis
    by (rule that) (simp_all add: received_entry_def)
qed

lemma first_tick_wakes:
  fixes s :: mem_node
  assumes inv: "node_inv s" and e: "hm_get (tracked s) h = Some e" "\<not> content_present e" "\<not> woken e"
    and due: "next_attempt_ms e \<le> now" "delivered_by e = writer" "h \<in> snd ` set records"
    and t: "{t. (entry_namespace e, t) \<in> pairs (grants_of (registry s))} = {sub}"
  shows "fst (settle_tick memory_store (writer_net writer True records) default_delivery (HttpPushWaker cfg) creds now s) \<noteq> []"
proof -
  let ?net = "writer_net writer True records"
  have "(h, e, False) \<in> set (fst (settle_once memory_store ?net now s))"
  proof (rule settle_once_at [OF memory_store_laws writer_laws [of writer True records] inv e(1,2), of now])
    fix mid present
    assume p: "present = probe memory_store ?net now h e mid"
      and iff: "\<And>e' d. (h, e', d) \<in> set (fst (settle_once memory_store ?net now s)) \<longleftrightarrow>
        settle_due now present e \<and> e' = e \<and> d = (\<not> present)"
    have "fst (fetch_content ?net h e (blobs mid))"
      using writer_answers [OF due(3), of writer] unfolding fetch_content_def answers_def
      by (simp only: sources_are_holders holder_def due(2) simp_thms)
    then show ?thesis
      using due(1) e(3) unfolding iff by (simp add: p probe_def settle_probe_def settle_due_def)
  qed
  moreover have "registry (snd (settle_once memory_store ?net now s)) = registry s"
    by (rule settle_once_references(2) [OF memory_store_laws writer_laws])
  then have "set (wake_targets (registry (snd (settle_once memory_store ?net now s))) (entry_namespace e)) = {sub}"
    using t by (simp add: wr.tgts_abs)
  then have "wake_for memory_store default_delivery (HttpPushWaker cfg) creds
      (snd (settle_once memory_store ?net now s)) h e False \<noteq> []"
    by (auto simp: wake_for_def Let_def default_delivery_def passthrough_delivery_def)
  ultimately show ?thesis
    unfolding settle_tick_def by (force simp: split_beta Let_def)
qed

lemma offline_test: "stash_reconciles_a_writers_entry_offline now writer"
proof -
  let ?records = "writer_records (replicate 64 (CHR ''0''))" and ?cfg = "\<lparr>apns_host = [], bundle_id = [], fcm_project_id = []\<rparr>"
  define net where "net = writer_net writer True ?records"
  define s where "s = deliver memory_store now trail_ns writer ?records phoned"
  have inv: "node_inv s" "registry s = registry phoned"
    unfolding s_def using deliver_inv [OF phoned_fields(1,5)] by (simp_all add: deliver_fields)
  obtain e where e: "hm_get (tracked s) (as_bytes ''opaque-sealed-envelope'') = Some e" "\<not> content_present e" "\<not> woken e"
      "entry_namespace e = trail_ns" "next_attempt_ms e \<le> now" "delivered_by e = writer"
    using phoned_entry [OF s_def] by blast
  have "fst (settle_tick memory_store net default_delivery (HttpPushWaker ?cfg) \<lparr>apns_bearer = None, fcm_bearer = None\<rparr> now s) \<noteq> []"
    unfolding net_def
    by (rule first_tick_wakes [OF inv(1) e(1-3,5,6) one_record(3)]) (simp only: e(4) inv(2) phoned_fields(6))
  then have "poll_wakes (Suc (Suc n)) net now 0 s" for n
    by (auto simp: split_beta Let_def Suc_le_eq)
  from this [of 298] have "poll_wakes 300 net now 0 s"
    by (simp only: eval_nat_numeral) simp
  moreover have "node_register memory_docs trail_ticket (Some \<lparr>platform = Fcm, token = ''integration''\<rparr>) (start_stash 48) =
      (Ok trail_ns, phoned)"
    by (simp add: phoned_def start_stash_def trail_register)
  moreover have "sync_now memory_docs trail_ns [writer] phoned = Ok ()"
    by (simp add: sync_now_def phoned_fields(2) memory_docs_def)
  ultimately show ?thesis
    unfolding stash_reconciles_a_writers_entry_offline_def Let_def s_def net_def
    by (simp only: prod.case sum.case)
qed

lemma sync_now_test: "stash_stores_the_content_not_just_the_entry now writer"
proof -
  have reg: "node_register memory_docs trail_ticket None (start_stash 48) = (Ok trail_ns, granted 48)"
    by (simp add: granted_def start_stash_def trail_register)
  have sync: "sync_now memory_docs trail_ns [writer] (granted 48) = Ok ()"
    by (simp add: sync_now_def granted_fields(4) memory_docs_def)
  show ?thesis
    unfolding stash_stores_the_content_not_just_the_entry_def Let_def one_record(2) reg prod.case sum.case sync
      synced_deliver [symmetric]
    by (simp only: one_record_poll option.case fetched_facts(6) [OF one_record(3)])
qed

text \<open>The sweep on a document of one record.\<close>

lemma one_record_sweep:
  fixes s :: mem_node
  assumes inv: "node_inv s" "handles s = [(trail_ns, ())]"
    and refs: "\<And>ns h. is_tracked_for (content s) ns h \<longleftrightarrow> ns = trail_ns \<and> h = b" "is_present (content s) b"
    and one: "records = [(k, b)]"
  shows "\<exists>c s'. prune_once (docs_query_of stamp records) (\<lambda>xs. xs) now s = (Ok c, s') \<and>
    (if unat now \<le> unat (entry_written_ms stamp) + unat (retention_ms (node_retention s))
     then released c = 0 \<and> content_stats s' = (0, 1) \<and> node_inv s' \<and> handles s' = handles s \<and>
       node_retention s' = node_retention s \<and> is_present (content s') b \<and>
       (\<forall>ns h. is_tracked_for (content s') ns h \<longleftrightarrow> ns = trail_ns \<and> h = b)
     else released c = 1 \<and> content_stats s' = (0, 0))"
proof -
  obtain c s' where sweep: "prune_once (docs_query_of stamp records) (\<lambda>xs. xs) now s = (Ok c, s')"
    using query_sweep_ok [OF inv(1)] by (metis prod.collapse)
  note res = prune_once_result [OF inv(1) identity_order, where get_many = "docs_query_of stamp records" and now = now,
      unfolded sweep fst_conv snd_conv]
  have docs: "docs_of (docs_query_of stamp records) s trail_ns = Some (candidates_of stamp records)"
    by (rule docs_of_query) (simp add: inv(2))
  have may: "may_release (docs_query_of stamp records) now s trail_ns h \<longleftrightarrow>
      h = b \<and> \<not> unat now \<le> unat (entry_written_ms stamp) + unat (retention_ms (node_retention s))" for h
    unfolding may_release_def docs by (auto simp: one releasable_def candidates_of_def keeps_iff fresh_def)
  have prefs: "is_tracked_for (content s') ns h \<longleftrightarrow> ns = trail_ns \<and> h = b \<and>
      unat now \<le> unat (entry_written_ms stamp) + unat (retention_ms (node_retention s))" for ns h
    using res(6,7) [of ns h] res(9) [OF refl, of ns h] may [of h] refs(1) [of ns h] by blast
  have tr: "is_tracked (content s) h \<longleftrightarrow> h = b" for h
    by (simp add: tracked_references [OF inv(1)] refs(1))
  have ptr: "is_tracked (content s') h \<longleftrightarrow>
      h = b \<and> unat now \<le> unat (entry_written_ms stamp) + unat (retention_ms (node_retention s))" for h
    by (simp add: tracked_references [OF res(1)] prefs)
  have "tracked_count (content s) = 1"
    using stats_card [OF inv(1)] by (simp add: content_stats_def tr)
  then have "released c + tracked_count (content s') = 1"
    using res(10) [OF refl] by simp
  moreover have "content_stats s' =
      (0, if unat now \<le> unat (entry_written_ms stamp) + unat (retention_ms (node_retention s)) then 1 else 0)"
    using res(8) refs(2) by (auto simp: stats_card [OF res(1)] ptr cong: conj_cong)
  ultimately show ?thesis
    using sweep res(1,3,5,8) prefs ptr refs(2) by (auto simp: content_stats_def)
qed

lemma one_record_ready:
  assumes "records = [(k, b)]"
  shows "node_inv (fetched now writer records hours)" "handles (fetched now writer records hours) = [(trail_ns, ())]"
    "is_tracked_for (content (fetched now writer records hours)) ns h \<longleftrightarrow> ns = trail_ns \<and> h = b"
    "is_present (content (fetched now writer records hours)) b"
  using fetched_facts(4,5) [where records = records] by (simp_all add: fetched_facts(1,2) assms)

lemma hours_window:
  "unat (retention_ms (from_hours 0)) = 0" "unat (retention_ms (from_hours 1)) = 3600000"
  by (simp_all add: from_hours_def MS_PER_HOUR_def unat_sat_mul)

lemma later:
  assumes "unat (now :: u64) + 7200000 < 2 ^ 64"
  shows "unat (now + 3600000) = unat now + 3600000" "unat (now + 2 * MS_PER_HOUR) = unat now + 7200000"
proof -
  have "unat (now + of_nat k) = unat now + k" if "k \<le> 7200000" for k
    using assms that by (simp add: unat_word_ariths unat_of_nat)
  from this [of 3600000] this [of 7200000]
  show "unat (now + 3600000) = unat now + 3600000" "unat (now + 2 * MS_PER_HOUR) = unat now + 7200000"
    by (simp_all add: MS_PER_HOUR_def)
qed

lemma pruning_test:
  assumes "unat (entry_written_ms stamp) \<le> unat now" "unat now + 7200000 < 2 ^ 64"
  shows "pruning_an_entry_releases_its_content_for_collection now stamp writer"
proof -
  define rs where "rs = writer_records (replicate 64 (CHR ''0''))"
  define f where "f = fetched now writer rs 0"
  note one = writer_record [of "replicate 64 (CHR ''0'')", folded rs_def]
  note ready = one_record_ready [OF one, where now = now and writer = writer and hours = 0, folded f_def]
  have "node_retention f = from_hours 0"
    by (simp only: f_def fetched_facts(3))
  then have "\<not> unat (now + 3600000) \<le> unat (entry_written_ms stamp) + unat (retention_ms (node_retention f))"
    using assms(1) by (simp only: later(1) [OF assms(2)] hours_window)
  with one_record_sweep [OF ready one, where now = "now + 3600000" and stamp = stamp]
  obtain c s' where "prune_once (docs_query_of stamp rs) (\<lambda>xs. xs) (now + 3600000) f = (Ok c, s')"
      "released c = 1" "content_stats s' = (0, 0)"
    by (simp only: if_False) blast
  moreover have "poll 300 (writer_net writer True rs) (\<lambda>s. content_stats s = (0, 1)) now (synced now writer rs 0) = Some f"
    unfolding rs_def f_def by (rule one_record_poll) simp
  ultimately show ?thesis
    unfolding pruning_an_entry_releases_its_content_for_collection_def Let_def sync_fold rs_def [symmetric]
    by (simp only: option.case prod.case sum.case simp_thms)
qed

lemma unparseable_test:
  assumes "unat (entry_written_ms stamp) \<le> unat now" "unat now + 7200000 < 2 ^ 64"
    and young: "unat now \<le> unat (entry_written_ms stamp) + 3600000"
  shows "unparseable_keys_do_not_escape_retention now stamp writer"
proof -
  define rs where "rs = writer_records ''not-hex-and-not-a-fix-key''"
  define f where "f = fetched now writer rs 1"
  note one = writer_record [of "''not-hex-and-not-a-fix-key''", folded rs_def]
  note ready = one_record_ready [OF one, where now = now and writer = writer and hours = 1, folded f_def]
  have hour: "node_retention f = from_hours 1"
    by (simp only: f_def fetched_facts(3))
  then have "unat now \<le> unat (entry_written_ms stamp) + unat (retention_ms (node_retention f))"
    using young by (simp only: hours_window)
  with one_record_sweep [OF ready one, where now = now and stamp = stamp]
  obtain c s1 where first: "prune_once (docs_query_of stamp rs) (\<lambda>xs. xs) now f = (Ok c, s1)"
      "released c = 0" "content_stats s1 = (0, 1)" "node_inv s1" "handles s1 = handles f" "node_retention s1 = node_retention f"
      "is_present (content s1) (as_bytes ''opaque-sealed-envelope'')"
      "\<And>ns h. is_tracked_for (content s1) ns h \<longleftrightarrow> ns = trail_ns \<and> h = as_bytes ''opaque-sealed-envelope''"
    by (simp only: if_True) blast
  have "\<not> unat (now + 2 * MS_PER_HOUR) \<le> unat (entry_written_ms stamp) + unat (retention_ms (node_retention s1))"
    using assms(1) by (simp only: later(2) [OF assms(2)] hours_window first(6) hour)
  with one_record_sweep [OF first(4) _ first(8,7) one, where now = "now + 2 * MS_PER_HOUR" and stamp = stamp]
  obtain c' s2 where "prune_once (docs_query_of stamp rs) (\<lambda>xs. xs) (now + 2 * MS_PER_HOUR) s1 = (Ok c', s2)"
      "released c' = 1" "content_stats s2 = (0, 0)"
    by (simp only: if_False first(5) ready(2) simp_thms) blast
  moreover have "poll 300 (writer_net writer True rs) (\<lambda>s. content_stats s = (0, 1)) now (synced now writer rs 1) = Some f"
    unfolding rs_def f_def by (rule one_record_poll) simp
  ultimately show ?thesis
    using first(1-3)
    unfolding unparseable_keys_do_not_escape_retention_def Let_def sync_fold rs_def [symmetric]
    by (simp only: option.case prod.case sum.case simp_thms)
qed

text \<open>The trail of five fixes and the control slot.\<close>

lemma trail_records_eq:
  "trail_records (concat (replicate 32 ''cd'')) 5 = trail (replicate 32 0xcd) 5 shared_or_unique_payload"
proof -
  have "concat (replicate 32 ''cd'') = fmt_hex (replicate 32 0xcd)"
    by code_simp
  moreover have "unat (of_nat i :: u64) = i" if "i \<le> 5" for i
    using that by (simp add: unat_of_nat)
  ultimately show ?thesis
    unfolding trail_records_def trail_def
    by (simp add: encode_fix_key_def encode_ctl_key_def SEQ_WIDTH_def CTL_TAG_def)
qed

lemma five_payloads: "inj_on shared_or_unique_payload {1..5}"
proof -
  have "distinct (map shared_or_unique_payload [1..<6])"
    by code_simp
  moreover have "{1..5} = set [1..<6::nat]"
    by auto
  ultimately show ?thesis
    by (simp only: distinct_map)
qed

lemma trail_test:
  assumes "unat now \<le> unat (entry_written_ms stamp) + 3600000"
  shows "prune_collapses_a_trail_to_its_latest_fix_and_still_serves_it now stamp writer"
proof -
  define rs where "rs = trail (replicate 32 0xcd) 5 shared_or_unique_payload"
  define f where "f = fetched now writer rs 48"
  have hashes: "snd ` set rs = shared_or_unique_payload ` {1..5}"
    unfolding rs_def by (rule trail_hashes) simp
  have card: "card (shared_or_unique_payload ` {1..5}) = 5"
    using card_image [OF five_payloads] by simp
  note f = fetched_facts [where now = now and writer = writer and records = rs and hours = 48, folded f_def, unfolded hashes]
  note stats = record_stats [where now = now and writer = writer and records = rs and hours = 48, folded f_def, unfolded hashes card]
  have poll: "poll 300 (writer_net writer True rs) (\<lambda>s. content_stats s = (0, 5)) now (synced now writer rs 48) = Some f"
    unfolding f_def fetched_def
    by (rule poll_once) (simp_all only: stats fetched_def [symmetric] f_def [symmetric], simp_all)
  obtain c s1 where sweep: "prune_once (docs_query_of stamp rs) (\<lambda>xs. xs) now f = (Ok c, s1)"
    using query_sweep_ok [OF f(1)] by (metis prod.collapse)
  have docs: "docs_of (docs_query_of stamp rs) f trail_ns = Some (candidates_of stamp rs)"
    by (rule docs_of_query) (simp add: f(2))
  have "unat (retention_ms (from_hours 48)) = 172800000"
    by (simp add: from_hours_def MS_PER_HOUR_def unat_sat_mul)
  then have fresh: "fresh (node_retention f) now d" if "d \<in> set (candidates_of stamp rs)" for d
    using assms by (intro candidates_fresh [OF _ that]) (simp only: f(3))
  have small: "2 \<le> (5::nat)" "(5::nat) < 2 ^ 64" "replicate 32 (0xcd :: u8) \<noteq> []"
    by simp_all
  have recs: "map record_of (candidates_of stamp rs) = trail (replicate 32 0xcd) 5 shared_or_unique_payload"
    by (simp only: candidates_records rs_def)
  note swept = trail_swept [OF f(1) f(4) f(5) identity_order small five_payloads docs recs fresh sweep]
  note res = prune_once_result [OF f(1) identity_order, where get_many = "docs_query_of stamp rs" and now = now,
      unfolded sweep fst_conv snd_conv]
  obtain c' s2 where again: "prune_once (docs_query_of stamp rs) (\<lambda>xs. xs) now s1 = (Ok c', s2)"
    using query_sweep_ok [OF res(1)] by (metis prod.collapse)
  have idem: "released c' = 0" "is_tracked_for (content s2) ns h \<longleftrightarrow> is_tracked_for (content s1) ns h" for ns h
    using sweep_idempotent [OF f(1) identity_order identity_order sweep, of ns h] by (simp_all add: again)
  note res2 = prune_once_result [OF res(1) identity_order, where get_many = "docs_query_of stamp rs" and now = now,
      unfolded again fst_conv snd_conv]
  have "is_tracked (content s2) h \<longleftrightarrow> is_tracked (content s1) h" for h
    by (simp only: tracked_references [OF res2(1)] tracked_references [OF res(1)] idem(2))
  then have "content_stats s2 = content_stats s1"
    by (simp add: stats_card [OF res2(1)] stats_card [OF res(1)] res2(8) cong: conj_cong)
  moreover have "released c = 3"
    using res(10) [OF refl] swept(3) stats(2) by (simp add: content_stats_def)
  moreover have "blob_get memory_store (blobs s1) (shared_or_unique_payload i) = Some (shared_or_unique_payload i)"
    if "i \<in> {1..5}" for i
    using that f(6) by (simp add: res(4))
  ultimately show ?thesis
    using swept(3)
    unfolding prune_collapses_a_trail_to_its_latest_fix_and_still_serves_it_def Let_def sync_fold trail_records_eq
      rs_def [symmetric]
    by (simp only: poll option.case prod.case sum.case sweep again idem(1)) simp
qed

section \<open>Property\<close>



end
