(* ===== verification/Unit_Tests.thy ===== *)
theory Unit_Tests
  imports Config Auth Content Api Mls Push Log_Redaction Telemetry "HOL-Library.Sublist" "HOL-Library.List_Lexorder" "HOL-Library.Code_Target_Nat"
begin

text \<open>
  The unit tests of the repository, run on the model. Every \<open>#[test]\<close> function of the pure modules
  (\<open>retention\<close>, \<open>content\<close>, \<open>subscriptions\<close>, \<open>auth\<close>, \<open>api\<close>, \<open>config\<close>, \<open>push\<close>, \<open>waker\<close>, \<open>mls\<close>,
  \<open>log_redaction\<close>, \<open>telemetry\<close>) is a truth value under its own name: the conjunction of its assertions,
  with the definitions of the development in place of the functions under test and values that
  are mutated in place threaded through. The model passes all of them, by evaluation in the kernel:
  a definition that departs from the code on an input the authors thought worth a test does not
  pass this file.
\<close>

named_theorems test_defs

section \<open>\<open>retention.rs\<close>\<close>

text \<open>
  The helpers \<open>hex_encode\<close>, \<open>fix_key\<close> and \<open>ctl_key\<close> of the tests are \<open>fmt_hex\<close>, \<open>encode_fix_key\<close> and
  \<open>encode_ctl_key\<close>.
\<close>

abbreviation entry_at :: "bytes \<Rightarrow> u64 \<Rightarrow> retention_entry" where
  "entry_at k t \<equiv> \<lparr>key = k, written_ms = t\<rparr>"

definition cutoff_is_now_minus_window :: bool where
  "cutoff_is_now_minus_window \<longleftrightarrow>
     (let p = from_hours 48; now = 100 * MS_PER_HOUR
      in cutoff p now = 52 * MS_PER_HOUR)"

definition expiry_uses_strict_older_than_boundary :: bool where
  "expiry_uses_strict_older_than_boundary \<longleftrightarrow>
     (let p = from_hours 1; now = 10 * MS_PER_HOUR; limit = cutoff p now
      in is_expired p (limit - 1) now \<and> \<not> is_expired p limit now \<and> \<not> is_expired p now now)"

definition saturates_near_epoch_instead_of_wrapping :: bool where
  "saturates_near_epoch_instead_of_wrapping \<longleftrightarrow>
     (let p = from_hours 48
      in cutoff p MS_PER_HOUR = 0 \<and> \<not> is_expired p 0 MS_PER_HOUR)"

definition short_one_hour_window_supported :: bool where
  "short_one_hour_window_supported \<longleftrightarrow>
     (retention_ms (from_hours 1) = MS_PER_HOUR)"

definition parses_only_exact_location_fix_keys :: bool where
  "parses_only_exact_location_fix_keys \<longleftrightarrow>
     (decode_fix_key (encode_fix_key [0xab, 0xcd] 42) = Some \<lparr>author = [0xab, 0xcd], seq = 42\<rparr> \<and>
      decode_fix_key (encode_ctl_key [0xab, 0xcd]) = None \<and>
      decode_fix_key (as_bytes ''abcd/42'') = None \<and>
      decode_fix_key (as_bytes ''abcd/00000000000000000x42'') = None)"

definition superseded_fixes_are_selected_per_author :: bool where
  "superseded_fixes_are_selected_per_author \<longleftrightarrow>
     (let policy = from_hours 48; now = 100 * MS_PER_HOUR;
          entries = [entry_at (encode_fix_key [0xa1] 1) now, entry_at (encode_fix_key [0xa1] 2) now,
            entry_at (encode_fix_key [0xb1] 1) now]
      in release_decisions entries policy now = [Some Superseded, None, None])"

definition time_window_is_a_backstop_for_latest_fixes :: bool where
  "time_window_is_a_backstop_for_latest_fixes \<longleftrightarrow>
     (let policy = from_hours 1; now = 10 * MS_PER_HOUR;
          entries = [entry_at (encode_fix_key [0xa1] 9) (now - 2 * MS_PER_HOUR)]
      in release_decisions entries policy now = [Some Expired])"

definition superseded_and_expired_reasons_are_both_visible :: bool where
  "superseded_and_expired_reasons_are_both_visible \<longleftrightarrow>
     (let policy = from_hours 1; now = 10 * MS_PER_HOUR;
          entries = [entry_at (encode_fix_key [0xa1] 1) (now - 2 * MS_PER_HOUR), entry_at (encode_fix_key [0xa1] 2) now];
          decisions = release_decisions entries policy now
      in decisions = [Some SupersededAndExpired, None] \<and>
         (case decisions ! 0 of None \<Rightarrow> False | Some reason \<Rightarrow> is_superseded reason \<and> reason_is_expired reason))"

definition control_entries_age_out_but_are_never_superseded :: bool where
  "control_entries_age_out_but_are_never_superseded \<longleftrightarrow>
     (let policy = from_hours 1; now = 10 * MS_PER_HOUR; a = [0xa1]; fresh_control = encode_ctl_key a;
          entries = [entry_at (encode_fix_key a 1) now, entry_at fresh_control now, entry_at (encode_fix_key a 2) now];
          stale_control = [entry_at fresh_control (now - 9 * MS_PER_HOUR)]
      in release_decisions entries policy now = [Some Superseded, None, None] \<and>
         release_decisions stale_control policy now = [Some Expired])"

definition unparseable_keys_are_still_bounded_by_the_window :: bool where
  "unparseable_keys_are_still_bounded_by_the_window \<longleftrightarrow>
     (let policy = from_hours 1; now = 10 * MS_PER_HOUR;
          junk = as_bytes ''not-a-fix-key''; truncated_seq = as_bytes ''a1/42''
      in release_decisions [entry_at junk now, entry_at truncated_seq now] policy now = [None, None] \<and>
         release_decisions [entry_at junk 0, entry_at truncated_seq 0] policy now = [Some Expired, Some Expired])"

section \<open>\<open>content.rs\<close>\<close>

definition NS_A :: namespace_id where "NS_A = replicate 32 1"
definition NS_B :: namespace_id where "NS_B = replicate 32 2"
definition HASH :: content_hash where "HASH = replicate 32 9"
definition OTHER :: content_hash where "OTHER = replicate 32 8"

lemmas [test_defs] = NS_A_def NS_B_def HASH_def OTHER_def

definition an_unreferenced_hash_is_not_tracked :: bool where
  "an_unreferenced_hash_is_not_tracked \<longleftrightarrow>
     (\<not> is_tracked new_index HASH \<and> referenced new_index = [])"

definition wanting_a_hash_tracks_it_and_counts_it_as_missing :: bool where
  "wanting_a_hash_tracks_it_and_counts_it_as_missing \<longleftrightarrow>
     (let index = want NS_A HASH new_index
      in is_tracked index HASH \<and> \<not> is_present index HASH \<and> missing_count index = 1 \<and> referenced index = [HASH])"

definition tracked_hashes_are_scoped_to_their_namespace :: bool where
  "tracked_hashes_are_scoped_to_their_namespace \<longleftrightarrow>
     (let index = want NS_A HASH new_index
      in is_tracked_for index NS_A HASH \<and> \<not> is_tracked_for index NS_B HASH)"

definition arrival_clears_the_missing_count :: bool where
  "arrival_clears_the_missing_count \<longleftrightarrow>
     (let index = mark_present HASH (want NS_A HASH new_index)
      in is_present index HASH \<and> is_present_for index NS_A HASH \<and> \<not> is_present_for index NS_B HASH \<and>
         missing_count index = 0 \<and> tracked_count index = 1)"

definition marking_an_unwanted_hash_present_is_ignored :: bool where
  "marking_an_unwanted_hash_present_is_ignored \<longleftrightarrow>
     (let index = mark_present HASH new_index
      in \<not> is_tracked index HASH \<and> tracked_count index = 0)"

definition re_wanting_a_present_hash_does_not_resurrect_it_as_missing :: bool where
  "re_wanting_a_present_hash_does_not_resurrect_it_as_missing \<longleftrightarrow>
     (missing_count (want NS_A HASH (mark_present HASH (want NS_A HASH new_index))) = 0)"

definition forgetting_the_last_reference_reports_the_blob_is_deletable :: bool where
  "forgetting_the_last_reference_reports_the_blob_is_deletable \<longleftrightarrow>
     (let (last, index) = forget NS_A HASH (mark_present HASH (want NS_A HASH new_index))
      in last \<and> \<not> is_tracked index HASH \<and> tracked_count index = 0)"

definition a_hash_shared_by_two_namespaces_survives_one_prune :: bool where
  "a_hash_shared_by_two_namespaces_survives_one_prune \<longleftrightarrow>
     (let index0 = mark_present HASH (want NS_B HASH (want NS_A HASH new_index));
          (last1, index1) = forget NS_A HASH index0;
          (last2, index2) = forget NS_B HASH index1
      in \<not> last1 \<and> is_tracked index1 HASH \<and> is_present index1 HASH \<and> last2 \<and> \<not> is_tracked index2 HASH)"

definition forgetting_is_idempotent_and_scoped_to_one_hash :: bool where
  "forgetting_is_idempotent_and_scoped_to_one_hash \<longleftrightarrow>
     (let index0 = want NS_A OTHER (want NS_A HASH new_index);
          (last1, index1) = forget NS_A HASH index0;
          (last2, index2) = forget NS_A HASH index1
      in last1 \<and> \<not> last2 \<and> \<not> is_tracked index2 HASH \<and> is_tracked index2 OTHER \<and> tracked_count index2 = 1)"

section \<open>\<open>subscriptions.rs\<close>\<close>

definition test_sub :: "string \<Rightarrow> push_subscription" where
  "test_sub tok = \<lparr>platform = Apns, token = tok\<rparr>"

lemmas [test_defs] = test_sub_def

definition first_register_is_new_then_idempotent :: bool where
  "first_register_is_new_then_idempotent \<longleftrightarrow>
     (let ns = replicate 32 1;
          (first, reg1) = register ns (Some (test_sub ''aaaa1111'')) new_registry;
          (again, reg2) = register ns (Some (test_sub ''bbbb2222'')) reg1
      in first \<and> \<not> again \<and> is_known reg2 ns)"

definition wake_targets_dedupe_identical_subscriptions :: bool where
  "wake_targets_dedupe_identical_subscriptions \<longleftrightarrow>
     (let ns = replicate 32 2;
          reg1 = snd (register ns (Some (test_sub ''token-xyz'')) new_registry);
          reg2 = snd (register ns (Some (test_sub ''token-xyz'')) reg1);
          reg3 = snd (register ns (Some (test_sub ''other-dev'')) reg2)
      in length (wake_targets reg3 ns) = 2)"

definition unsubscribe_removes_target_but_keeps_namespace_known :: bool where
  "unsubscribe_removes_target_but_keeps_namespace_known \<longleftrightarrow>
     (let ns = replicate 32 3; s = test_sub ''wake-me'';
          reg1 = snd (register ns (Some s) new_registry);
          (removed, reg2) = unsubscribe ns s reg1;
          (again, reg3) = unsubscribe ns s reg2
      in removed \<and> \<not> again \<and> wake_targets reg3 ns = [] \<and> is_known reg3 ns)"

definition register_without_subscription_still_marks_known :: bool where
  "register_without_subscription_still_marks_known \<longleftrightarrow>
     (let ns = replicate 32 4; (first, reg) = register ns None new_registry
      in first \<and> is_known reg ns \<and> wake_targets reg ns = [])"

definition redacted_never_reveals_full_token :: bool where
  "redacted_never_reveals_full_token \<longleftrightarrow>
     (let r = redacted (test_sub ''supersecrettoken1234'')
      in r = ''apns:[REDACTED]'' \<and> \<not> sublist ''supersecret'' r \<and> \<not> sublist ''1234'' r)"

definition known_namespaces_lists_all_grants :: bool where
  "known_namespaces_lists_all_grants \<longleftrightarrow>
     (let reg1 = snd (register (replicate 32 5) None new_registry);
          reg2 = snd (register (replicate 32 6) (Some (test_sub ''t'')) reg1)
      in sort (known_namespaces reg2) = [replicate 32 5, replicate 32 6])"

section \<open>\<open>auth.rs\<close>\<close>

definition disabled_when_no_psk_configured :: bool where
  "disabled_when_no_psk_configured \<longleftrightarrow>
     (authorize None None = Disabled \<and> authorize None (Some ''whatever'') = Disabled \<and>
      is_allowed (authorize None None))"

definition ok_only_on_exact_match :: bool where
  "ok_only_on_exact_match \<longleftrightarrow>
     (authorize (Some ''s3cret'') (Some ''s3cret'') = AuthOk \<and>
      is_allowed (authorize (Some ''s3cret'') (Some ''s3cret'')))"

definition denied_on_missing_or_wrong :: bool where
  "denied_on_missing_or_wrong \<longleftrightarrow>
     (authorize (Some ''s3cret'') None = Denied \<and> authorize (Some ''s3cret'') (Some ''nope'') = Denied \<and>
      authorize (Some ''s3cret'') (Some ''s3cre'') = Denied \<and> \<not> is_allowed (authorize (Some ''s3cret'') (Some ''nope'')))"

definition parses_bearer_header :: bool where
  "parses_bearer_header \<longleftrightarrow>
     (bearer_token (Some ''Bearer abc123'') = Some ''abc123'' \<and>
      bearer_token (Some ''bearer abc123'') = Some ''abc123'' \<and>
      bearer_token (Some ''  Bearer   abc123  '') = Some ''abc123'' \<and>
      bearer_token (Some ''Basic abc123'') = None \<and>
      bearer_token (Some ''abc123'') = None \<and>
      bearer_token (Some ''Bearer '') = None \<and>
      bearer_token None = None)"

definition ct_eq_matches_only_identical :: bool where
  "ct_eq_matches_only_identical \<longleftrightarrow>
     (ct_eq [] [] \<and> ct_eq (as_bytes ''abc'') (as_bytes ''abc'') \<and>
      \<not> ct_eq (as_bytes ''abc'') (as_bytes ''abd'') \<and> \<not> ct_eq (as_bytes ''abc'') (as_bytes ''ab''))"

section \<open>\<open>api.rs\<close>\<close>

definition test_req :: "string \<Rightarrow> string option \<Rightarrow> string option \<Rightarrow> register_request" where
  "test_req ticket tok plat = \<lparr>read_ticket = ticket, push_token = tok, req_platform = plat\<rparr>"

definition OK_TICKET :: string where "OK_TICKET = ''docaaaabbbbccccdddd1234''"

lemmas [test_defs] = test_req_def OK_TICKET_def

definition ticket_only_registration_is_valid :: bool where
  "ticket_only_registration_is_valid \<longleftrightarrow>
     (case validate_register (test_req OK_TICKET None None) of
        Err e \<Rightarrow> False
      | Ok v \<Rightarrow> valid_ticket v = OK_TICKET \<and> subscription v = None)"

definition ticket_with_push_is_valid :: bool where
  "ticket_with_push_is_valid \<longleftrightarrow>
     (case validate_register (test_req OK_TICKET (Some ''tok123'') (Some ''fcm'')) of
        Err e \<Rightarrow> False
      | Ok v \<Rightarrow> subscription v = Some \<lparr>platform = Fcm, token = ''tok123''\<rparr>)"

definition trims_ticket_and_token :: bool where
  "trims_ticket_and_token \<longleftrightarrow>
     (case validate_register (test_req ''  docaaaabbbbccccdddd  '' (Some '' tok '') (Some ''apns'')) of
        Err e \<Rightarrow> False
      | Ok v \<Rightarrow> valid_ticket v = ''docaaaabbbbccccdddd'' \<and> map_option token (subscription v) = Some ''tok'' )"

definition rejects_junk_ticket :: bool where
  "rejects_junk_ticket \<longleftrightarrow>
     (validate_register (test_req ''short'' None None) = Err BadTicket \<and>
      validate_register (test_req ''has spaces and!!!'' None None) = Err BadTicket \<and>
      validate_register (test_req [] None None) = Err BadTicket)"

definition rejects_partial_push :: bool where
  "rejects_partial_push \<longleftrightarrow>
     (validate_register (test_req OK_TICKET (Some ''tok'') None) = Err IncompletePush \<and>
      validate_register (test_req OK_TICKET None (Some ''apns'')) = Err IncompletePush)"

definition rejects_bad_platform_and_empty_token :: bool where
  "rejects_bad_platform_and_empty_token \<longleftrightarrow>
     (validate_register (test_req OK_TICKET (Some ''tok'') (Some ''sms'')) = Err BadPlatform \<and>
      validate_register (test_req OK_TICKET (Some ''   '') (Some ''apns'')) = Err BadToken)"

definition rejects_oversized_token :: bool where
  "rejects_oversized_token \<longleftrightarrow>
     (validate_register (test_req OK_TICKET (Some (replicate (MAX_TOKEN_LEN + 1) (CHR ''a''))) (Some ''apns'')) = Err BadToken)"

definition namespace_hex_round_trips :: bool where
  "namespace_hex_round_trips \<longleftrightarrow>
     (let ns = replicate 32 0xab in parse_namespace_hex (concat (map fmt_02x ns)) = Ok ns)"

definition namespace_hex_rejects_bad_input :: bool where
  "namespace_hex_rejects_bad_input \<longleftrightarrow>
     (parse_namespace_hex ''abc'' = Err BadNamespace \<and>
      parse_namespace_hex (replicate 64 (CHR ''A'')) = Err BadNamespace \<and>
      parse_namespace_hex (replicate 64 (CHR ''g'')) = Err BadNamespace)"

section \<open>\<open>config.rs\<close>\<close>

text \<open>\<open>getter\<close> collects the pairs in a map, where a later pair replaces an earlier one.\<close>

definition getter :: "(string \<times> string) list \<Rightarrow> string \<Rightarrow> string option" where
  "getter vars k = map_of (rev vars) k"

definition empty_env_uses_defaults :: bool where
  "empty_env_uses_defaults \<longleftrightarrow>
     (let cfg = from_env (getter [])
      in port cfg = DEFAULT_PORT \<and> retention cfg = from_hours DEFAULT_RETENTION_HOURS \<and>
         prune_interval_min cfg = DEFAULT_PRUNE_INTERVAL_MIN \<and> relay_urls cfg = [] \<and> relay_token cfg = None)"

definition parses_custom_values :: bool where
  "parses_custom_values \<longleftrightarrow>
     (let cfg = from_env (getter [(''PORT'', ''9000''), (''TRAIL_STASH_RETENTION_HOURS'', ''1''),
            (''TRAIL_STASH_PRUNE_INTERVAL_MIN'', ''5'')])
      in port cfg = 9000 \<and> retention cfg = from_hours 1 \<and> prune_interval_min cfg = 5)"

definition clamps_out_of_range :: bool where
  "clamps_out_of_range \<longleftrightarrow>
     (let cfg = from_env (getter [(''TRAIL_STASH_RETENTION_HOURS'', ''100000''), (''TRAIL_STASH_PRUNE_INTERVAL_MIN'', ''0'')])
      in retention cfg = from_hours MAX_RETENTION_HOURS \<and> prune_interval_min cfg = MIN_PRUNE_INTERVAL_MIN)"

definition junk_falls_back_to_default :: bool where
  "junk_falls_back_to_default \<longleftrightarrow>
     (let cfg = from_env (getter [(''PORT'', ''not-a-port''), (''TRAIL_STASH_RETENTION_HOURS'', ''abc'')])
      in port cfg = DEFAULT_PORT \<and> retention cfg = from_hours DEFAULT_RETENTION_HOURS)"

definition zero_port_rejected :: bool where
  "zero_port_rejected \<longleftrightarrow>
     (port (from_env (getter [(''PORT'', ''0'')])) = DEFAULT_PORT)"

definition psk_parsed_trimmed_and_optional :: bool where
  "psk_parsed_trimmed_and_optional \<longleftrightarrow>
     (psk (from_env (getter [])) = None \<and>
      psk (from_env (getter [(''TRAIL_STASH_PSK'', ''  s3cret  '')])) = Some ''s3cret'' \<and>
      psk (from_env (getter [(''TRAIL_STASH_PSK'', ''   '')])) = None)"

definition custom_relays_are_parsed_and_trimmed :: bool where
  "custom_relays_are_parsed_and_trimmed \<longleftrightarrow>
     (let cfg = from_env (getter
            [(''TRAIL_STASH_RELAY_URLS'', '' https://relay-one.example.com, ,https://relay-two.example.com ''),
             (''TRAIL_STASH_RELAY_TOKEN'', '' relay-secret '')])
      in relay_urls cfg = [''https://relay-one.example.com'', ''https://relay-two.example.com''] \<and>
         relay_token cfg = Some ''relay-secret'' )"

section \<open>\<open>push.rs\<close>\<close>

definition push_ns :: namespace_id where "push_ns = replicate 32 0xab"

definition header_of :: "push_request \<Rightarrow> string \<Rightarrow> string option" where
  "header_of r k = map_of (headers r) k"

lemmas [test_defs] = push_ns_def header_of_def

definition namespace_hex_is_64_lowercase :: bool where
  "namespace_hex_is_64_lowercase \<longleftrightarrow>
     (let h = namespace_hex push_ns in length h = 64 \<and> h = concat (replicate 32 ''ab''))"

definition apns_is_silent_background :: bool where
  "apns_is_silent_background \<longleftrightarrow>
     (let r = apns_request ''api.push.apple.com'' ''com.unrealjune.streetcryptid'' ''TOKEN'' push_ns
      in url r = ''https://api.push.apple.com/3/device/TOKEN'' \<and>
         header_of r ''apns-push-type'' = Some ''background'' \<and>
         header_of r ''apns-priority'' = Some ''5'' \<and>
         header_of r ''apns-topic'' = Some ''com.unrealjune.streetcryptid'' \<and>
         json_path (body r) [''aps'', ''content-available''] = Some (JNum 1) \<and>
         json_path (body r) [''aps'', ''alert''] = None \<and>
         json_path (body r) [''aps'', ''sound''] = None \<and>
         json_path (body r) [''type''] = Some (JStr PUSH_TYPE) \<and>
         json_path (body r) [''ns''] = Some (JStr (concat (replicate 32 ''ab''))))"

definition fcm_is_data_only_high_priority :: bool where
  "fcm_is_data_only_high_priority \<longleftrightarrow>
     (let r = fcm_request ''street-cryptid'' ''TOKEN'' push_ns
      in url r = ''https://fcm.googleapis.com/v1/projects/street-cryptid/messages:send'' \<and>
         json_path (body r) [''message'', ''token''] = Some (JStr ''TOKEN'') \<and>
         json_path (body r) [''message'', ''data'', ''type''] = Some (JStr PUSH_TYPE) \<and>
         json_path (body r) [''message'', ''data'', ''ns''] = Some (JStr (concat (replicate 32 ''ab''))) \<and>
         json_path (body r) [''message'', ''android'', ''priority''] = Some (JStr ''high'') \<and>
         json_path (body r) [''message'', ''apns'', ''payload'', ''aps'', ''content-available''] = Some (JNum 1) \<and>
         json_path (body r) [''message'', ''notification''] = None)"

section \<open>\<open>waker.rs\<close>\<close>

text \<open>The recording waker of the tests, as the list of its calls.\<close>

definition recording_wake :: "namespace_id \<Rightarrow> push_subscription list \<Rightarrow> (namespace_id \<times> nat) list \<Rightarrow>
    (namespace_id \<times> nat) list" where
  "recording_wake ns targets calls = calls @ [(ns, length targets)]"

lemmas [test_defs] = recording_wake_def

definition noop_waker_is_a_safe_default :: bool where
  "noop_waker_is_a_safe_default \<longleftrightarrow>
     (wake NoopWaker \<lparr>apns_bearer = None, fcm_bearer = None\<rparr> (replicate 32 0) [] = [])"

definition recording_waker_captures_targets :: bool where
  "recording_waker_captures_targets \<longleftrightarrow>
     (let ns = replicate 32 5; targets = [\<lparr>platform = Fcm, token = ''abc''\<rparr>]
      in recording_wake ns targets [] = [(ns, 1)])"

section \<open>\<open>mls.rs\<close>\<close>

definition reject_handshake_stub :: delivery_service where
  "reject_handshake_stub envelope =
     (case env_bytes envelope of
        b # _ \<Rightarrow> if b = 0xff then Reject ''example: unexpected handshake framing'' else Accept
      | [] \<Rightarrow> Accept)"

lemmas [test_defs] = reject_handshake_stub_def

definition passthrough_admits_any_envelope :: bool where
  "passthrough_admits_any_envelope \<longleftrightarrow>
     (passthrough_delivery \<lparr>env_namespace = replicate 32 9, env_author = replicate 32 7, env_seq = 42,
        env_bytes = [0, 1, 2] @ as_bytes ''opaque-ciphertext''\<rparr> = Accept)"

definition passthrough_admits_empty_bytes :: bool where
  "passthrough_admits_empty_bytes \<longleftrightarrow>
     (passthrough_delivery \<lparr>env_namespace = replicate 32 0, env_author = replicate 32 0, env_seq = 0,
        env_bytes = []\<rparr> = Accept)"

definition seam_supports_a_selective_delivery_service :: bool where
  "seam_supports_a_selective_delivery_service \<longleftrightarrow>
     (let good = \<lparr>env_namespace = replicate 32 1, env_author = replicate 32 2, env_seq = 1, env_bytes = 1 # as_bytes ''app''\<rparr>;
          bad = \<lparr>env_namespace = replicate 32 1, env_author = replicate 32 2, env_seq = 2, env_bytes = 0xff # as_bytes ''handshake''\<rparr>
      in reject_handshake_stub good = Accept \<and>
         (case reject_handshake_stub bad of Reject reason \<Rightarrow> True | Accept \<Rightarrow> False))"

section \<open>\<open>log_redaction.rs\<close>\<close>

text \<open>\<open>str::matches(pattern).count()\<close>: occurrences that do not overlap, from the left.\<close>

function count_matches :: "string \<Rightarrow> string \<Rightarrow> nat" where
  "count_matches p [] = (if p = [] then 1 else 0)"
| "count_matches p (c # s) =
     (if p = [] then Suc (count_matches p s)
      else if prefix p (c # s) then Suc (count_matches p (drop (length p) (c # s)))
      else count_matches p s)"
  by pat_completeness auto

termination count_matches
  by (relation "measure (\<lambda>(p, s). length s)") (auto simp: neq_Nil_conv)

definition redacts_ipv4_and_ports :: bool where
  "redacts_ipv4_and_ports \<longleftrightarrow>
     (redact_log_line ''peer=192.0.2.44 remote=198.51.100.8:443'' = ''peer=[REDACTED] remote=[REDACTED]'' )"

definition redacts_ipv6_addresses :: bool where
  "redacts_ipv6_addresses \<longleftrightarrow>
     (\<not> sublist ''2001:db8'' (redact_log_line ''direct=2001:db8::8 relay=[2001:db8::9]:443''))"

definition redacts_identity_like_values :: bool where
  "redacts_identity_like_values \<longleftrightarrow>
     (let line = ''node=0123456789abcdef0123456789abcdef0123456789abcdef0123456789abcdef token=AbCdEfGhIjKlMnOpQrStUvWxYz012345'';
          redacted_line = redact_log_line line
      in count_matches REDACTED redacted_line = 2 \<and> \<not> sublist ''0123456789abcdef'' redacted_line \<and>
         \<not> sublist ''AbCdEfGh'' redacted_line)"

definition preserves_normal_diagnostics :: bool where
  "preserves_normal_diagnostics \<longleftrightarrow>
     (let line = ''2026-07-12T19:07:49Z stash: pruned 12 expired entries'' in redact_log_line line = line)"

section \<open>\<open>telemetry.rs\<close>\<close>

definition short_hex_is_the_ten_char_join_key :: bool where
  "short_hex_is_the_ten_char_join_key \<longleftrightarrow>
     (short_hex [0xab, 0x12, 0xcd, 0x34, 0xef, 0x99] = ''ab12cd34ef'' )"

section \<open>The suite\<close>

definition unit_tests :: "bool list" where
  "unit_tests =
    [cutoff_is_now_minus_window, expiry_uses_strict_older_than_boundary,
     saturates_near_epoch_instead_of_wrapping, short_one_hour_window_supported,
     parses_only_exact_location_fix_keys, superseded_fixes_are_selected_per_author,
     time_window_is_a_backstop_for_latest_fixes, superseded_and_expired_reasons_are_both_visible,
     control_entries_age_out_but_are_never_superseded, unparseable_keys_are_still_bounded_by_the_window,
     an_unreferenced_hash_is_not_tracked, wanting_a_hash_tracks_it_and_counts_it_as_missing,
     tracked_hashes_are_scoped_to_their_namespace, arrival_clears_the_missing_count,
     marking_an_unwanted_hash_present_is_ignored,
     re_wanting_a_present_hash_does_not_resurrect_it_as_missing,
     forgetting_the_last_reference_reports_the_blob_is_deletable,
     a_hash_shared_by_two_namespaces_survives_one_prune, forgetting_is_idempotent_and_scoped_to_one_hash,
     first_register_is_new_then_idempotent, wake_targets_dedupe_identical_subscriptions,
     unsubscribe_removes_target_but_keeps_namespace_known, register_without_subscription_still_marks_known,
     redacted_never_reveals_full_token, known_namespaces_lists_all_grants, disabled_when_no_psk_configured,
     ok_only_on_exact_match, denied_on_missing_or_wrong, parses_bearer_header,
     ct_eq_matches_only_identical, ticket_only_registration_is_valid, ticket_with_push_is_valid,
     trims_ticket_and_token, rejects_junk_ticket, rejects_partial_push,
     rejects_bad_platform_and_empty_token, rejects_oversized_token, namespace_hex_round_trips,
     namespace_hex_rejects_bad_input, empty_env_uses_defaults, parses_custom_values, clamps_out_of_range,
     junk_falls_back_to_default, zero_port_rejected, psk_parsed_trimmed_and_optional,
     custom_relays_are_parsed_and_trimmed, namespace_hex_is_64_lowercase, apns_is_silent_background,
     fcm_is_data_only_high_priority, noop_waker_is_a_safe_default, recording_waker_captures_targets,
     passthrough_admits_any_envelope, passthrough_admits_empty_bytes,
     seam_supports_a_selective_delivery_service, redacts_ipv4_and_ports, redacts_ipv6_addresses,
     redacts_identity_like_values, preserves_normal_diagnostics, short_hex_is_the_ten_char_join_key]"

section \<open>All of them\<close>

lemma namespace_hex_repeat: "namespace_hex (replicate n b) = concat (replicate n (fmt_02x b))"
  by (induction n) (simp_all add: namespace_hex_fmt)

lemma push_ns_hex: "namespace_hex push_ns = concat (replicate 32 ''ab'')"
proof -
  have "fmt_02x 0xab = ''ab''"
    by code_simp
  then show ?thesis
    by (simp only: push_ns_def namespace_hex_repeat)
qed

lemma redact_by_ranges:
  "redact_ranges line = rs \<Longrightarrow> redact_log_line line = (if rs = [] then line else emit line (sort rs) 0 [])"
  by (simp add: redact_log_line_def)

lemma cutoff_is_now_minus_window_passes: "cutoff_is_now_minus_window"
  by code_simp

lemma expiry_uses_strict_older_than_boundary_passes: "expiry_uses_strict_older_than_boundary"
  by code_simp

lemma saturates_near_epoch_instead_of_wrapping_passes: "saturates_near_epoch_instead_of_wrapping"
  by code_simp

lemma short_one_hour_window_supported_passes: "short_one_hour_window_supported"
  by code_simp

lemma parses_only_exact_location_fix_keys_passes: "parses_only_exact_location_fix_keys"
  by code_simp

lemma superseded_fixes_are_selected_per_author_passes: "superseded_fixes_are_selected_per_author"
  by code_simp

lemma time_window_is_a_backstop_for_latest_fixes_passes: "time_window_is_a_backstop_for_latest_fixes"
  by code_simp

lemma superseded_and_expired_reasons_are_both_visible_passes: "superseded_and_expired_reasons_are_both_visible"
  by code_simp

lemma control_entries_age_out_but_are_never_superseded_passes: "control_entries_age_out_but_are_never_superseded"
  by code_simp

lemma unparseable_keys_are_still_bounded_by_the_window_passes: "unparseable_keys_are_still_bounded_by_the_window"
  by code_simp

lemma an_unreferenced_hash_is_not_tracked_passes: "an_unreferenced_hash_is_not_tracked"
  by code_simp

lemma wanting_a_hash_tracks_it_and_counts_it_as_missing_passes: "wanting_a_hash_tracks_it_and_counts_it_as_missing"
  by code_simp

lemma tracked_hashes_are_scoped_to_their_namespace_passes: "tracked_hashes_are_scoped_to_their_namespace"
  by code_simp

lemma arrival_clears_the_missing_count_passes: "arrival_clears_the_missing_count"
  by code_simp

lemma marking_an_unwanted_hash_present_is_ignored_passes: "marking_an_unwanted_hash_present_is_ignored"
  by code_simp

lemma re_wanting_a_present_hash_does_not_resurrect_it_as_missing_passes: "re_wanting_a_present_hash_does_not_resurrect_it_as_missing"
  by code_simp

lemma forgetting_the_last_reference_reports_the_blob_is_deletable_passes: "forgetting_the_last_reference_reports_the_blob_is_deletable"
  by code_simp

lemma a_hash_shared_by_two_namespaces_survives_one_prune_passes: "a_hash_shared_by_two_namespaces_survives_one_prune"
  by code_simp

lemma forgetting_is_idempotent_and_scoped_to_one_hash_passes: "forgetting_is_idempotent_and_scoped_to_one_hash"
  by code_simp

lemma first_register_is_new_then_idempotent_passes: "first_register_is_new_then_idempotent"
  by code_simp

lemma wake_targets_dedupe_identical_subscriptions_passes: "wake_targets_dedupe_identical_subscriptions"
  by code_simp

lemma unsubscribe_removes_target_but_keeps_namespace_known_passes: "unsubscribe_removes_target_but_keeps_namespace_known"
  by code_simp

lemma register_without_subscription_still_marks_known_passes: "register_without_subscription_still_marks_known"
  by code_simp

lemma redacted_never_reveals_full_token_passes: "redacted_never_reveals_full_token"
  by code_simp

lemma known_namespaces_lists_all_grants_passes: "known_namespaces_lists_all_grants"
  by code_simp

lemma disabled_when_no_psk_configured_passes: "disabled_when_no_psk_configured"
  by code_simp

lemma ok_only_on_exact_match_passes: "ok_only_on_exact_match"
  by code_simp

lemma denied_on_missing_or_wrong_passes: "denied_on_missing_or_wrong"
  by code_simp

lemma parses_bearer_header_passes: "parses_bearer_header"
  by code_simp

lemma ct_eq_matches_only_identical_passes: "ct_eq_matches_only_identical"
  by code_simp

lemma ticket_only_registration_is_valid_passes: "ticket_only_registration_is_valid"
  by code_simp

lemma ticket_with_push_is_valid_passes: "ticket_with_push_is_valid"
  by code_simp

lemma trims_ticket_and_token_passes: "trims_ticket_and_token"
  by code_simp

lemma rejects_junk_ticket_passes: "rejects_junk_ticket"
  by code_simp

lemma rejects_partial_push_passes: "rejects_partial_push"
  by code_simp

lemma rejects_bad_platform_and_empty_token_passes: "rejects_bad_platform_and_empty_token"
  by code_simp

lemma rejects_oversized_token_passes: "rejects_oversized_token"
  by code_simp

lemma namespace_hex_round_trips_passes: "namespace_hex_round_trips"
  by code_simp

lemma namespace_hex_rejects_bad_input_passes: "namespace_hex_rejects_bad_input"
  by code_simp

lemma empty_env_uses_defaults_passes: "empty_env_uses_defaults"
  by code_simp

lemma parses_custom_values_passes: "parses_custom_values"
  by code_simp

lemma clamps_out_of_range_passes: "clamps_out_of_range"
  by code_simp

lemma junk_falls_back_to_default_passes: "junk_falls_back_to_default"
  by code_simp

lemma zero_port_rejected_passes: "zero_port_rejected"
  by code_simp

lemma psk_parsed_trimmed_and_optional_passes: "psk_parsed_trimmed_and_optional"
  by code_simp

lemma custom_relays_are_parsed_and_trimmed_passes: "custom_relays_are_parsed_and_trimmed"
  by code_simp

lemma namespace_hex_is_64_lowercase_passes: "namespace_hex_is_64_lowercase"
  unfolding namespace_hex_is_64_lowercase_def push_ns_hex by code_simp

lemma apns_is_silent_background_passes: "apns_is_silent_background"
  unfolding apns_is_silent_background_def apns_request_def push_ns_hex header_of_def Let_def by simp

lemma fcm_is_data_only_high_priority_passes: "fcm_is_data_only_high_priority"
  unfolding fcm_is_data_only_high_priority_def fcm_request_def push_ns_hex Let_def by simp

lemma noop_waker_is_a_safe_default_passes: "noop_waker_is_a_safe_default"
  by code_simp

lemma recording_waker_captures_targets_passes: "recording_waker_captures_targets"
  by code_simp

lemma passthrough_admits_any_envelope_passes: "passthrough_admits_any_envelope"
  by code_simp

lemma passthrough_admits_empty_bytes_passes: "passthrough_admits_empty_bytes"
  by code_simp

lemma seam_supports_a_selective_delivery_service_passes: "seam_supports_a_selective_delivery_service"
  by code_simp

lemma redacts_ipv4_and_ports_passes: "redacts_ipv4_and_ports"
proof -
  have r: "redact_ranges ''peer=192.0.2.44 remote=198.51.100.8:443'' = [(5, 15), (23, 39)]"
    unfolding redact_ranges_runs by code_simp
  show ?thesis
    unfolding redacts_ipv4_and_ports_def Let_def redact_by_ranges [OF r] by code_simp
qed

lemma redacts_ipv6_addresses_passes: "redacts_ipv6_addresses"
proof -
  have r: "redact_ranges ''direct=2001:db8::8 relay=[2001:db8::9]:443'' = [(7, 18), (26, 37)]"
    unfolding redact_ranges_runs by code_simp
  show ?thesis
    unfolding redacts_ipv6_addresses_def Let_def redact_by_ranges [OF r] by code_simp
qed

lemma redacts_identity_like_values_passes: "redacts_identity_like_values"
proof -
  have r: "redact_ranges ''node=0123456789abcdef0123456789abcdef0123456789abcdef0123456789abcdef token=AbCdEfGhIjKlMnOpQrStUvWxYz012345'' = [(0, 69), (70, 108)]"
    unfolding redact_ranges_runs by code_simp
  show ?thesis
    unfolding redacts_identity_like_values_def Let_def redact_by_ranges [OF r] by code_simp
qed

lemma preserves_normal_diagnostics_passes: "preserves_normal_diagnostics"
proof -
  have r: "redact_ranges ''2026-07-12T19:07:49Z stash: pruned 12 expired entries'' = []"
    unfolding redact_ranges_runs by code_simp
  show ?thesis
    unfolding preserves_normal_diagnostics_def Let_def redact_by_ranges [OF r] by code_simp
qed

lemma short_hex_is_the_ten_char_join_key_passes: "short_hex_is_the_ten_char_join_key"
  by code_simp

lemmas unit_test_passes =
  cutoff_is_now_minus_window_passes expiry_uses_strict_older_than_boundary_passes
  saturates_near_epoch_instead_of_wrapping_passes short_one_hour_window_supported_passes
  parses_only_exact_location_fix_keys_passes superseded_fixes_are_selected_per_author_passes
  time_window_is_a_backstop_for_latest_fixes_passes superseded_and_expired_reasons_are_both_visible_passes
  control_entries_age_out_but_are_never_superseded_passes
  unparseable_keys_are_still_bounded_by_the_window_passes an_unreferenced_hash_is_not_tracked_passes
  wanting_a_hash_tracks_it_and_counts_it_as_missing_passes
  tracked_hashes_are_scoped_to_their_namespace_passes arrival_clears_the_missing_count_passes
  marking_an_unwanted_hash_present_is_ignored_passes
  re_wanting_a_present_hash_does_not_resurrect_it_as_missing_passes
  forgetting_the_last_reference_reports_the_blob_is_deletable_passes
  a_hash_shared_by_two_namespaces_survives_one_prune_passes
  forgetting_is_idempotent_and_scoped_to_one_hash_passes first_register_is_new_then_idempotent_passes
  wake_targets_dedupe_identical_subscriptions_passes
  unsubscribe_removes_target_but_keeps_namespace_known_passes
  register_without_subscription_still_marks_known_passes redacted_never_reveals_full_token_passes
  known_namespaces_lists_all_grants_passes disabled_when_no_psk_configured_passes
  ok_only_on_exact_match_passes denied_on_missing_or_wrong_passes parses_bearer_header_passes
  ct_eq_matches_only_identical_passes ticket_only_registration_is_valid_passes
  ticket_with_push_is_valid_passes trims_ticket_and_token_passes rejects_junk_ticket_passes
  rejects_partial_push_passes rejects_bad_platform_and_empty_token_passes rejects_oversized_token_passes
  namespace_hex_round_trips_passes namespace_hex_rejects_bad_input_passes empty_env_uses_defaults_passes
  parses_custom_values_passes clamps_out_of_range_passes junk_falls_back_to_default_passes
  zero_port_rejected_passes psk_parsed_trimmed_and_optional_passes
  custom_relays_are_parsed_and_trimmed_passes namespace_hex_is_64_lowercase_passes
  apns_is_silent_background_passes fcm_is_data_only_high_priority_passes noop_waker_is_a_safe_default_passes
  recording_waker_captures_targets_passes passthrough_admits_any_envelope_passes
  passthrough_admits_empty_bytes_passes seam_supports_a_selective_delivery_service_passes
  redacts_ipv4_and_ports_passes redacts_ipv6_addresses_passes redacts_identity_like_values_passes
  preserves_normal_diagnostics_passes short_hex_is_the_ten_char_join_key_passes

section \<open>Property\<close>


end
