(* ===== verification/Spec2Isabelle.thy ===== *)
theory Spec2Isabelle
  imports Config Binary Node_Race Node_Types Node_Locks Node_Spec Node_Timing Node_Tests Unit_Tests
begin

text \<open>
  A verification of \<open>trail-stash\<close>, the always-on, ciphertext-blind replica of iroh-docs trails
  (\<open>src/rust\<close>). A phone registers a read-ticket; the stash replicates that namespace in memory,
  fetches and keeps the ciphertext its entries name, wakes the subscribers once an entry can be
  served, and releases ciphertext that is superseded or too old. It never decrypts anything.

  \<^bold>\<open>Parts and how they interact.\<close> \<open>config.rs\<close> reads the environment; \<open>retention.rs\<close> decides what may be
  released; \<open>content.rs\<close> is the index of referenced hashes; \<open>subscriptions.rs\<close> the registry of grants and
  wake targets; \<open>auth.rs\<close> and \<open>api.rs\<close> check requests; \<open>push.rs\<close> and \<open>waker.rs\<close> build and send pushes;
  \<open>mls.rs\<close> is the delivery-service seam; \<open>log_redaction.rs\<close> and \<open>telemetry.rs\<close> guard what reaches logs. \<open>node.rs\<close> joins
  them: HTTP handlers change the registry and the index, a watch task per namespace records replicated entries, the settle loop fetches their bytes
  and wakes, the sweep applies the retention policy, and the collector asks the index what to keep.

  \<^bold>\<open>Theories.\<close>
  \<^item> \<open>Prelude\<close>: machine integers, results, the named collections, list and word lemmas.
  \<^item> \<open>Rust_Std\<close>: the standard-library operations used (saturating arithmetic, ASCII classes, UTF-8
    validation, \<open>trim\<close>, \<open>split_once\<close>, number parsing and padding, hexadecimal).
  \<^item> \<open>Hash_Table\<close>: \<open>HashMap\<close> and \<open>HashSet\<close> as lists in iteration order, behind the locales \<open>hash_map\<close>,
    \<open>iterable_map\<close> and \<open>hash_set\<close>. Theorems hold for every well-formed table, so for every order.
  \<^item> \<open>Retention\<close>: window arithmetic, key decoding, release decisions; equal to a policy on sets of
    entries.
  \<^item> \<open>Content\<close>: \<open>ContentIndex\<close> and its refinement to a ledger of references (locale
    \<open>content_ledger\<close>).
  \<^item> \<open>Subscriptions\<close>: \<open>NamespaceRegistry\<close> and its refinement to sets of grants (locale
    \<open>wake_registry\<close>).
  \<^item> \<open>Net_Addr\<close>: the address parser of \<open>core::net\<close> (part of the standard library), with the exact
    language of IPv4 addresses.
  \<^item> \<open>Log_Redaction\<close>: \<open>redact_log_line\<close>, characterised by maximal runs; its loops end.
  \<^item> \<open>Telemetry\<close>: \<open>telemetry.rs\<close> except the request span, which is in \<open>Node_Boot\<close>.
  \<^item> \<open>Auth\<close>, \<open>Api\<close>, \<open>Config\<close>, \<open>Push\<close>, \<open>Mls\<close>: the files of the same names; \<open>Push\<close> holds the request
    selection of \<open>waker.rs\<close> and \<open>Push_Send\<close> the sending.
  \<^item> \<open>Node_State\<close>: the fields of \<open>StashNode\<close>, the externals it runs on, content reads and uploads,
    registration, the collector's callback, and the invariant \<open>node_inv\<close>.
  \<^item> \<open>Node_Watch\<close>: \<open>spawn_watch\<close> on a remote insert, \<open>settle_once\<close>, \<open>fetch_content\<close>, \<open>wake_for\<close>.
  \<^item> \<open>Node_Prune\<close>: \<open>prune_once\<close>.
  \<^item> \<open>Node_Http\<close>: the handlers, \<open>psk_guard\<close> and the routing of \<open>serve_control_api\<close>.
  \<^item> \<open>Node_System\<close>: all tasks interleaved, as a labelled step relation with its reachable states.
  \<^item> \<open>Node_Race\<close>: the same tasks split at every lock and await, in all schedules.
  \<^item> \<open>Node_Spec\<close>: the abstract stash, and every run of \<open>Node_System\<close> as a history of it.
  \<^item> \<open>Node_Recovery\<close>: the retry schedule over any history; recovery within a minute of waking up.
  \<^item> \<open>Node_Lifetime\<close>: the event loop of \<open>spawn_watch\<close> with its three ends; which tasks still run.
  \<^item> \<open>Node_Memory\<close>: how many blobs a namespace keeps after a sweep, and which sweeps keep everything.
  \<^item> \<open>Node_Timing\<close>: \<open>run_settle_loop\<close> with its interval and the timeout of \<open>fetch_content\<close>: how long a tick takes.
  \<^item> \<open>Node_Trail\<close>: delivery, fetch and sweep composed, on the trail of a phone.
  \<^item> \<open>Node_Locks\<close>: the four mutexes and what every operation does to them; no deadlock.
  \<^item> \<open>Node_Types\<close>: the 32-byte types of the tables.
  \<^item> \<open>Node_Boot\<close>: \<open>StashNode::spawn\<close>, \<open>run_prune_loop\<close> and \<open>serve_control_api\<close> with the request span.
  \<^item> \<open>Binary\<close>: \<open>bin/trail-stash.rs\<close>: the key, the console format and \<open>main\<close>.
  \<^item> \<open>Unit_Tests\<close>, \<open>Node_Tests\<close>: the repository's tests as truth values on the model, and that they hold;
    the unit tests by evaluation, those of the node for every clock and writer they leave open.

  \<^bold>\<open>Correspondence.\<close> Structs are records, enums datatypes, \<open>u64\<close> and \<open>u32\<close> words of that width; counters
  of objects in memory are natural numbers. A method on \<open>&self\<close> with interior mutability takes and
  returns the state. Errors are the left side of a sum. Strings are lists of the bytes of their UTF-8
  encoding. A critical section is atomic; in \<open>Node_System\<close> each label is a handler or the part of
  a loop that concerns one hash, run without interruption; \<open>Node_Race\<close> splits these at the points where
  the code waits or releases a lock, shows that the coarse runs are fine runs, and which of the
  guarantees every fine run keeps. \<open>Node_Lifetime\<close> lets watch tasks end, which \<open>Node_System\<close> does not, and
  maps its runs back to those of \<open>Node_System\<close>. \<open>Node_Locks\<close> abstracts an operation to its list of lock
  actions and waits, one list per path through the code.

  \<^bold>\<open>Externals.\<close> The blob store, the docs engine, the downloader, JSON decoding, the
  parsers of iroh identifiers, endpoint and relays, the exporters and the HTTP client are parameters
  (\<open>blob_api\<close>, \<open>docs_api\<close>, \<open>net_api\<close>, \<open>http_api\<close>, \<open>docs_query\<close>, \<open>iroh_api\<close>, \<open>otlp_api\<close>). What the
  node relies on is stated as \<open>blob_laws\<close> (the store holds what it says it holds, under its own hash)
  and \<open>net_laws\<close> (a successful download delivers, and none destroys); the collector may drop any blob
  outside the protected set. Each theorem with such a hypothesis is applied to concrete externals.

  \<^bold>\<open>What the lemmas show.\<close> The components meet their contracts; the node with all its tasks
  refines a stash that is four sets, and shows clients nothing else; the sweep releases exactly what the
  policy allows and nothing a kept entry needs; a settle pass wakes exactly whom it should, once, and
  brings every stored hash to servable; a sleeping peer that wakes is
  fetched from within a minute; a trail collapses to its latest fix and the control slot, and a sweep
  bounds what a namespace keeps; the locks never block for ever; every reachable state is consistent, serves what it calls
  present and reports truthful health numbers; without the key nothing happens;
  the redactor hides exactly the sensitive parts of a line. Eleven theorems show behaviour the code
  should not have: \<open>early_bytes_never_announced\<close>, \<open>second_record_wakes_twice\<close>,
  \<open>unnamed_hash_never_released\<close>, \<open>padded_token_stays_subscribed\<close>, \<open>punctuation_defeats_redaction\<close>,
  \<open>race_loses_entry\<close>, \<open>stale_probe_hides_missing_bytes\<close>, \<open>dead_watch_never_revived\<close>,
  \<open>spelling_variants_all_kept\<close>, \<open>sleepers_delay_every_wake\<close> and \<open>unreadable_document_blocks_sweep\<close>.

  \<^bold>\<open>Bounds and loops.\<close> Loops are structural recursions over the list they walk, or recursions on an
  index with a termination proof (\<open>Log_Redaction\<close>, where the loops are also run as \<open>while_option\<close>), so no
  fuel is needed. Wrap-around is modelled: the retention window and the backoff saturate as in the code, and
  \<open>now + backoff\<close> wraps as a release build does. In \<open>Node_Timing\<close> the loop runs for a given number of ticks,
  any number; its theorems hold for every tick.

  \<^bold>\<open>Not modelled.\<close> Gossip and router set-up, task spawning, timers and signal handlers; the spans and log
  lines inside the node's operations; the subscriber's filter and the console format under the
  redaction; the module declarations of \<open>lib.rs\<close>; of the tests, the one that races the docs engine's own
  connections, which is about code outside the repository.
\<close>

section \<open>Configuration and API together\<close>

text \<open>
  The key in the environment is the key of the API: whatever the other variables are, if the
  configuration holds a key, a request that sends it as a bearer token, with any white space
  around the header, reaches the handler of its route.
\<close>

lemma configured_key_opens_api:
  assumes "psk (from_env env) = Some secret" "v1_route (path req) = Some r"
    and "authorization req = Some header" "trim header = ''Bearer '' @ secret"
  shows "control_api http api docs (psk (from_env env)) req node = v1_run http api docs r req node"
proof -
  have "trimmed_nonempty (env ''TRAIL_STASH_PSK'') = Some secret"
    using assms(1) by (simp add: from_env_def Let_def)
  note secret = trimmed_nonempty_Some [OF this]
  have "authorize (Some secret) (bearer_token (Some header)) = AuthOk"
    using bearer_header_opens_gate [of secret header] secret assms(4) by blast
  then show ?thesis
    using assms by (simp add: control_api_def psk_guard_def)
qed

lemma configured_key_opens_api_witness:
  "control_api plain_http memory_store memory_docs
     (psk (from_env (\<lambda>k. if k = ''TRAIL_STASH_PSK'' then Some '' s3cret '' else None)))
     \<lparr>http_method = GET, path = [''v1'', ''namespaces'', fmt_hex trail_ns, ''content'', ''nine''],
      authorization = Some ''Bearer s3cret'', body = []\<rparr> trail_node
   = (\<lparr>status = 404, payload = Empty\<rparr>, trail_node)"
proof -
  let ?env = "\<lambda>k. if k = ''TRAIL_STASH_PSK'' then Some '' s3cret '' else None"
  have "trim '' s3cret '' = ''s3cret''"
    by (simp add: std_defs chr_byte_def)
  then have k: "psk (from_env ?env) = Some ''s3cret''"
    by (simp add: from_env_def trimmed_nonempty_def)
  have t: "trim ''Bearer s3cret'' = ''Bearer '' @ ''s3cret''"
    by (simp add: std_defs chr_byte_def)
  have "\<not> is_present (content trail_node) [9]"
    by (simp add: trail_node_def handle_insert_remote_fields trail_register finish_register_fields
        store_has_def memory_store_def)
  then have "content_handler plain_http memory_store (fmt_hex trail_ns) ''nine'' trail_node =
      \<lparr>status = 404, payload = Empty\<rparr>"
    by (simp add: content_handler_def parse_fmt_hex trail_length plain_hash content_bytes_def
        is_present_for_iff respond_def)
  then show ?thesis
    by (subst configured_key_opens_api [OF k _ _ t, where r = "Content (fmt_hex trail_ns) ''nine''"])
      (simp_all add: v1_route_path v1_run_def)
qed

end
